(* ===== verification/Prelude.thy ===== *)
theory Prelude
  imports Main "HOL-Library.Word" "HOL-Library.Monad_Syntax"
begin

unbundle bit_operations_syntax

text \<open>
  Shared vocabulary of the development: the machine types of the C code, assertions as
  option values, C's conversion to a 32-bit int, slices of byte arrays, and the
  event-driven machines every flow component is an instance of. The two locales at the end
  state the contracts the components discharge: a machine whose assertions never fail, and
  a machine that refines a simpler one.
\<close>

named_theorems bits_simps \<open>rules that decide equalities of words bit by bit\<close>
named_theorems wire_simps \<open>lengths and projections of encoded headers\<close>

section \<open>Machine types\<close>

type_synonym byte = "8 word"
type_synonym u16 = "16 word"
type_synonym u32 = "32 word"
type_synonym u64 = "64 word"

abbreviation INT_MAX :: int where "INT_MAX \<equiv> 2147483647"

text \<open>The value an integer takes when C converts it to a 32-bit \<open>int\<close>.\<close>

definition c_int :: "int \<Rightarrow> int" where
  "c_int x = signed_take_bit 31 x"

lemma c_int_id [simp]: "- 2147483648 \<le> x \<Longrightarrow> x \<le> INT_MAX \<Longrightarrow> c_int x = x"
  by (simp add: c_int_def signed_take_bit_int_eq_self)

lemma bit_byte_ge [simp, bits_simps]: "bit (p :: byte) (8 + n) = False"
  using bit_imp_le_length [of p "8 + n"] by auto

lemma bit_byte_ge' [bits_simps]: "8 \<le> n \<Longrightarrow> bit (p :: byte) n = False"
  using bit_imp_le_length [of p n] by auto

declare bit_simps [bits_simps]

lemma unat_byte_less: "unat (b :: byte) < 256"
  by (rule order_less_le_trans [OF unsigned_less]) simp

lemma unat_u16_less: "unat (x :: u16) < 65536"
  by (rule order_less_le_trans [OF unsigned_less]) simp

lemma unat_u32_less: "unat (x :: u32) < 4294967296"
  by (rule order_less_le_trans [OF unsigned_less]) simp

lemma unat_ucast_up [simp]:
  "LENGTH('a) \<le> LENGTH('b) \<Longrightarrow> unat (ucast (x :: 'a::len word) :: 'b::len word) = unat x"
  by (simp add: unsigned_ucast_eq take_bit_nat_eq_self_iff
      order_less_le_trans [OF unsigned_less, of "2 ^ LENGTH('b)"])

lemma unat_ucast_small: "unat x < 2 ^ LENGTH('b) \<Longrightarrow> unat (ucast x :: 'b::len word) = unat x"
  by (simp add: unsigned_ucast_eq take_bit_nat_eq_self_iff)

lemma unat_of_nat_small: "n < 2 ^ LENGTH('a) \<Longrightarrow> unat (of_nat n :: 'a::len word) = n"
  by (simp add: unsigned_of_nat take_bit_nat_eq_self_iff)

section \<open>Assertions\<close>

text \<open>
  The code states its preconditions as \<open>ASSERT(e)\<close> (misc/debug.h): a build without
  \<open>NDEBUG\<close> aborts when \<open>e\<close> is false. A model of such an operation is an
  option, \<open>None\<close> where an assertion of the code fails, so that a theorem that the
  result is \<open>Some\<close> says that no assertion fails.
\<close>

definition assert_that :: "bool \<Rightarrow> unit option" where
  "assert_that b = (if b then Some () else None)"

lemma assert_that_simps [simp]:
  "assert_that True = Some ()" "assert_that False = None"
  "(assert_that b = Some u) = b" "(assert_that b = None) = (\<not> b)"
  "(\<exists>u. assert_that b = Some u) = b"
  by (auto simp: assert_that_def)

lemma bind_assert [simp]: "(assert_that b \<bind> f = Some x) = (b \<and> f () = Some x)"
  by (simp add: assert_that_def)

lemma bind_assert_True: "b \<Longrightarrow> assert_that b \<bind> f = f ()"
  by simp

section \<open>Byte arrays\<close>

definition seg :: "nat \<Rightarrow> nat \<Rightarrow> 'a list \<Rightarrow> 'a list" where
  "seg off n bs = take n (drop off bs)"

lemma length_seg [simp]: "length (seg off n bs) = min n (length bs - off)"
  by (simp add: seg_def)

lemma seg_append_left: "off + n \<le> length xs \<Longrightarrow> seg off n (xs @ ys) = seg off n xs"
  by (simp add: seg_def)

lemma seg_append_right:
  "length xs \<le> off \<Longrightarrow> seg off n (xs @ ys) = seg (off - length xs) n ys"
  by (simp add: seg_def)

lemma seg_0 [simp]: "seg 0 n xs = take n xs"
  by (simp add: seg_def)

lemma seg_zero_length [simp]: "seg off 0 xs = []"
  by (simp add: seg_def)

lemma seg_join: "off2 = off + m \<Longrightarrow> seg off m xs @ seg off2 n xs = seg off (m + n) xs"
  by (simp add: seg_def take_add drop_drop add.commute)

lemma seg_join_append:
  "off2 = off + m \<Longrightarrow> seg off m xs @ seg off2 n xs @ ys = seg off (m + n) xs @ ys"
  by (simp add: seg_join flip: append_assoc)

lemma seg_one: "off < length xs \<Longrightarrow> seg off 1 xs = [xs ! off]"
  by (simp add: seg_def take_Suc hd_drop_conv_nth)

text \<open>\<open>blit off bs arr\<close> is \<open>arr\<close> after \<open>memcpy(arr + off, bs, len)\<close>;
  bytes beyond the array are dropped, so its length never changes.\<close>

definition blit :: "nat \<Rightarrow> 'a list \<Rightarrow> 'a list \<Rightarrow> 'a list" where
  "blit off bs arr = take (length arr) (take off arr @ bs @ drop (off + length bs) arr)"

lemma length_blit [simp]: "off \<le> length arr \<Longrightarrow> length (blit off bs arr) = length arr"
  by (simp add: blit_def)

lemma seg_blit_same:
  "off + length bs \<le> length arr \<Longrightarrow> seg off (length bs) (blit off bs arr) = bs"
  by (simp add: blit_def seg_def drop_take)

lemma seg_blit_before:
  "o2 + n \<le> off \<Longrightarrow> off + length bs \<le> length arr \<Longrightarrow> seg o2 n (blit off bs arr) = seg o2 n arr"
  by (auto simp: blit_def seg_def drop_take min_def)

lemma seg_blit_after:
  assumes "off + length bs \<le> o2" "off + length bs \<le> length arr"
  shows "seg o2 n (blit off bs arr) = seg o2 n arr"
proof -
  have "blit off bs arr = take off arr @ bs @ drop (off + length bs) arr"
    using assms by (simp add: blit_def)
  moreover have "drop o2 (take off arr @ bs @ drop (off + length bs) arr) = drop o2 arr"
    using assms by (simp add: drop_append min_def)
  ultimately show ?thesis by (simp add: seg_def)
qed

lemma some_pair_iff:
  "(case x of None \<Rightarrow> False | Some (a, b) \<Rightarrow> P a b) \<longleftrightarrow> (\<exists>a b. x = Some (a, b) \<and> P a b)"
  by (cases x) auto

section \<open>Event-driven machines\<close>

text \<open>
  A component handles one event at a time: its handlers are a function from the state and
  the event to the new state and the calls it makes on its neighbours, in order, or
  \<open>None\<close> when an assertion fails. \<open>run\<close> handles a sequence of events;
  \<open>admissible\<close> says that each event respects the neighbours' contract \<open>ok\<close> in
  the state it arrives in.
\<close>

fun run :: "('s \<Rightarrow> 'e \<Rightarrow> ('s \<times> 'o list) option) \<Rightarrow> 's \<Rightarrow> 'e list \<Rightarrow> ('s \<times> 'o list) option" where
  "run f s [] = Some (s, [])"
| "run f s (e # es) =
     (case f s e of None \<Rightarrow> None
      | Some (s1, o1) \<Rightarrow>
          (case run f s1 es of None \<Rightarrow> None | Some (s2, o2) \<Rightarrow> Some (s2, o1 @ o2)))"

fun admissible ::
  "('s \<Rightarrow> 'e \<Rightarrow> bool) \<Rightarrow> ('s \<Rightarrow> 'e \<Rightarrow> ('s \<times> 'o list) option) \<Rightarrow> 's \<Rightarrow> 'e list \<Rightarrow> bool" where
  "admissible ok f s [] = True"
| "admissible ok f s (e # es) =
     (ok s e \<and> (case f s e of None \<Rightarrow> True | Some (s1, o1) \<Rightarrow> admissible ok f s1 es))"

lemma run_append:
  "run f s (es @ fs) =
     (case run f s es of None \<Rightarrow> None
      | Some (s1, o1) \<Rightarrow>
          (case run f s1 fs of None \<Rightarrow> None | Some (s2, o2) \<Rightarrow> Some (s2, o1 @ o2)))"
  by (induction es arbitrary: s) (auto split: option.splits)

lemma admissible_append:
  "run f s es = Some (s1, o1) \<Longrightarrow>
   admissible ok f s (es @ fs) = (admissible ok f s es \<and> admissible ok f s1 fs)"
  by (induction es arbitrary: s o1) (auto split: option.splits)

lemma run_keeps:
  assumes "\<And>s e s' os. f s e = Some (s', os) \<Longrightarrow> g s' = g s"
  shows "run f s es = Some (s', os) \<Longrightarrow> g s' = g s"
proof (induction es arbitrary: s os)
  case (Cons e es)
  then show ?case using assms by (fastforce split: option.splits)
qed simp

text \<open>A machine whose assertions hold as long as its neighbours keep their contract.\<close>

locale safe_machine =
  fixes step :: "'s \<Rightarrow> 'e \<Rightarrow> ('s \<times> 'o list) option"
    and ok :: "'s \<Rightarrow> 'e \<Rightarrow> bool"
    and inv :: "'s \<Rightarrow> bool"
  assumes step_safe: "inv s \<Longrightarrow> ok s e \<Longrightarrow> \<exists>s' os. step s e = Some (s', os) \<and> inv s'"
begin

lemma run_safe:
  "inv s \<Longrightarrow> admissible ok step s es \<Longrightarrow> \<exists>s' os. run step s es = Some (s', os) \<and> inv s'"
proof (induction es arbitrary: s)
  case Nil
  then show ?case by simp
next
  case (Cons e es)
  then obtain s1 o1 where s1: "step s e = Some (s1, o1)" "inv s1"
    using step_safe [of s e] by auto
  with Cons.prems(2) have "admissible ok step s1 es" by simp
  with s1(2) obtain s2 o2 where "run step s1 es = Some (s2, o2)" "inv s2"
    using Cons.IH by blast
  with s1 show ?case by auto
qed

text \<open>What went in is what came out and what is still held: if every step moves the items of its
  event into the items held or out, so does every run.\<close>

lemma run_trace:
  assumes step_trace:
      "\<And>s e s' os. inv s \<Longrightarrow> ok s e \<Longrightarrow> step s e = Some (s', os) \<Longrightarrow> held s @ ins e = outs os @ held s'"
    and outs: "outs [] = []" "\<And>xs ys. outs (xs @ ys) = outs xs @ outs ys"
  shows "inv s \<Longrightarrow> admissible ok step s es \<Longrightarrow> run step s es = Some (s', os) \<Longrightarrow>
    held s @ concat (map ins es) = outs os @ held s'"
proof (induction es arbitrary: s os)
  case Nil
  then show ?case by (simp add: outs)
next
  case (Cons e es)
  then obtain s1 o1 o2 where s1: "step s e = Some (s1, o1)" "run step s1 es = Some (s', o2)"
    "os = o1 @ o2"
    by (auto split: option.splits)
  have "inv s1" "admissible ok step s1 es" using Cons.prems s1 step_safe [of s e] by auto
  then have "held s1 @ concat (map ins es) = outs o2 @ held s'" using Cons.IH s1(2) by blast
  moreover have "held s @ ins e = outs o1 @ held s1" using Cons.prems s1 by (intro step_trace) auto
  ultimately show ?case using s1(3) outs(2) by (metis append.assoc concat.simps(2) list.simps(9))
qed

lemma run_inv: "inv s \<Longrightarrow> admissible ok step s es \<Longrightarrow> run step s es = Some (s', os) \<Longrightarrow> inv s'"
  using run_safe by fastforce

end

text \<open>The same for an invariant that also speaks of what has happened so far: the events taken and
  the calls made.\<close>

locale traced_machine =
  fixes step :: "'s \<Rightarrow> 'e \<Rightarrow> ('s \<times> 'o list) option"
    and ok :: "'s \<Rightarrow> 'e \<Rightarrow> bool"
    and inv :: "'s \<Rightarrow> 'e list \<Rightarrow> 'o list \<Rightarrow> bool"
  assumes step_traced: "inv s es os \<Longrightarrow> ok s e \<Longrightarrow>
    \<exists>s' os'. step s e = Some (s', os') \<and> inv s' (es @ [e]) (os @ os')"
begin

lemma run_traced:
  "inv s es0 os0 \<Longrightarrow> admissible ok step s es \<Longrightarrow>
   \<exists>s' os. run step s es = Some (s', os) \<and> inv s' (es0 @ es) (os0 @ os)"
proof (induction es arbitrary: s es0 os0)
  case Nil
  then show ?case by simp
next
  case (Cons e es)
  then obtain s1 o1 where s1: "step s e = Some (s1, o1)" "inv s1 (es0 @ [e]) (os0 @ o1)"
    using step_traced [of s es0 os0 e] by auto
  with Cons.prems(2) have "admissible ok step s1 es" by simp
  from Cons.IH [OF s1(2) this] obtain s2 o2 where
    "run step s1 es = Some (s2, o2)" "inv s2 ((es0 @ [e]) @ es) ((os0 @ o1) @ o2)" by blast
  with s1(1) show ?case by simp
qed

end

text \<open>A machine that, seen through \<open>abs\<close>, does the steps of a simpler machine and makes
  the same calls.\<close>

locale refined_machine =
  safe_machine cstep ok inv
  for cstep :: "'c \<Rightarrow> 'e \<Rightarrow> ('c \<times> 'o list) option"
    and ok :: "'c \<Rightarrow> 'e \<Rightarrow> bool"
    and inv :: "'c \<Rightarrow> bool" +
  fixes astep :: "'a \<Rightarrow> 'e \<Rightarrow> ('a \<times> 'o list) option"
    and abs :: "'c \<Rightarrow> 'a"
  assumes simulates:
    "inv c \<Longrightarrow> ok c e \<Longrightarrow> cstep c e = Some (c', os) \<Longrightarrow> astep (abs c) e = Some (abs c', os)"
begin

lemma run_simulates:
  "inv c \<Longrightarrow> admissible ok cstep c es \<Longrightarrow> run cstep c es = Some (c', os) \<Longrightarrow>
   run astep (abs c) es = Some (abs c', os)"
proof (induction es arbitrary: c os)
  case Nil
  then show ?case by simp
next
  case (Cons e es)
  then obtain c1 o1 o2 where c1: "cstep c e = Some (c1, o1)" "run cstep c1 es = Some (c', o2)"
    "os = o1 @ o2"
    by (auto split: option.splits)
  moreover have "inv c1" using Cons.prems c1 step_safe [of c e] by auto
  moreover have "admissible ok cstep c1 es" using Cons.prems c1 by simp
  ultimately show ?case using Cons simulates [of c e c1 o1] by auto
qed

end

end
