(* ===== verification/Byteorder.thy ===== *)
theory Byteorder
  imports Prelude
begin

text \<open>
  Byte order: misc/byteorder.h and misc/read_write_int.h. The programs are built with
  \<open>BADVPN_LITTLE_ENDIAN\<close>: \<open>mem<w>\<close> and \<open>unmem<w>\<close> are the bytes of an
  integer in the memory of such a host and back, which is what the casts to
  \<open>uint8_t *\<close>, the packed structs and \<open>memcpy\<close> of the code see. The locale
  \<open>byte_codec\<close> is the contract of every fixed-width reader and writer pair; its
  lemmas are what the header codecs of the other theories rest on.
\<close>

section \<open>Integers in memory\<close>

text \<open>The byte \<open>x >> k\<close> stored through a \<open>uint8_t *\<close>, and the term
  \<open>(uint<w>_t)p << k\<close> of a reader.\<close>

definition byte_at :: "nat \<Rightarrow> 'a::len word \<Rightarrow> byte" where
  "byte_at k x = ucast (drop_bit k x)"

definition put_byte :: "nat \<Rightarrow> byte \<Rightarrow> 'a::len word" where
  "put_byte k p = push_bit k (ucast p)"

definition mem16 :: "u16 \<Rightarrow> byte list" where
  "mem16 x = [byte_at 0 x, byte_at 8 x]"

definition unmem16 :: "byte list \<Rightarrow> u16" where
  "unmem16 m = put_byte 0 (m ! 0) OR put_byte 8 (m ! 1)"

definition mem32 :: "u32 \<Rightarrow> byte list" where
  "mem32 x = [byte_at 0 x, byte_at 8 x, byte_at 16 x, byte_at 24 x]"

definition unmem32 :: "byte list \<Rightarrow> u32" where
    "unmem32 m = put_byte 0 (m ! 0) OR put_byte 8 (m ! 1) OR put_byte 16 (m ! 2) OR put_byte 24 (m
     ! 3)"

definition mem64 :: "u64 \<Rightarrow> byte list" where
    "mem64 x = [byte_at 0 x, byte_at 8 x, byte_at 16 x, byte_at 24 x, byte_at 32 x, byte_at 40 x,
     byte_at 48 x, byte_at 56 x]"

definition unmem64 :: "byte list \<Rightarrow> u64" where
    "unmem64 m = put_byte 0 (m ! 0) OR put_byte 8 (m ! 1) OR put_byte 16 (m ! 2) OR put_byte 24 (m
     ! 3) OR put_byte 32 (m ! 4) OR put_byte 40 (m ! 5) OR put_byte 48 (m ! 6) OR put_byte 56 (m
     ! 7)"

section \<open>byteorder.h\<close>

definition badvpn_reverse16 :: "u16 \<Rightarrow> u16" where
  "badvpn_reverse16 x = (let m = mem16 x in unmem16 [m ! 1, m ! 0])"

definition badvpn_reverse32 :: "u32 \<Rightarrow> u32" where
  "badvpn_reverse32 x = (let m = mem32 x in unmem32 [m ! 3, m ! 2, m ! 1, m ! 0])"

definition badvpn_reverse64 :: "u64 \<Rightarrow> u64" where
    "badvpn_reverse64 x = (let m = mem64 x in unmem64 [m ! 7, m ! 6, m ! 5, m ! 4, m ! 3, m ! 2, m
     ! 1, m ! 0])"

definition hton8 :: "byte \<Rightarrow> byte" where "hton8 x = x"
definition htol8 :: "byte \<Rightarrow> byte" where "htol8 x = x"
definition hton16 :: "u16 \<Rightarrow> u16" where "hton16 x = badvpn_reverse16 x"
definition hton32 :: "u32 \<Rightarrow> u32" where "hton32 x = badvpn_reverse32 x"
definition hton64 :: "u64 \<Rightarrow> u64" where "hton64 x = badvpn_reverse64 x"
definition htol16 :: "u16 \<Rightarrow> u16" where "htol16 x = x"
definition htol32 :: "u32 \<Rightarrow> u32" where "htol32 x = x"
definition htol64 :: "u64 \<Rightarrow> u64" where "htol64 x = x"
definition ntoh8 :: "byte \<Rightarrow> byte" where "ntoh8 x = hton8 x"
definition ntoh16 :: "u16 \<Rightarrow> u16" where "ntoh16 x = hton16 x"
definition ntoh32 :: "u32 \<Rightarrow> u32" where "ntoh32 x = hton32 x"
definition ntoh64 :: "u64 \<Rightarrow> u64" where "ntoh64 x = hton64 x"
definition ltoh8 :: "byte \<Rightarrow> byte" where "ltoh8 x = htol8 x"
definition ltoh16 :: "u16 \<Rightarrow> u16" where "ltoh16 x = htol16 x"
definition ltoh32 :: "u32 \<Rightarrow> u32" where "ltoh32 x = htol32 x"
definition ltoh64 :: "u64 \<Rightarrow> u64" where "ltoh64 x = htol64 x"

section \<open>read_write_int.h\<close>

text \<open>A reader takes the bytes from the pointer on; a writer gives the bytes it stores.\<close>

definition badvpn_read_le8 :: "byte list \<Rightarrow> byte" where "badvpn_read_le8 ptr = put_byte 0 (ptr ! 0)"
definition badvpn_read_be8 :: "byte list \<Rightarrow> byte" where "badvpn_read_be8 ptr = put_byte 0 (ptr ! 0)"
definition badvpn_write_le8 :: "byte \<Rightarrow> byte list" where "badvpn_write_le8 x = [byte_at 0 x]"
definition badvpn_write_be8 :: "byte \<Rightarrow> byte list" where "badvpn_write_be8 x = [byte_at 0 x]"

definition badvpn_read_le16 :: "byte list \<Rightarrow> u16" where
  "badvpn_read_le16 ptr = put_byte 8 (ptr ! 1) OR put_byte 0 (ptr ! 0)"

definition badvpn_read_be16 :: "byte list \<Rightarrow> u16" where
  "badvpn_read_be16 ptr = put_byte 8 (ptr ! 0) OR put_byte 0 (ptr ! 1)"

definition badvpn_write_le16 :: "u16 \<Rightarrow> byte list" where
  "badvpn_write_le16 x = [byte_at 0 x, byte_at 8 x]"

definition badvpn_write_be16 :: "u16 \<Rightarrow> byte list" where
  "badvpn_write_be16 x = [byte_at 8 x, byte_at 0 x]"

definition badvpn_read_le32 :: "byte list \<Rightarrow> u32" where
    "badvpn_read_le32 ptr = put_byte 24 (ptr ! 3) OR put_byte 16 (ptr ! 2) OR put_byte 8 (ptr ! 1)
     OR put_byte 0 (ptr ! 0)"

definition badvpn_read_be32 :: "byte list \<Rightarrow> u32" where
    "badvpn_read_be32 ptr = put_byte 24 (ptr ! 0) OR put_byte 16 (ptr ! 1) OR put_byte 8 (ptr ! 2)
     OR put_byte 0 (ptr ! 3)"

definition badvpn_write_le32 :: "u32 \<Rightarrow> byte list" where
  "badvpn_write_le32 x = [byte_at 0 x, byte_at 8 x, byte_at 16 x, byte_at 24 x]"

definition badvpn_write_be32 :: "u32 \<Rightarrow> byte list" where
  "badvpn_write_be32 x = [byte_at 24 x, byte_at 16 x, byte_at 8 x, byte_at 0 x]"

definition badvpn_read_le64 :: "byte list \<Rightarrow> u64" where
    "badvpn_read_le64 ptr = put_byte 56 (ptr ! 7) OR put_byte 48 (ptr ! 6) OR put_byte 40 (ptr !
     5) OR put_byte 32 (ptr ! 4) OR put_byte 24 (ptr ! 3) OR put_byte 16 (ptr ! 2) OR put_byte 8
     (ptr ! 1) OR put_byte 0 (ptr ! 0)"

definition badvpn_read_be64 :: "byte list \<Rightarrow> u64" where
    "badvpn_read_be64 ptr = put_byte 56 (ptr ! 0) OR put_byte 48 (ptr ! 1) OR put_byte 40 (ptr !
     2) OR put_byte 32 (ptr ! 3) OR put_byte 24 (ptr ! 4) OR put_byte 16 (ptr ! 5) OR put_byte 8
     (ptr ! 6) OR put_byte 0 (ptr ! 7)"

definition badvpn_write_le64 :: "u64 \<Rightarrow> byte list" where
    "badvpn_write_le64 x = [byte_at 0 x, byte_at 8 x, byte_at 16 x, byte_at 24 x, byte_at 32 x,
     byte_at 40 x, byte_at 48 x, byte_at 56 x]"

definition badvpn_write_be64 :: "u64 \<Rightarrow> byte list" where
    "badvpn_write_be64 x = [byte_at 56 x, byte_at 48 x, byte_at 40 x, byte_at 32 x, byte_at 24 x,
     byte_at 16 x, byte_at 8 x, byte_at 0 x]"

section \<open>Bytes of a word\<close>

lemma bit_byte_at [bits_simps]: "bit (byte_at k x) i = (i < 8 \<and> bit x (k + i))"
  by (simp add: byte_at_def bit_simps)

lemma bit_put_byte [bits_simps]:
  "bit (put_byte k p :: 'a::len word) i = (k \<le> i \<and> i < LENGTH('a) \<and> bit p (i - k))"
  by (auto simp: put_byte_def bit_simps)

lemma byte_at_or [simp]: "byte_at k (x OR y) = byte_at k x OR byte_at k y"
  by (rule bit_word_eqI) (auto simp: bits_simps)

lemma byte_at_put_byte [simp]:
  "k + 8 \<le> LENGTH('a) \<Longrightarrow> byte_at k (put_byte k p :: 'a::len word) = p"
  by (rule bit_word_eqI) (auto simp: bits_simps)

lemma byte_at_put_byte_other [simp]:
  "j + 8 \<le> k \<or> k + 8 \<le> j \<Longrightarrow> byte_at k (put_byte j p :: 'a::len word) = 0"
  by (rule bit_word_eqI) (auto simp: bits_simps)

lemma bit_put_byte_at [bits_simps]:
  "bit (put_byte k (byte_at k (x :: 'a::len word)) :: 'a word) i = (k \<le> i \<and> i < k + 8 \<and> bit x i)"
  using bit_imp_le_length [of x i] by (auto simp: bit_put_byte bit_byte_at)

lemma list_of_length_2: "length xs = 2 \<Longrightarrow> [xs ! 0, xs ! Suc 0] = xs"
  by (auto simp: numeral_eq_Suc length_Suc_conv)

lemma list_of_length_4: "length xs = 4 \<Longrightarrow> [xs ! 0, xs ! Suc 0, xs ! 2, xs ! 3] = xs"
  by (auto simp: numeral_eq_Suc length_Suc_conv)

lemma list_of_length_8:
  "length xs = 8 \<Longrightarrow> [xs ! 0, xs ! Suc 0, xs ! 2, xs ! 3, xs ! 4, xs ! 5, xs ! 6, xs ! 7] = xs"
  by (auto simp: numeral_eq_Suc length_Suc_conv)

lemmas list_of_length = list_of_length_2 list_of_length_4 list_of_length_8

lemmas int_layout_defs =
  mem16_def unmem16_def mem32_def unmem32_def mem64_def unmem64_def
  badvpn_read_le16_def badvpn_write_le16_def badvpn_read_be16_def badvpn_write_be16_def
  badvpn_read_le32_def badvpn_write_le32_def badvpn_read_be32_def badvpn_write_be32_def
  badvpn_read_le64_def badvpn_write_le64_def badvpn_read_be64_def badvpn_write_be64_def

text \<open>Every bit of a word lies in one of its bytes.\<close>

lemma join16: "put_byte 0 (byte_at 0 x) OR put_byte 8 (byte_at 8 x) = (x :: u16)"
  by (rule bit_word_eqI) (auto simp: bit_or_iff bit_put_byte_at)

lemma join32:
  "put_byte 0 (byte_at 0 x) OR put_byte 8 (byte_at 8 x) OR put_byte 16 (byte_at 16 x) OR
   put_byte 24 (byte_at 24 x) = (x :: u32)"
  by (rule bit_word_eqI) (auto simp: bit_or_iff bit_put_byte_at)

lemma join64:
  "put_byte 0 (byte_at 0 x) OR put_byte 8 (byte_at 8 x) OR put_byte 16 (byte_at 16 x) OR
   put_byte 24 (byte_at 24 x) OR put_byte 32 (byte_at 32 x) OR put_byte 40 (byte_at 40 x) OR
   put_byte 48 (byte_at 48 x) OR put_byte 56 (byte_at 56 x) = (x :: u64)"
  by (rule bit_word_eqI) (auto simp: bit_or_iff bit_put_byte_at)

section \<open>The codec contract\<close>

locale byte_codec =
  fixes enc :: "'w \<Rightarrow> byte list"
    and dec :: "byte list \<Rightarrow> 'w"
    and width :: nat
  assumes length_enc: "length (enc w) = width"
    and dec_enc: "dec (enc w) = w"
    and enc_dec: "length bs = width \<Longrightarrow> enc (dec bs) = bs"
    and dec_prefix: "width \<le> length bs \<Longrightarrow> dec bs = dec (take width bs)"
begin

lemma dec_enc_append: "dec (enc w @ rest) = w"
  using dec_prefix [of "enc w @ rest"] by (simp add: length_enc dec_enc)

lemma enc_dec_prefix: "width \<le> length bs \<Longrightarrow> enc (dec bs) = take width bs"
  using enc_dec [of "take width bs"] by (subst dec_prefix) auto

lemma enc_inject: "enc v = enc w \<longleftrightarrow> v = w"
  by (metis dec_enc)

lemma enc_append_inject: "enc v @ bs = enc w @ cs \<longleftrightarrow> v = w \<and> bs = cs"
  by (metis append_eq_append_conv length_enc dec_enc)

lemma dec_blit:
  "off + width \<le> length arr \<Longrightarrow> dec (drop off (blit off (enc w) arr)) = w"
  using seg_blit_same [of off "enc w" arr]
  by (subst dec_prefix) (simp_all add: seg_def length_enc dec_enc)

end

interpretation m16: byte_codec mem16 unmem16 2
  by unfold_locales (simp_all add: int_layout_defs join16 list_of_length)

interpretation m32: byte_codec mem32 unmem32 4
  by unfold_locales (simp_all add: int_layout_defs join32 list_of_length)

interpretation m64: byte_codec mem64 unmem64 8
  by unfold_locales (simp_all add: int_layout_defs join64 list_of_length)

section \<open>Readers and writers against the memory layout\<close>

lemma le_mem:
  "badvpn_write_le16 x = mem16 x" "badvpn_read_le16 p = unmem16 p"
  "badvpn_write_le32 y = mem32 y" "badvpn_read_le32 p = unmem32 p"
  "badvpn_write_le64 z = mem64 z" "badvpn_read_le64 p = unmem64 p"
  by (simp_all only: int_layout_defs or.commute or.left_commute)

lemma write_be_mem:
  "badvpn_write_be16 x = rev (mem16 x)"
  "badvpn_write_be32 y = rev (mem32 y)"
  "badvpn_write_be64 z = rev (mem64 z)"
  by (simp_all add: int_layout_defs)

lemma read_be_mem:
  "2 \<le> length p \<Longrightarrow> badvpn_read_be16 p = unmem16 (rev (take 2 p))"
  "4 \<le> length p \<Longrightarrow> badvpn_read_be32 p = unmem32 (rev (take 4 p))"
  "8 \<le> length p \<Longrightarrow> badvpn_read_be64 p = unmem64 (rev (take 8 p))"
  by (simp_all add: int_layout_defs rev_nth or.commute or.left_commute)

interpretation le16: byte_codec badvpn_write_le16 badvpn_read_le16 2
  unfolding le_mem [abs_def] by (rule m16.byte_codec_axioms)

interpretation le32: byte_codec badvpn_write_le32 badvpn_read_le32 4
  unfolding le_mem [abs_def] by (rule m32.byte_codec_axioms)

interpretation le64: byte_codec badvpn_write_le64 badvpn_read_le64 8
  unfolding le_mem [abs_def] by (rule m64.byte_codec_axioms)

interpretation be16: byte_codec badvpn_write_be16 badvpn_read_be16 2
  by unfold_locales
    (simp_all add: write_be_mem read_be_mem m16.length_enc m16.dec_enc m16.enc_dec)

interpretation be32: byte_codec badvpn_write_be32 badvpn_read_be32 4
  by unfold_locales
    (simp_all add: write_be_mem read_be_mem m32.length_enc m32.dec_enc m32.enc_dec)

interpretation be64: byte_codec badvpn_write_be64 badvpn_read_be64 8
  by unfold_locales
    (simp_all add: write_be_mem read_be_mem m64.length_enc m64.dec_enc m64.enc_dec)

lemmas codec_lengths [simp, wire_simps] =
  m16.length_enc m32.length_enc m64.length_enc
  le16.length_enc le32.length_enc le64.length_enc be16.length_enc be32.length_enc be64.length_enc

lemmas codec_inverses [simp] =
  m16.dec_enc m32.dec_enc m64.dec_enc
  m16.enc_dec m32.enc_dec m64.enc_dec
  m16.dec_enc_append m32.dec_enc_append m64.dec_enc_append
  le16.dec_enc_append le32.dec_enc_append le64.dec_enc_append
  be16.dec_enc_append be32.dec_enc_append be64.dec_enc_append

section \<open>Network order\<close>

text \<open>An integer converted by \<open>hton\<close> and copied from memory is the big-endian encoding,
  which is why the code may mix \<open>hton16\<close> stores with \<open>badvpn_read_be16\<close> loads.\<close>

lemma badvpn_reverse_mem:
  "badvpn_reverse16 x = unmem16 (rev (mem16 x))"
  "badvpn_reverse32 y = unmem32 (rev (mem32 y))"
  "badvpn_reverse64 z = unmem64 (rev (mem64 z))"
  by (simp_all add: badvpn_reverse16_def badvpn_reverse32_def badvpn_reverse64_def
      mem16_def mem32_def mem64_def)

lemma hton_be:
  "mem16 (hton16 x) = badvpn_write_be16 x"
  "mem32 (hton32 y) = badvpn_write_be32 y"
  "mem64 (hton64 z) = badvpn_write_be64 z"
  by (simp_all add: hton16_def hton32_def hton64_def badvpn_reverse_mem write_be_mem)

lemma ntoh_be:
  "2 \<le> length p \<Longrightarrow> ntoh16 (unmem16 p) = badvpn_read_be16 p"
  "4 \<le> length q \<Longrightarrow> ntoh32 (unmem32 q) = badvpn_read_be32 q"
  "8 \<le> length r \<Longrightarrow> ntoh64 (unmem64 r) = badvpn_read_be64 r"
  by (simp_all add: ntoh16_def hton16_def ntoh32_def hton32_def ntoh64_def hton64_def
      badvpn_reverse_mem read_be_mem m16.enc_dec_prefix m32.enc_dec_prefix m64.enc_dec_prefix)

lemma ntoh_hton [simp]:
  "ntoh16 (hton16 x) = x" "ntoh32 (hton32 y) = y" "ntoh64 (hton64 z) = z"
  "hton16 (ntoh16 x) = x" "hton32 (ntoh32 y) = y" "hton64 (ntoh64 z) = z"
  by (simp_all add: ntoh16_def hton16_def ntoh32_def hton32_def ntoh64_def hton64_def
      badvpn_reverse_mem)

lemma ltoh_htol [simp]:
  "ltoh16 (htol16 x) = x" "ltoh32 (htol32 y) = y" "ltoh64 (htol64 z) = z"
  by (simp_all add: ltoh16_def htol16_def ltoh32_def htol32_def ltoh64_def htol64_def)

lemma hton16_inject [simp]: "hton16 x = hton16 y \<longleftrightarrow> x = y"
  by (metis ntoh_hton(1))

lemma hton16_0 [simp]: "hton16 0 = 0"
  by (simp add: hton16_def badvpn_reverse16_def mem16_def unmem16_def byte_at_def put_byte_def)

end
