(* ===== verification/Inet_Proto.thy ===== *)
theory Inet_Proto
  imports Byteorder
begin

text \<open>
  IPv4, IPv6 and UDP headers: misc/ipv4_proto.h, misc/ipv6_proto.h, misc/udp_proto.h. A
  header is a record whose fields are the values the packed C struct holds, so a 16-bit
  field is still in network order; \<open>*_bytes\<close> and \<open>*_of_bytes\<close> are the struct's
  memory. The checksum routines keep their 32-bit accumulator; \<open>ones_sum\<close> is the
  reference they are compared with (the ones' complement sum of RFC 1071).
\<close>

section \<open>Headers\<close>

record ipv4_header =
  ip4_version4_ihl4 :: byte
  ip4_ds :: byte
  ip4_total_length :: u16
  ip4_identification :: u16
  ip4_flags3_fragmentoffset13 :: u16
  ip4_ttl :: byte
  ip4_protocol :: byte
  ip4_checksum :: u16
  ip4_source_address :: u32
  ip4_destination_address :: u32

definition ipv4_header_bytes :: "ipv4_header \<Rightarrow> byte list" where
  "ipv4_header_bytes h =
     [ip4_version4_ihl4 h, ip4_ds h] @ mem16 (ip4_total_length h) @
     mem16 (ip4_identification h) @ mem16 (ip4_flags3_fragmentoffset13 h) @
     [ip4_ttl h, ip4_protocol h] @ mem16 (ip4_checksum h) @
     mem32 (ip4_source_address h) @ mem32 (ip4_destination_address h)"

definition ipv4_header_of_bytes :: "byte list \<Rightarrow> ipv4_header" where
  "ipv4_header_of_bytes m =
     \<lparr>ip4_version4_ihl4 = m ! 0, ip4_ds = m ! 1, ip4_total_length = unmem16 (seg 2 2 m),
      ip4_identification = unmem16 (seg 4 2 m),
      ip4_flags3_fragmentoffset13 = unmem16 (seg 6 2 m),
      ip4_ttl = m ! 8, ip4_protocol = m ! 9, ip4_checksum = unmem16 (seg 10 2 m),
      ip4_source_address = unmem32 (seg 12 4 m),
      ip4_destination_address = unmem32 (seg 16 4 m)\<rparr>"

record ipv6_header =
  ip6_version4_tc4 :: byte
  ip6_tc4_fl4 :: byte
  ip6_fl :: u16
  ip6_payload_length :: u16
  ip6_next_header :: byte
  ip6_hop_limit :: byte
  ip6_source_address :: "byte list"
  ip6_destination_address :: "byte list"

definition ipv6_header_bytes :: "ipv6_header \<Rightarrow> byte list" where
  "ipv6_header_bytes h =
     [ip6_version4_tc4 h, ip6_tc4_fl4 h] @ mem16 (ip6_fl h) @ mem16 (ip6_payload_length h) @
     [ip6_next_header h, ip6_hop_limit h] @ ip6_source_address h @ ip6_destination_address h"

definition ipv6_header_of_bytes :: "byte list \<Rightarrow> ipv6_header" where
  "ipv6_header_of_bytes m =
     \<lparr>ip6_version4_tc4 = m ! 0, ip6_tc4_fl4 = m ! 1, ip6_fl = unmem16 (seg 2 2 m),
      ip6_payload_length = unmem16 (seg 4 2 m), ip6_next_header = m ! 6, ip6_hop_limit = m ! 7,
      ip6_source_address = seg 8 16 m, ip6_destination_address = seg 24 16 m\<rparr>"

record udp_header =
  udp_source_port :: u16
  udp_dest_port :: u16
  udp_length :: u16
  udp_checksum_field :: u16

definition udp_header_bytes :: "udp_header \<Rightarrow> byte list" where
  "udp_header_bytes h =
     mem16 (udp_source_port h) @ mem16 (udp_dest_port h) @ mem16 (udp_length h) @
     mem16 (udp_checksum_field h)"

definition udp_header_of_bytes :: "byte list \<Rightarrow> udp_header" where
  "udp_header_of_bytes m =
     \<lparr>udp_source_port = unmem16 (seg 0 2 m), udp_dest_port = unmem16 (seg 2 2 m),
      udp_length = unmem16 (seg 4 2 m), udp_checksum_field = unmem16 (seg 6 2 m)\<rparr>"

abbreviation (input) sizeof_ipv4_header :: nat where "sizeof_ipv4_header \<equiv> 20"
abbreviation (input) sizeof_ipv6_header :: nat where "sizeof_ipv6_header \<equiv> 40"
abbreviation (input) sizeof_udp_header :: nat where "sizeof_udp_header \<equiv> 8"

definition IPV4_PROTOCOL_UDP :: byte where "IPV4_PROTOCOL_UDP = 17"
definition IPV6_NEXT_UDP :: byte where "IPV6_NEXT_UDP = 17"

definition IPV4_GET_VERSION :: "ipv4_header \<Rightarrow> byte" where
  "IPV4_GET_VERSION h = drop_bit 4 (ip4_version4_ihl4 h AND 0xF0)"

definition IPV4_GET_IHL :: "ipv4_header \<Rightarrow> byte" where
  "IPV4_GET_IHL h = drop_bit 0 (ip4_version4_ihl4 h AND 0x0F)"

definition IPV4_MAKE_VERSION_IHL :: "nat \<Rightarrow> byte" where
  "IPV4_MAKE_VERSION_IHL sz = of_nat (sz div 4 + 4 * 2 ^ 4)"

section \<open>Checksums\<close>

text \<open>The summing loop \<open>t += badvpn_read_be16(data + 2 * i)\<close> for \<open>i < n\<close>, and the
  loop that folds the carries back in.\<close>

definition add_be16 :: "byte list \<Rightarrow> nat \<Rightarrow> u32 \<Rightarrow> u32" where
  "add_be16 data n t = fold (\<lambda>i t. t + ucast (badvpn_read_be16 (drop (2 * i) data))) [0..<n] t"

function fold_carry :: "u32 \<Rightarrow> u32" where
  "fold_carry t =
     (if drop_bit 16 t \<noteq> 0 then fold_carry ((t AND 0xFFFF) + drop_bit 16 t) else t)"
  by auto

lemma unat_drop16: "unat (drop_bit 16 (t :: u32)) = unat t div 65536"
  by (simp add: drop_bit_eq_div unat_div)

lemma unat_and_FFFF: "unat ((t :: u32) AND 0xFFFF) = unat t mod 65536"
proof -
  have "t AND 0xFFFF = take_bit 16 t"
    by (simp add: take_bit_eq_mask mask_eq_exp_minus_1)
  then show ?thesis by (simp add: take_bit_eq_mod unat_mod)
qed

lemma unat_carry_step:
  "unat ((t AND 0xFFFF) + drop_bit 16 t) = unat (t :: u32) mod 65536 + unat t div 65536"
proof -
  have "unat t < 2 ^ 32" using unsigned_less [of t] by simp
  then have "unat t mod 65536 + unat t div 65536 < 2 ^ 32" by simp
  then show ?thesis by (simp add: unat_word_ariths unat_drop16 unat_and_FFFF)
qed

lemma drop16_nonzero: "(drop_bit 16 (t :: u32) \<noteq> 0) = (65536 \<le> unat t)"
  by (metis div_greater_zero_iff less_numeral_extra(3) not_gr_zero unat_0 unat_drop16 unat_eq_zero
      zero_less_numeral)

lemma carry_step_less:
  assumes "65536 \<le> n" shows "n mod 65536 + n div 65536 < (n :: nat)"
proof -
  have "n = 65536 * (n div 65536) + n mod 65536" by simp
  moreover have "1 \<le> n div 65536" using assms by simp
  ultimately show ?thesis by linarith
qed

termination fold_carry
  by (relation "measure unat") (simp_all only: wf_measure in_measure drop16_nonzero unat_carry_step carry_step_less)

declare fold_carry.simps [simp del]

definition ipv4_checksum :: "ipv4_header \<Rightarrow> byte list \<Rightarrow> u16 \<Rightarrow> u16 option" where
  "ipv4_checksum header extra extra_len = do {
     assert_that (unat extra_len mod 2 = 0);
     let t = add_be16 (ipv4_header_bytes header) (sizeof_ipv4_header div 2) 0;
     let t = add_be16 extra (unat extra_len div 2) t;
     let t = fold_carry t;
     Some (hton16 (ucast (NOT t)))
   }"

definition ipv4_check :: "byte list \<Rightarrow> (ipv4_header \<times> byte list) option option" where
  "ipv4_check data =
     (if length data < sizeof_ipv4_header then Some None else
      let out_header = ipv4_header_of_bytes data in
      if IPV4_GET_VERSION out_header \<noteq> 4 then Some None else
      let header_len = unat (IPV4_GET_IHL out_header) * 4 in
      if header_len < sizeof_ipv4_header then Some None else
      if header_len > length data then Some None else
      let total_length = unat (ntoh16 (ip4_total_length out_header)) in
      if total_length < header_len then Some None else
      if total_length > length data then Some None else
      let checksum_in_packet = ip4_checksum out_header in
      do {
        checksum_computed \<leftarrow>
          ipv4_checksum (out_header\<lparr>ip4_checksum := hton16 0\<rparr>) (drop sizeof_ipv4_header data)
            (of_nat (header_len - sizeof_ipv4_header));
        if checksum_in_packet \<noteq> checksum_computed then Some None
        else Some (Some (out_header, seg header_len (total_length - header_len) data))
      })"

definition ipv6_check :: "byte list \<Rightarrow> (ipv6_header \<times> byte list) option" where
  "ipv6_check data =
     (if length data < sizeof_ipv6_header then None else
      let out_header = ipv6_header_of_bytes data in
      if drop_bit 4 (ntoh8 (ip6_version4_tc4 out_header)) \<noteq> 6 then None else
      let payload_length = unat (ntoh16 (ip6_payload_length out_header)) in
      if payload_length > length data - sizeof_ipv6_header then None else
      Some (out_header, seg sizeof_ipv6_header payload_length data))"

definition udp_checksum_summer :: "byte list \<Rightarrow> u16 \<Rightarrow> u32 option" where
  "udp_checksum_summer data len = do {
     assert_that (unat len mod 2 = 0);
     Some (add_be16 data (unat len div 2) 0)
   }"

text \<open>The payload's sum, common to both checksums: an odd last byte is the high byte of a
  final word.\<close>

definition udp_payload_sum :: "byte list \<Rightarrow> u16 \<Rightarrow> u32 option" where
  "udp_payload_sum payload payload_len =
     (if unat payload_len mod 2 = 0 then udp_checksum_summer payload payload_len
      else do {
        t \<leftarrow> udp_checksum_summer payload (payload_len - 1);
        let x = hton16 (push_bit 8 (ucast (payload ! unat (payload_len - 1))));
        u \<leftarrow> udp_checksum_summer (mem16 x) 2;
        Some (t + u)
      })"

definition udp_finish :: "u32 \<Rightarrow> u16" where
  "udp_finish t =
     (let t = fold_carry t; t = (if t = 0 then 0xFFFF else t) in hton16 (ucast (NOT t)))"

definition udp_checksum ::
  "udp_header \<Rightarrow> byte list \<Rightarrow> u16 \<Rightarrow> u32 \<Rightarrow> u32 \<Rightarrow> u16 option" where
  "udp_checksum header payload payload_len source_addr dest_addr = do {
     t1 \<leftarrow> udp_checksum_summer (mem32 source_addr) 4;
     t2 \<leftarrow> udp_checksum_summer (mem32 dest_addr) 4;
     t3 \<leftarrow> udp_checksum_summer (mem16 (hton16 (ucast IPV4_PROTOCOL_UDP))) 2;
     t4 \<leftarrow> udp_checksum_summer (mem16 (hton16 (of_nat sizeof_udp_header + payload_len))) 2;
     t5 \<leftarrow> udp_checksum_summer (udp_header_bytes header) (of_nat sizeof_udp_header);
     t6 \<leftarrow> udp_payload_sum payload payload_len;
     Some (udp_finish (t1 + t2 + t3 + t4 + t5 + t6))
   }"

definition udp_ip6_checksum ::
  "udp_header \<Rightarrow> byte list \<Rightarrow> u16 \<Rightarrow> byte list \<Rightarrow> byte list \<Rightarrow> u16 option" where
  "udp_ip6_checksum header payload payload_len source_addr dest_addr = do {
     t1 \<leftarrow> udp_checksum_summer source_addr 16;
     t2 \<leftarrow> udp_checksum_summer dest_addr 16;
     t3 \<leftarrow> udp_checksum_summer (mem32 (hton32 (of_nat sizeof_udp_header + ucast payload_len))) 4;
     t4 \<leftarrow> udp_checksum_summer (mem32 (hton32 (ucast IPV6_NEXT_UDP))) 4;
     t5 \<leftarrow> udp_checksum_summer (udp_header_bytes header) (of_nat sizeof_udp_header);
     t6 \<leftarrow> udp_payload_sum payload payload_len;
     Some (udp_finish (t1 + t2 + t3 + t4 + t5 + t6))
   }"

definition udp_check :: "byte list \<Rightarrow> (udp_header \<times> byte list) option" where
  "udp_check data =
     (if length data < sizeof_udp_header then None else
      let out_header = udp_header_of_bytes data;
          data = drop sizeof_udp_header data;
          udp_length = unat (ntoh16 (udp_length out_header)) in
      if udp_length < sizeof_udp_header then None else
      if udp_length > sizeof_udp_header + length data then None else
      Some (out_header, take (udp_length - sizeof_udp_header) data))"

section \<open>Layout of the headers\<close>

lemma ipv4_header_length [simp, wire_simps]: "length (ipv4_header_bytes h) = 20"
  by (simp add: ipv4_header_bytes_def)

lemma ipv6_header_length [simp, wire_simps]:
  "length (ip6_source_address h) = 16 \<Longrightarrow> length (ip6_destination_address h) = 16 \<Longrightarrow>
   length (ipv6_header_bytes h) = 40"
  by (simp add: ipv6_header_bytes_def)

lemma udp_header_length [simp, wire_simps]: "length (udp_header_bytes h) = 8"
  by (simp add: udp_header_bytes_def)

lemma udp_header_of_bytes_append [simp]: "udp_header_of_bytes (udp_header_bytes h @ rest) = h"
  by (simp add: udp_header_of_bytes_def udp_header_bytes_def seg_def)

lemma ipv4_header_of_bytes_append [simp]: "ipv4_header_of_bytes (ipv4_header_bytes h @ rest) = h"
  by (simp add: ipv4_header_of_bytes_def ipv4_header_bytes_def seg_def nth_append)

lemma ipv6_header_of_bytes_append [simp]:
  "length (ip6_source_address h) = 16 \<Longrightarrow> length (ip6_destination_address h) = 16 \<Longrightarrow>
   ipv6_header_of_bytes (ipv6_header_bytes h @ rest) = h"
  by (simp add: ipv6_header_of_bytes_def ipv6_header_bytes_def seg_def nth_append)

section \<open>Checksums against RFC 1071\<close>

text \<open>The reference: the sum of the 16-bit big-endian words of a byte string, an odd last byte
  padded with zero, and its ones' complement reduction.\<close>

fun sum16 :: "byte list \<Rightarrow> nat" where
  "sum16 [] = 0"
| "sum16 [a] = 256 * unat a"
| "sum16 (a # b # bs) = 256 * unat a + unat b + sum16 bs"

definition ones_sum :: "nat \<Rightarrow> nat" where
  "ones_sum s = (if s = 0 then 0 else if s mod 65535 = 0 then 65535 else s mod 65535)"

lemma ones_sum_le [simp]: "ones_sum s \<le> 65535"
  by (simp add: ones_sum_def less_imp_le_nat)

lemma ones_sum_small: "s < 65536 \<Longrightarrow> ones_sum s = s"
  by (cases "s = 65535") (auto simp: ones_sum_def)

lemma ones_sum_eq_0 [simp]: "ones_sum s = 0 \<longleftrightarrow> s = 0"
  by (simp add: ones_sum_def)

lemma ones_sum_mod: "ones_sum s mod 65535 = s mod 65535"
  by (simp add: ones_sum_def)

lemma ones_sum_cong: "(s = 0 \<longleftrightarrow> t = 0) \<Longrightarrow> s mod 65535 = t mod 65535 \<Longrightarrow> ones_sum s = ones_sum t"
  by (simp add: ones_sum_def)

lemma ones_sum_full: "0 < s \<Longrightarrow> s mod 65535 = 0 \<Longrightarrow> ones_sum s = 65535"
  by (simp add: ones_sum_def)

lemma carry_mod: "(n mod 65536 + n div 65536) mod 65535 = (n :: nat) mod 65535"
proof -
  have "n = (n mod 65536 + n div 65536) + 65535 * (n div 65536)" by simp
  then show ?thesis by (metis mod_mult_self2)
qed

lemma fold_carry_ones_sum: "unat (fold_carry t) = ones_sum (unat t)"
proof (induction t rule: fold_carry.induct)
  case (1 t)
  show ?case
  proof (cases "65536 \<le> unat t")
    case True
    then have "unat (fold_carry t) = ones_sum (unat t mod 65536 + unat t div 65536)"
      using 1 by (subst fold_carry.simps) (simp add: drop16_nonzero unat_carry_step)
    also have "\<dots> = ones_sum (unat t)"
      using True by (intro ones_sum_cong) (auto simp: carry_mod)
    finally show ?thesis .
  next
    case False
    then show ?thesis
      by (subst fold_carry.simps) (simp add: drop16_nonzero ones_sum_small)
  qed
qed

text \<open>The summing loop computes the sum of the words it reads, as long as the accumulator
  cannot wrap.\<close>

lemma unat_read_be16: "unat (badvpn_read_be16 (a # b # bs)) = 256 * unat a + unat b"
proof -
  have "badvpn_read_be16 (a # b # bs) = push_bit 8 (ucast a) + (ucast b :: u16)"
    unfolding badvpn_read_be16_def put_byte_def
    by (subst disjunctive_add) (auto simp: bits_simps)
  moreover have "unat (push_bit 8 (ucast a) :: u16) = 256 * unat a"
    using unat_byte_less [of a] by (simp add: push_bit_eq_mult unat_word_ariths)
  ultimately show ?thesis
    using unat_byte_less [of a] unat_byte_less [of b] by (simp add: unat_word_ariths)
qed

lemma sum16_bound: "sum16 bs \<le> 65535 * ((length bs + 1) div 2)"
proof (induction bs rule: sum16.induct)
  case (2 a)
  then show ?case using unat_byte_less [of a] by simp
next
  case (3 a b bs)
  then show ?case using unat_byte_less [of a] unat_byte_less [of b] by simp
qed simp

lemma sum16_append: "even (length xs) \<Longrightarrow> sum16 (xs @ ys) = sum16 xs + sum16 ys"
  by (induction xs rule: sum16.induct) auto

lemma sum16_zeros: "sum16 (0 # 0 # bs) = sum16 bs"
  by simp

lemma add_be16_Suc:
  "add_be16 data (Suc n) t = add_be16 (drop 2 data) n (t + ucast (badvpn_read_be16 data))"
proof -
  have "[0..<Suc n] = 0 # map Suc [0..<n]" by (simp add: map_Suc_upt upt_conv_Cons)
  then show ?thesis by (simp add: add_be16_def fold_map comp_def add.commute)
qed

lemma unat_add_be16:
  "2 * n \<le> length data \<Longrightarrow> unat t + 65535 * n < 2 ^ 32 \<Longrightarrow>
   unat (add_be16 data n t) = unat t + sum16 (take (2 * n) data)"
proof (induction n arbitrary: data t)
  case 0
  then show ?case by (simp add: add_be16_def)
next
  case (Suc n)
  then obtain a b bs where d: "data = a # b # bs"
    by (cases data; cases "tl data") auto
  have ab: "256 * unat a + unat b \<le> 65535"
    using unat_byte_less [of a] unat_byte_less [of b] by simp
  then have "unat (t + ucast (badvpn_read_be16 data)) = unat t + (256 * unat a + unat b)"
    using Suc.prems d by (simp add: unat_word_ariths unat_read_be16)
  moreover from this have "unat (add_be16 bs n (t + ucast (badvpn_read_be16 data))) =
      unat (t + ucast (badvpn_read_be16 data)) + sum16 (take (2 * n) bs)"
    using Suc.prems ab d by (intro Suc.IH) auto
  ultimately show ?case by (simp add: add_be16_Suc d)
qed

lemma unat_not_u16: "unat (NOT x) = 65535 - unat (x :: u16)"
proof -
  have "unat (- 1 - x) = unat (- 1 :: u16) - unat x" by (rule unat_sub) simp
  moreover have "NOT x = - 1 - x" by (simp add: not_eq_complement algebra_simps)
  ultimately show ?thesis by (simp add: unsigned_minus_1_eq_mask mask_eq_exp_minus_1)
qed

lemma unat_not_ucast: "unat (ucast (NOT t) :: u16) = 65535 - unat t" if "unat (t :: u32) \<le> 65535"
proof -
  have "ucast (NOT t) = NOT (ucast t :: u16)"
    by (rule bit_word_eqI) (simp add: bits_simps)
  moreover have "unat (ucast t :: u16) = unat t" using that by (simp add: unat_ucast_small)
  ultimately show ?thesis by (simp add: unat_not_u16)
qed

lemma checksum_complement:
  "unat (ntoh16 (hton16 (ucast (NOT (fold_carry t))))) = 65535 - ones_sum (unat t)"
  by (simp add: unat_not_ucast fold_carry_ones_sum)

lemma ipv4_checksum_rfc1071:
  assumes "even (unat extra_len)" "unat extra_len \<le> length extra"
  obtains c where "ipv4_checksum h extra extra_len = Some c"
    "unat (ntoh16 c) = 65535 - ones_sum (sum16 (ipv4_header_bytes h @ take (unat extra_len) extra))"
proof -
  let ?n = "unat extra_len div 2"
  have n: "2 * ?n = unat extra_len" using assms(1) by simp
  let ?t = "add_be16 extra ?n (add_be16 (ipv4_header_bytes h) 10 0)"
  have h: "unat (add_be16 (ipv4_header_bytes h) 10 0) = sum16 (ipv4_header_bytes h)"
    by (simp add: unat_add_be16)
  have "sum16 (ipv4_header_bytes h) \<le> 655350" using sum16_bound [of "ipv4_header_bytes h"] by simp
  moreover have "?n < 32768" using unat_u16_less [of extra_len] by linarith
  ultimately have "unat ?t = sum16 (ipv4_header_bytes h) + sum16 (take (unat extra_len) extra)"
    using assms n h by (subst unat_add_be16) auto
  then have t: "unat ?t = sum16 (ipv4_header_bytes h @ take (unat extra_len) extra)"
    by (simp add: sum16_append)
  show ?thesis
  proof (rule that)
    show "ipv4_checksum h extra extra_len = Some (hton16 (ucast (NOT (fold_carry ?t))))"
      using assms(1) by (simp add: ipv4_checksum_def Let_def even_iff_mod_2_eq_zero)
  qed (simp only: checksum_complement t)
qed

text \<open>The checksum field's place in the sum.\<close>

lemma sum16_mem16: "sum16 (mem16 x @ bs) = unat (ntoh16 x) + sum16 bs"
proof -
  obtain a b where ab: "mem16 x = [a, b]" by (simp add: mem16_def)
  have "ntoh16 x = badvpn_read_be16 (mem16 x)" using ntoh_be(1) [of "mem16 x"] by simp
  then show ?thesis using ab by (simp add: unat_read_be16)
qed

lemma sum16_ipv4_header:
  "sum16 (ipv4_header_bytes h) =
   sum16 (ipv4_header_bytes (h\<lparr>ip4_checksum := hton16 0\<rparr>)) + unat (ntoh16 (ip4_checksum h))"
  by (simp add: ipv4_header_bytes_def sum16_mem16 del: append_assoc
      flip: append_assoc) (simp add: sum16_mem16 ntoh16_def)

text \<open>The checksum of a datagram's header and options makes their ones' complement sum all
  ones, which is how the other end verifies it. The code compares instead with the checksum it
  would have written, and so also refuses the all-ones encoding of zero.\<close>

lemma ones_sum_complement:
  assumes "0 < s" "c \<le> 65535"
  shows "ones_sum (s + c) = 65535 \<and> c \<noteq> 65535 \<longleftrightarrow> c = 65535 - ones_sum s"
proof -
  have o: "0 < ones_sum s" "ones_sum s \<le> 65535" using assms(1) by (simp_all add: neq0_conv [symmetric] del: neq0_conv)
  have "ones_sum (s + c) = 65535 \<longleftrightarrow> (s + c) mod 65535 = 0"
    using assms(1) by (auto simp: ones_sum_def)
  also have "\<dots> \<longleftrightarrow> (ones_sum s + c) mod 65535 = 0"
    by (metis mod_add_left_eq ones_sum_mod)
  finally have "ones_sum (s + c) = 65535 \<longleftrightarrow> 65535 dvd ones_sum s + c" by (simp add: dvd_eq_mod_eq_0)
  moreover have "65535 dvd ones_sum s + c \<and> c \<noteq> 65535 \<longleftrightarrow> ones_sum s + c = 65535"
  proof
    assume d: "65535 dvd ones_sum s + c \<and> c \<noteq> 65535"
    then obtain k where k: "ones_sum s + c = 65535 * k" by (auto elim: dvdE)
    have "ones_sum s + c < 65535 * 2" using o assms(2) d by linarith
    with k have "k < 2" by simp
    moreover have "0 < k" using k assms(1) by (cases k) auto
    ultimately show "ones_sum s + c = 65535" using k by (simp add: less_2_cases_iff)
  next
    assume e: "ones_sum s + c = 65535"
    then show "65535 dvd ones_sum s + c \<and> c \<noteq> 65535" using o(1) by auto
  qed
  moreover have "ones_sum s + c = 65535 \<longleftrightarrow> c = 65535 - ones_sum s" using o(2) by auto
  ultimately show ?thesis by blast
qed

lemma IPV4_GET_IHL_le: "unat (IPV4_GET_IHL h) \<le> 15"
  using word_and_le1 [of "ip4_version4_ihl4 h" "0x0F"]
  by (simp add: IPV4_GET_IHL_def word_le_nat_alt)

text \<open>What \<open>ipv4_check\<close> promises: the conditions under which a datagram is accepted, in
  terms of its bytes, and what is handed on.\<close>

definition ipv4_header_len :: "byte list \<Rightarrow> nat" where
  "ipv4_header_len data = 4 * unat (IPV4_GET_IHL (ipv4_header_of_bytes data))"

definition ipv4_total_len :: "byte list \<Rightarrow> nat" where
  "ipv4_total_len data = unat (badvpn_read_be16 (drop 2 data))"

definition ipv4_valid :: "byte list \<Rightarrow> bool" where
  "ipv4_valid data \<longleftrightarrow>
     20 \<le> length data \<and> IPV4_GET_VERSION (ipv4_header_of_bytes data) = 4 \<and>
     20 \<le> ipv4_header_len data \<and> ipv4_header_len data \<le> ipv4_total_len data \<and>
     ipv4_total_len data \<le> length data \<and>
     ones_sum (sum16 (take (ipv4_header_len data) data)) = 65535 \<and>
     ip4_checksum (ipv4_header_of_bytes data) \<noteq> 0xFFFF"

lemma ipv4_bytes_of_bytes:
  "20 \<le> length data \<Longrightarrow> ipv4_header_bytes (ipv4_header_of_bytes data) = take 20 data"
proof -
  assume l: "20 \<le> length data"
  then have "data \<noteq> []" by auto
  have "ipv4_header_bytes (ipv4_header_of_bytes data) =
    seg 0 1 data @ seg 1 1 data @ seg 2 2 data @ seg 4 2 data @ seg 6 2 data @
    seg 8 1 data @ seg 9 1 data @ seg 10 2 data @ seg 12 4 data @ seg 16 4 data @ []"
    using l \<open>data \<noteq> []\<close>
    by (simp add: ipv4_header_bytes_def ipv4_header_of_bytes_def seg_one del: One_nat_def seg_0)
  also have "\<dots> = take 20 data" by (simp add: seg_join_append seg_join del: seg_0) simp
  finally show ?thesis .
qed

lemma ipv4_total_len_eq:
  "20 \<le> length data \<Longrightarrow>
   unat (ntoh16 (ip4_total_length (ipv4_header_of_bytes data))) = ipv4_total_len data"
  by (simp add: ipv4_header_of_bytes_def ipv4_total_len_def ntoh_be seg_def
      be16.dec_prefix [of "drop 2 data"])

lemma ntoh16_full: "unat (ntoh16 x) = 65535 \<longleftrightarrow> x = 0xFFFF"
proof -
  have "hton16 0xFFFF = 0xFFFF"
    by (simp add: hton16_def badvpn_reverse16_def mem16_def unmem16_def byte_at_def put_byte_def)
  then have "x = 0xFFFF \<longleftrightarrow> ntoh16 x = 0xFFFF" by (metis ntoh_hton(1,4))
  then show ?thesis by (simp add: word_unat_eq_iff)
qed

lemma ipv4_check_accepts:
  "ipv4_check data =
     Some (if ipv4_valid data
           then Some (ipv4_header_of_bytes data,
                      seg (ipv4_header_len data) (ipv4_total_len data - ipv4_header_len data) data)
           else None)"
proof (cases "20 \<le> length data \<and> IPV4_GET_VERSION (ipv4_header_of_bytes data) = 4 \<and>
     20 \<le> ipv4_header_len data \<and> ipv4_header_len data \<le> ipv4_total_len data \<and>
     ipv4_total_len data \<le> length data")
  case True
  let ?h = "ipv4_header_of_bytes data" and ?l = "ipv4_header_len data"
  let ?z = "?h\<lparr>ip4_checksum := hton16 0\<rparr>" and ?c = "unat (ntoh16 (ip4_checksum ?h))"
  have l60: "?l \<le> 60" using IPV4_GET_IHL_le [of ?h] by (simp add: ipv4_header_len_def)
  have even: "even (?l - 20)" using True by (simp add: ipv4_header_len_def)
  have e: "unat (of_nat (?l - 20) :: u16) = ?l - 20"
    using l60 by (intro unat_of_nat_small) simp
  obtain c where c: "ipv4_checksum ?z (drop 20 data) (of_nat (?l - 20)) = Some c"
    "unat (ntoh16 c) = 65535 - ones_sum (sum16 (ipv4_header_bytes ?z @ seg 20 (?l - 20) data))"
    by (rule ipv4_checksum_rfc1071 [of "of_nat (?l - 20)" "drop 20 data" ?z, unfolded e])
      (use even True in \<open>auto simp: seg_def\<close>)
  have "take ?l data = ipv4_header_bytes ?h @ seg 20 (?l - 20) data"
    using True by (simp add: ipv4_bytes_of_bytes seg_def flip: take_add)
  then have sum: "sum16 (take ?l data) = sum16 (ipv4_header_bytes ?z @ seg 20 (?l - 20) data) + ?c"
    using sum16_ipv4_header [of ?h] by (simp add: sum16_append)
  have pos: "0 < sum16 (ipv4_header_bytes ?z)"
    using True by (auto simp: ipv4_header_bytes_def IPV4_GET_VERSION_def unat_eq_zero)
  have "ip4_checksum ?h = c \<longleftrightarrow> ?c = unat (ntoh16 c)"
    by (metis ntoh_hton(4) unsigned_word_eqI)
  also have "\<dots> \<longleftrightarrow> ones_sum (sum16 (take ?l data)) = 65535 \<and> ?c \<noteq> 65535"
    unfolding c(2) sum using pos unat_u16_less [of "ntoh16 (ip4_checksum ?h)"]
    by (intro ones_sum_complement [symmetric]) (auto simp: sum16_append)
  also have "?c \<noteq> 65535 \<longleftrightarrow> ip4_checksum ?h \<noteq> 0xFFFF"
    by (simp add: ntoh16_full)
  finally show ?thesis
    using True c(1) by (auto simp: ipv4_check_def ipv4_valid_def Let_def ipv4_total_len_eq
        ipv4_header_len_def mult.commute)
next
  case False
  then show ?thesis
    by (auto simp: ipv4_check_def ipv4_valid_def Let_def ipv4_total_len_eq ipv4_header_len_def
        mult.commute)
qed

section \<open>UDP checksums\<close>

lemma udp_checksum_summer_eq:
  assumes "unat len \<le> length data" "even (unat len)"
  obtains t where "udp_checksum_summer data len = Some t" "unat t = sum16 (take (unat len) data)"
proof -
  let ?n = "unat len div 2"
  have "unat (add_be16 data ?n 0) = sum16 (take (2 * ?n) data)"
    using assms unat_u16_less [of len] by (subst unat_add_be16) auto
  then show ?thesis
    using that assms(2) by (simp add: udp_checksum_summer_def even_iff_mod_2_eq_zero)
qed

lemma sum16_odd_last:
  "odd (length bs) \<Longrightarrow> sum16 bs = sum16 (butlast bs) + 256 * unat (last bs)"
  by (induction bs rule: sum16.induct) auto

lemma mem16_high_byte: "mem16 (hton16 (push_bit 8 (ucast b))) = [b, 0]"
proof -
  have "mem16 (hton16 (push_bit 8 (ucast b))) = badvpn_write_be16 (put_byte 8 b)"
    by (simp add: hton_be put_byte_def)
  then show ?thesis by (simp add: badvpn_write_be16_def)
qed

lemma udp_payload_sum_eq:
  assumes "unat len \<le> length payload"
  obtains t where "udp_payload_sum payload len = Some t"
    "unat t = sum16 (take (unat len) payload)"
proof (cases "even (unat len)")
  case True
  then show ?thesis
    using that udp_checksum_summer_eq [OF assms] by (metis even_iff_mod_2_eq_zero udp_payload_sum_def)
next
  case False
  then have "len \<noteq> 0" by auto
  then have l1: "unat (len - 1) = unat len - 1" "0 < unat len"
    by (auto simp: unat_minus_one unat_gt_0)
  obtain t where t: "udp_checksum_summer payload (len - 1) = Some t"
      "unat t = sum16 (take (unat len - 1) payload)"
    by (rule udp_checksum_summer_eq [of "len - 1" payload]) (use False assms l1 in auto)
  let ?x = "hton16 (push_bit 8 (ucast (payload ! unat (len - 1))))"
  obtain u where u: "udp_checksum_summer (mem16 ?x) 2 = Some u" "unat u = sum16 (mem16 ?x)"
    by (rule udp_checksum_summer_eq [of 2 "mem16 ?x"]) auto
  have "take (unat len) payload \<noteq> []" using assms l1 by auto
  then have s: "sum16 (take (unat len) payload) = unat t + unat u"
    using sum16_odd_last [of "take (unat len) payload"] False assms l1 t(2) u(2)
    by (simp add: mem16_high_byte butlast_take last_conv_nth)
  have "sum16 (take (unat len) payload) \<le> 65535 * 32768"
    using sum16_bound [of "take (unat len) payload"] unat_u16_less [of len] assms by simp
  with s have "unat (t + u) = unat t + unat u" by (simp add: unat_word_ariths)
  then show ?thesis
    using that s t(1) u(1) False by (simp add: udp_payload_sum_def Let_def even_iff_mod_2_eq_zero)
qed

text \<open>RFC 768's pseudo header and RFC 8200's.\<close>

definition udp_pseudo_header :: "u32 \<Rightarrow> u32 \<Rightarrow> u16 \<Rightarrow> byte list" where
  "udp_pseudo_header source_addr dest_addr payload_len =
     mem32 source_addr @ mem32 dest_addr @ [0, 17] @ badvpn_write_be16 (8 + payload_len)"

definition udp_pseudo_header6 :: "byte list \<Rightarrow> byte list \<Rightarrow> u16 \<Rightarrow> byte list" where
  "udp_pseudo_header6 source_addr dest_addr payload_len =
     source_addr @ dest_addr @ badvpn_write_be32 (8 + ucast payload_len) @ [0, 0, 0, 17]"

lemma summer_whole:
  assumes "length data = unat len" "even (unat len)"
  obtains t where "udp_checksum_summer data len = Some t" "unat t = sum16 data"
  using udp_checksum_summer_eq [of len data] assms by auto

lemma udp_finish_eq:
  assumes "0 < unat t"
  shows "unat (ntoh16 (udp_finish t)) = 65535 - ones_sum (unat t)"
proof -
  have "unat (fold_carry t) \<noteq> 0" using assms by (simp add: fold_carry_ones_sum)
  then have "fold_carry t \<noteq> 0" by auto
  then show ?thesis by (simp add: udp_finish_def Let_def unat_not_ucast fold_carry_ones_sum)
qed

lemma udp_finish_sum:
  assumes "unat t1 + unat t2 + unat t3 + unat t4 + unat t5 + unat t6 = sum16 bs"
    "length bs \<le> 65600" "0 < sum16 bs"
  shows "unat (ntoh16 (udp_finish (t1 + t2 + t3 + t4 + t5 + t6))) = 65535 - ones_sum (sum16 bs)"
proof -
  have "sum16 bs < 4294967296" using assms(2) sum16_bound [of bs] by linarith
  then have "unat (t1 + t2 + t3 + t4 + t5 + t6) = sum16 bs"
    using assms(1) by (simp add: unat_word_ariths)
  then show ?thesis using assms(3) by (simp add: udp_finish_eq)
qed

lemma udp_checksum_rfc768:
  assumes "unat len \<le> length payload"
  obtains c where "udp_checksum h payload len src dst = Some c"
    "unat (ntoh16 c) = 65535 - ones_sum (sum16
       (udp_pseudo_header src dst len @ udp_header_bytes h @ take (unat len) payload))"
proof -
  let ?p = "mem16 (hton16 (ucast IPV4_PROTOCOL_UDP))" and ?l = "mem16 (hton16 (8 + len))"
  have p: "?p = [0, 17]"
    by (simp add: hton_be IPV4_PROTOCOL_UDP_def badvpn_write_be16_def byte_at_def)
  obtain t1 where t1: "udp_checksum_summer (mem32 src) 4 = Some t1" "unat t1 = sum16 (mem32 src)"
    by (rule summer_whole) auto
  obtain t2 where t2: "udp_checksum_summer (mem32 dst) 4 = Some t2" "unat t2 = sum16 (mem32 dst)"
    by (rule summer_whole) auto
  obtain t3 where t3: "udp_checksum_summer ?p 2 = Some t3" "unat t3 = sum16 ?p"
    by (rule summer_whole) auto
  obtain t4 where t4: "udp_checksum_summer ?l 2 = Some t4" "unat t4 = sum16 ?l"
    by (rule summer_whole) auto
  obtain t5 where t5: "udp_checksum_summer (udp_header_bytes h) 8 = Some t5"
    "unat t5 = sum16 (udp_header_bytes h)"
    by (rule summer_whole) auto
  obtain t6 where t6: "udp_payload_sum payload len = Some t6"
    "unat t6 = sum16 (take (unat len) payload)"
    using udp_payload_sum_eq [OF assms] by blast
  let ?bs = "udp_pseudo_header src dst len @ udp_header_bytes h @ take (unat len) payload"
  have sum: "unat t1 + unat t2 + unat t3 + unat t4 + unat t5 + unat t6 = sum16 ?bs"
    using t1 t2 t3 t4 t5 t6 p by (simp add: udp_pseudo_header_def sum16_append hton_be)
  moreover have "length ?bs \<le> 65600"
    using unat_u16_less [of len] by (simp add: udp_pseudo_header_def)
  moreover have "0 < sum16 ?bs" using sum t3 p by auto
  ultimately have "unat (ntoh16 (udp_finish (t1 + t2 + t3 + t4 + t5 + t6))) = 65535 - ones_sum (sum16 ?bs)"
    by (rule udp_finish_sum)
  moreover have "udp_checksum h payload len src dst = Some (udp_finish (t1 + t2 + t3 + t4 + t5 + t6))"
    using t1 t2 t3 t4 t5 t6 by (simp add: udp_checksum_def)
  ultimately show ?thesis using that by blast
qed

lemma udp_ip6_checksum_rfc8200:
  assumes "unat len \<le> length payload" "length src = 16" "length dst = 16"
  obtains c where "udp_ip6_checksum h payload len src dst = Some c"
    "unat (ntoh16 c) = 65535 - ones_sum (sum16
       (udp_pseudo_header6 src dst len @ udp_header_bytes h @ take (unat len) payload))"
proof -
  let ?p = "mem32 (hton32 (ucast IPV6_NEXT_UDP))" and ?l = "mem32 (hton32 (8 + ucast len))"
  have p: "?p = [0, 0, 0, 17]"
    by (simp add: hton_be IPV6_NEXT_UDP_def badvpn_write_be32_def byte_at_def)
  obtain t1 where t1: "udp_checksum_summer src 16 = Some t1" "unat t1 = sum16 src"
    by (rule summer_whole) (auto simp: assms)
  obtain t2 where t2: "udp_checksum_summer dst 16 = Some t2" "unat t2 = sum16 dst"
    by (rule summer_whole) (auto simp: assms)
  obtain t3 where t3: "udp_checksum_summer ?l 4 = Some t3" "unat t3 = sum16 ?l"
    by (rule summer_whole) auto
  obtain t4 where t4: "udp_checksum_summer ?p 4 = Some t4" "unat t4 = sum16 ?p"
    by (rule summer_whole) auto
  obtain t5 where t5: "udp_checksum_summer (udp_header_bytes h) 8 = Some t5"
    "unat t5 = sum16 (udp_header_bytes h)"
    by (rule summer_whole) auto
  obtain t6 where t6: "udp_payload_sum payload len = Some t6"
    "unat t6 = sum16 (take (unat len) payload)"
    using udp_payload_sum_eq [OF assms(1)] by blast
  let ?bs = "udp_pseudo_header6 src dst len @ udp_header_bytes h @ take (unat len) payload"
  have sum: "unat t1 + unat t2 + unat t3 + unat t4 + unat t5 + unat t6 = sum16 ?bs"
    using t1 t2 t3 t4 t5 t6 p assms
    by (simp add: udp_pseudo_header6_def sum16_append hton_be)
  moreover have "length ?bs \<le> 65600"
    using unat_u16_less [of len] assms by (simp add: udp_pseudo_header6_def)
  moreover have "0 < sum16 ?bs" using sum t4 p by auto
  ultimately have "unat (ntoh16 (udp_finish (t1 + t2 + t3 + t4 + t5 + t6))) = 65535 - ones_sum (sum16 ?bs)"
    by (rule udp_finish_sum)
  moreover have "udp_ip6_checksum h payload len src dst = Some (udp_finish (t1 + t2 + t3 + t4 + t5 + t6))"
    using t1 t2 t3 t4 t5 t6 by (simp add: udp_ip6_checksum_def)
  ultimately show ?thesis using that by blast
qed

lemma ntoh16_zero: "unat (ntoh16 x) = 0 \<longleftrightarrow> x = 0"
  by (metis hton16_0 ntoh16_def ntoh_hton(1) unat_eq_zero)

lemma pseudo_header_pos: "0 < sum16 (udp_pseudo_header src dst len @ rest)"
  by (simp add: udp_pseudo_header_def sum16_append)

section \<open>Properties\<close>

text \<open>C10. \<open>ipv4_check\<close> never fails an assertion, and accepts exactly the datagrams that
  hold a complete version 4 header and as many bytes as its total length says, whose header
  (options included) sums to all ones in ones' complement arithmetic and whose checksum field is
  not the all-ones encoding of zero; it then returns the header and the bytes between the header
  and the total length.\<close>
theorem ipv4_check_exact:
  "ipv4_check data =
     Some (if ipv4_valid data
           then Some (ipv4_header_of_bytes data,
                      seg (ipv4_header_len data) (ipv4_total_len data - ipv4_header_len data) data)
           else None)"
  by (rule ipv4_check_accepts)

text \<open>C12. Both UDP checksum routines are total and compute the Internet checksum: the value in
  the header is the ones' complement of the ones' complement sum of the pseudo header, the UDP
  header and the payload, an odd last byte padded with zero. No accumulator wraps for any 16-bit
  payload length.\<close>
theorem udp_checksums_rfc:
  assumes "unat len \<le> length payload" "length src6 = 16" "length dst6 = 16"
  shows "(\<exists>c. udp_checksum h payload len src dst = Some c \<and>
            unat (ntoh16 c) = 65535 - ones_sum (sum16
              (udp_pseudo_header src dst len @ udp_header_bytes h @ take (unat len) payload))) \<and>
         (\<exists>c. udp_ip6_checksum h payload len src6 dst6 = Some c \<and>
            unat (ntoh16 c) = 65535 - ones_sum (sum16
              (udp_pseudo_header6 src6 dst6 len @ udp_header_bytes h @ take (unat len) payload)))"
proof -
  obtain c where "udp_checksum h payload len src dst = Some c"
      "unat (ntoh16 c) = 65535 - ones_sum (sum16
         (udp_pseudo_header src dst len @ udp_header_bytes h @ take (unat len) payload))"
    using udp_checksum_rfc768 [OF assms(1)] .
  moreover obtain d where "udp_ip6_checksum h payload len src6 dst6 = Some d"
      "unat (ntoh16 d) = 65535 - ones_sum (sum16
         (udp_pseudo_header6 src6 dst6 len @ udp_header_bytes h @ take (unat len) payload))"
    using udp_ip6_checksum_rfc8200 [OF assms] .
  ultimately show ?thesis by blast
qed

theorem udp_checksums_rfc_witness:
  "(\<exists>c. udp_checksum \<lparr>udp_source_port = 0x3500, udp_dest_port = 0x901F, udp_length = 0x0B00,
           udp_checksum_field = 0\<rparr> [1, 2, 3] 3 0x0100007F 0x0200000A = Some c \<and>
      unat (ntoh16 c) = 21262) \<and>
   (\<exists>c. udp_ip6_checksum \<lparr>udp_source_port = 0x3500, udp_dest_port = 0x901F, udp_length = 0x0B00,
           udp_checksum_field = 0\<rparr> [1, 2, 3] 3 [1, 1, 1, 1, 1, 1, 1, 1, 1, 1, 1, 1, 1, 1, 1, 1] [2, 2, 2, 2, 2, 2, 2, 2, 2, 2, 2, 2, 2, 2, 2, 2] = Some c \<and>
      unat (ntoh16 c) = 50169)"
  using udp_checksums_rfc [of 3 "[1, 2, 3]" "[1, 1, 1, 1, 1, 1, 1, 1, 1, 1, 1, 1, 1, 1, 1, 1]" "[2, 2, 2, 2, 2, 2, 2, 2, 2, 2, 2, 2, 2, 2, 2, 2]"
      "\<lparr>udp_source_port = 0x3500, udp_dest_port = 0x901F, udp_length = 0x0B00,
        udp_checksum_field = 0\<rparr>" "0x0100007F" "0x0200000A"]
  by (simp add: udp_pseudo_header_def udp_pseudo_header6_def udp_header_bytes_def mem16_def mem32_def
      badvpn_write_be16_def badvpn_write_be32_def byte_at_def ones_sum_def)

text \<open>C13. The zero case of \<open>udp_checksum\<close>. RFC 768 sends a checksum that comes out as
  zero as all ones, because zero means that no checksum was made. The code tests the sum before
  the complement, where it is never zero, so it never produces all ones, and it produces zero for
  every datagram whose sum is all ones.\<close>
theorem udp_checksum_zero_case:
  assumes "unat len \<le> length payload"
  shows "\<exists>c. udp_checksum h payload len src dst = Some c \<and> c \<noteq> 0xFFFF \<and>
    (c = 0 \<longleftrightarrow> ones_sum (sum16
       (udp_pseudo_header src dst len @ udp_header_bytes h @ take (unat len) payload)) = 65535)"
proof -
  let ?S = "sum16 (udp_pseudo_header src dst len @ udp_header_bytes h @ take (unat len) payload)"
  obtain c where c: "udp_checksum h payload len src dst = Some c"
      "unat (ntoh16 c) = 65535 - ones_sum ?S"
    using udp_checksum_rfc768 [OF assms] .
  have "ones_sum ?S \<noteq> 0" using pseudo_header_pos by simp
  then have "unat (ntoh16 c) \<noteq> 65535" "unat (ntoh16 c) = 0 \<longleftrightarrow> ones_sum ?S = 65535"
    using c(2) ones_sum_le [of ?S] by linarith+
  then show ?thesis using c(1) by (simp add: ntoh16_full ntoh16_zero)
qed

theorem udp_checksum_zero_case_witness:
  "udp_checksum \<lparr>udp_source_port = 0xDEFF, udp_dest_port = 0, udp_length = 0x0800,
     udp_checksum_field = 0\<rparr> [] 0 0 0 = Some 0"
  using udp_checksum_zero_case [of 0 "[]" "\<lparr>udp_source_port = 0xDEFF, udp_dest_port = 0,
      udp_length = 0x0800, udp_checksum_field = 0\<rparr>" 0 0]
  by (auto simp: udp_pseudo_header_def udp_header_bytes_def mem16_def mem32_def
      badvpn_write_be16_def byte_at_def ones_sum_def)

end
