(* ===== verification/Flow_Iface.thy ===== *)
theory Flow_Iface
  imports Prelude
begin

text \<open>
  Jobs and the packet passing interface: base/BPending.c and flow/PacketPassInterface.h, .c.
  A pending group holds the jobs that are set, the one set last on top; the list node's mark
  (\<open>ListIsRemoved\<close>) and the debug flag \<open>pending\<close> are kept apart from the list, as in the
  code, and the invariant ties the three together. The interface is a machine over a group of
  its three jobs; the jobs may run in any order the group allows.
\<close>

section \<open>BPending\<close>

record 'j pending_group =
  pg_jobs :: "'j list"
  pg_removed :: "'j \<Rightarrow> bool"
  pg_pending :: "'j \<Rightarrow> bool"

definition BPendingGroup_Init :: "'j pending_group" where
  "BPendingGroup_Init = \<lparr>pg_jobs = [], pg_removed = (\<lambda>_. True), pg_pending = (\<lambda>_. False)\<rparr>"

definition BPendingGroup_Free :: "'j pending_group \<Rightarrow> unit option" where
  "BPendingGroup_Free g = assert_that (pg_jobs g = [])"

definition BPendingGroup_HasJobs :: "'j pending_group \<Rightarrow> bool" where
  "BPendingGroup_HasJobs g = (\<not> pg_jobs g = [])"

text \<open>Executing a job gives the job whose handler is called, in the group it is called in.\<close>

definition BPendingGroup_ExecuteJob :: "'j pending_group \<Rightarrow> ('j \<times> 'j pending_group) option" where
  "BPendingGroup_ExecuteJob g = do {
     assert_that (pg_jobs g \<noteq> []);
     let p = hd (pg_jobs g);
     assert_that (\<not> pg_removed g p);
     assert_that (pg_pending g p);
     Some (p, g\<lparr>pg_jobs := tl (pg_jobs g), pg_removed := (pg_removed g)(p := True),
                pg_pending := (pg_pending g)(p := False)\<rparr>)
   }"

definition BPendingGroup_PeekJob :: "'j pending_group \<Rightarrow> 'j option" where
  "BPendingGroup_PeekJob g = (case pg_jobs g of [] \<Rightarrow> None | p # _ \<Rightarrow> Some p)"

definition BSmallPending_Init :: "'j \<Rightarrow> 'j pending_group \<Rightarrow> 'j pending_group" where
  "BSmallPending_Init p g =
     g\<lparr>pg_removed := (pg_removed g)(p := True), pg_pending := (pg_pending g)(p := False)\<rparr>"

definition BSmallPending_Free :: "'j \<Rightarrow> 'j pending_group \<Rightarrow> 'j pending_group option" where
  "BSmallPending_Free p g = do {
     assert_that (pg_pending g p = (\<not> pg_removed g p));
     Some (if \<not> pg_removed g p then g\<lparr>pg_jobs := remove1 p (pg_jobs g)\<rparr> else g)
   }"

definition BSmallPending_Set :: "'j \<Rightarrow> 'j pending_group \<Rightarrow> 'j pending_group option" where
  "BSmallPending_Set p g = do {
     assert_that (pg_pending g p = (\<not> pg_removed g p));
     let g = (if \<not> pg_removed g p then g\<lparr>pg_jobs := remove1 p (pg_jobs g)\<rparr> else g);
     Some (g\<lparr>pg_jobs := p # pg_jobs g, pg_removed := (pg_removed g)(p := False),
             pg_pending := (pg_pending g)(p := True)\<rparr>)
   }"

definition BSmallPending_Unset :: "'j \<Rightarrow> 'j pending_group \<Rightarrow> 'j pending_group option" where
  "BSmallPending_Unset p g = do {
     assert_that (pg_pending g p = (\<not> pg_removed g p));
     Some (if \<not> pg_removed g p
           then g\<lparr>pg_jobs := remove1 p (pg_jobs g), pg_removed := (pg_removed g)(p := True),
                  pg_pending := (pg_pending g)(p := False)\<rparr>
           else g)
   }"

definition BSmallPending_IsSet :: "'j \<Rightarrow> 'j pending_group \<Rightarrow> bool option" where
  "BSmallPending_IsSet p g = do {
     assert_that (pg_pending g p = (\<not> pg_removed g p));
     Some (\<not> pg_removed g p)
   }"

definition BPending_Set :: "'j \<Rightarrow> 'j pending_group \<Rightarrow> 'j pending_group option" where
  "BPending_Set p g = BSmallPending_Set p g"

definition BPending_Unset :: "'j \<Rightarrow> 'j pending_group \<Rightarrow> 'j pending_group option" where
  "BPending_Unset p g = BSmallPending_Unset p g"

definition BPending_Free :: "'j \<Rightarrow> 'j pending_group \<Rightarrow> 'j pending_group option" where
  "BPending_Free p g = BSmallPending_Free p g"

definition BPending_IsSet :: "'j \<Rightarrow> 'j pending_group \<Rightarrow> bool option" where
  "BPending_IsSet p g = BSmallPending_IsSet p g"

subsection \<open>The job list\<close>

definition pg_inv :: "'j pending_group \<Rightarrow> bool" where
  "pg_inv g \<longleftrightarrow> distinct (pg_jobs g) \<and>
     (\<forall>p. pg_pending g p = (p \<in> set (pg_jobs g)) \<and> pg_removed g p = (p \<notin> set (pg_jobs g)))"

lemma pg_inv_Init [simp]: "pg_inv BPendingGroup_Init"
  by (simp add: pg_inv_def BPendingGroup_Init_def)

text \<open>The contract the flow components rely on: the operations of a job never fail and change
  the job list as documented in BPending.h.\<close>

locale job_list =
  fixes inv :: "'g \<Rightarrow> bool"
    and jobs :: "'g \<Rightarrow> 'j list"
    and set_job :: "'j \<Rightarrow> 'g \<Rightarrow> 'g option"
    and unset_job :: "'j \<Rightarrow> 'g \<Rightarrow> 'g option"
    and execute :: "'g \<Rightarrow> ('j \<times> 'g) option"
  assumes jobs_distinct: "inv g \<Longrightarrow> distinct (jobs g)"
    and set_ok: "inv g \<Longrightarrow> \<exists>g'. set_job p g = Some g' \<and> inv g' \<and> jobs g' = p # filter (\<lambda>q. q \<noteq> p) (jobs g)"
    and unset_ok: "inv g \<Longrightarrow> \<exists>g'. unset_job p g = Some g' \<and> inv g' \<and> jobs g' = filter (\<lambda>q. q \<noteq> p) (jobs g)"
    and execute_ok: "inv g \<Longrightarrow> jobs g = p # ps \<Longrightarrow> \<exists>g'. execute g = Some (p, g') \<and> inv g' \<and> jobs g' = ps"
begin

text \<open>A job that is set is the next one executed, and a job that is unset is not executed until it
  is set again.\<close>

lemma set_then_execute:
  "inv g \<Longrightarrow> \<exists>g1 g2. set_job p g = Some g1 \<and> execute g1 = Some (p, g2) \<and> inv g2 \<and>
     jobs g2 = filter (\<lambda>q. q \<noteq> p) (jobs g)"
  using set_ok [of g p] execute_ok by metis

lemma set_twice:
  "inv g \<Longrightarrow> set_job p g = Some g1 \<Longrightarrow> set_job p g1 = Some g2 \<Longrightarrow> jobs g2 = jobs g1"
  using set_ok [of g p] set_ok [of g1 p] by (auto simp: filter_empty_conv)

lemma unset_not_executed:
  "inv g \<Longrightarrow> unset_job p g = Some g1 \<Longrightarrow> execute g1 = Some (q, g2) \<Longrightarrow> jobs g1 \<noteq> [] \<Longrightarrow> q \<noteq> p"
proof -
  assume g: "inv g" "unset_job p g = Some g1" "execute g1 = Some (q, g2)" "jobs g1 \<noteq> []"
  then have g1: "inv g1" "jobs g1 = filter (\<lambda>q. q \<noteq> p) (jobs g)" using unset_ok [of g p] by auto
  obtain a as where a: "jobs g1 = a # as" using g(4) by (cases "jobs g1") auto
  then have "q = a" using execute_ok [OF g1(1) a] g(3) by auto
  moreover have "a \<in> set (filter (\<lambda>q. q \<noteq> p) (jobs g))" using a g1(2) by (metis list.set_intros(1))
  ultimately show "q \<noteq> p" by auto
qed

end

lemma remove1_filter: "distinct xs \<Longrightarrow> remove1 x xs = filter (\<lambda>y. y \<noteq> x) xs"
proof (induction xs)
  case (Cons a xs)
  then show ?case by (cases "a = x") (auto intro: filter_True [symmetric])
qed simp

lemma filter_not_in: "x \<notin> set xs \<Longrightarrow> filter (\<lambda>y. y \<noteq> x) xs = xs"
  by (rule filter_True) auto

interpretation pending: job_list pg_inv pg_jobs BPending_Set BPending_Unset BPendingGroup_ExecuteJob
proof unfold_locales
  fix g :: "'a pending_group" and p :: 'a
  assume i: "pg_inv g"
  then show "distinct (pg_jobs g)" by (simp add: pg_inv_def)
  show "\<exists>g'. BPending_Set p g = Some g' \<and> pg_inv g' \<and> pg_jobs g' = p # filter (\<lambda>q. q \<noteq> p) (pg_jobs g)"
    using i by (auto simp: BPending_Set_def BSmallPending_Set_def pg_inv_def remove1_filter filter_not_in)
  show "\<exists>g'. BPending_Unset p g = Some g' \<and> pg_inv g' \<and> pg_jobs g' = filter (\<lambda>q. q \<noteq> p) (pg_jobs g)"
    using i by (auto simp: BPending_Unset_def BSmallPending_Unset_def pg_inv_def remove1_filter filter_not_in)
next
  fix g :: "'a pending_group" and p :: 'a and ps
  assume "pg_inv g" "pg_jobs g = p # ps"
  then show "\<exists>g'. BPendingGroup_ExecuteJob g = Some (p, g') \<and> pg_inv g' \<and> pg_jobs g' = ps"
    by (auto simp: BPendingGroup_ExecuteJob_def pg_inv_def)
qed

section \<open>PacketPassInterface\<close>

datatype ppi_state =
  PPI_STATE_NONE | PPI_STATE_OPERATION_PENDING | PPI_STATE_BUSY | PPI_STATE_DONE_PENDING

datatype ppi_job = Job_operation | Job_requestcancel | Job_done

text \<open>The calls an interface makes: the provider's \<open>handler_operation\<close> and
  \<open>handler_requestcancel\<close> and the user's \<open>handler_done\<close>.\<close>

datatype ppi_call = Handler_operation "byte list" | Handler_requestcancel | Handler_done

record pass_if =
  pi_mtu :: int
  pi_requestcancel :: bool
  pi_user :: bool
  pi_data :: "byte list"
  pi_group :: "ppi_job pending_group"
  pi_state :: ppi_state
  pi_cancel_requested :: bool

definition PacketPassInterface_Init :: "int \<Rightarrow> pass_if option" where
  "PacketPassInterface_Init mtu = do {
     assert_that (mtu \<ge> 0);
     let g = BSmallPending_Init Job_operation BPendingGroup_Init;
     let g = BSmallPending_Init Job_requestcancel g;
     let g = BSmallPending_Init Job_done g;
     Some \<lparr>pi_mtu = mtu, pi_requestcancel = False, pi_user = False, pi_data = [], pi_group = g,
           pi_state = PPI_STATE_NONE, pi_cancel_requested = False\<rparr>
   }"

definition PacketPassInterface_Free :: "pass_if \<Rightarrow> pass_if option" where
  "PacketPassInterface_Free i = do {
     g \<leftarrow> BPending_Free Job_done (pi_group i);
     g \<leftarrow> BPending_Free Job_requestcancel g;
     g \<leftarrow> BPending_Free Job_operation g;
     Some (i\<lparr>pi_group := g\<rparr>)
   }"

definition PacketPassInterface_EnableCancel :: "pass_if \<Rightarrow> pass_if option" where
  "PacketPassInterface_EnableCancel i = do {
     assert_that (\<not> pi_requestcancel i);
     assert_that (\<not> pi_user i);
     Some (i\<lparr>pi_requestcancel := True\<rparr>)
   }"

definition PacketPassInterface_Sender_Init :: "pass_if \<Rightarrow> pass_if option" where
  "PacketPassInterface_Sender_Init i = do {
     assert_that (\<not> pi_user i);
     Some (i\<lparr>pi_user := True\<rparr>)
   }"

definition PacketPassInterface_Done :: "pass_if \<Rightarrow> pass_if option" where
  "PacketPassInterface_Done i = do {
     assert_that (pi_state i = PPI_STATE_BUSY);
     g \<leftarrow> BPending_Unset Job_requestcancel (pi_group i);
     g \<leftarrow> BPending_Set Job_done g;
     Some (i\<lparr>pi_group := g, pi_state := PPI_STATE_DONE_PENDING\<rparr>)
   }"

definition PacketPassInterface_Sender_Send :: "pass_if \<Rightarrow> byte list \<Rightarrow> pass_if option" where
  "PacketPassInterface_Sender_Send i data = do {
     assert_that (int (length data) \<le> pi_mtu i);
     assert_that (pi_state i = PPI_STATE_NONE);
     assert_that (pi_user i);
     g \<leftarrow> BPending_Set Job_operation (pi_group i);
     Some (i\<lparr>pi_data := data, pi_group := g, pi_state := PPI_STATE_OPERATION_PENDING,
             pi_cancel_requested := False\<rparr>)
   }"

definition PacketPassInterface_Sender_RequestCancel :: "pass_if \<Rightarrow> pass_if option" where
  "PacketPassInterface_Sender_RequestCancel i = do {
     assert_that (pi_state i = PPI_STATE_OPERATION_PENDING \<or> pi_state i = PPI_STATE_BUSY \<or>
                  pi_state i = PPI_STATE_DONE_PENDING);
     assert_that (pi_requestcancel i);
     if pi_cancel_requested i then Some i else do {
       let i = i\<lparr>pi_cancel_requested := True\<rparr>;
       if pi_state i = PPI_STATE_OPERATION_PENDING then do {
         g \<leftarrow> BPending_Unset Job_operation (pi_group i);
         g \<leftarrow> BPending_Set Job_done g;
         Some (i\<lparr>pi_group := g, pi_state := PPI_STATE_DONE_PENDING\<rparr>)
       } else if pi_state i = PPI_STATE_BUSY then do {
         g \<leftarrow> BPending_Set Job_requestcancel (pi_group i);
         Some (i\<lparr>pi_group := g\<rparr>)
       } else Some i
     }
   }"

definition PacketPassInterface_job_operation :: "pass_if \<Rightarrow> (pass_if \<times> ppi_call list) option" where
  "PacketPassInterface_job_operation i = do {
     assert_that (pi_state i = PPI_STATE_OPERATION_PENDING);
     Some (i\<lparr>pi_state := PPI_STATE_BUSY\<rparr>, [Handler_operation (pi_data i)])
   }"

definition PacketPassInterface_job_requestcancel :: "pass_if \<Rightarrow> (pass_if \<times> ppi_call list) option" where
  "PacketPassInterface_job_requestcancel i = do {
     assert_that (pi_state i = PPI_STATE_BUSY);
     assert_that (pi_cancel_requested i);
     assert_that (pi_requestcancel i);
     Some (i, [Handler_requestcancel])
   }"

definition PacketPassInterface_job_done :: "pass_if \<Rightarrow> (pass_if \<times> ppi_call list) option" where
  "PacketPassInterface_job_done i = do {
     assert_that (pi_state i = PPI_STATE_DONE_PENDING);
     Some (i\<lparr>pi_state := PPI_STATE_NONE\<rparr>, [Handler_done])
   }"

text \<open>The interface driven by its user, its provider and the job loop.\<close>

datatype ppi_event = User_Send "byte list" | User_RequestCancel | Provider_Done | Run_Job

definition ppi_step :: "pass_if \<Rightarrow> ppi_event \<Rightarrow> (pass_if \<times> ppi_call list) option" where
  "ppi_step i e = (case e of
     User_Send data \<Rightarrow> map_option (\<lambda>i. (i, [])) (PacketPassInterface_Sender_Send i data)
   | User_RequestCancel \<Rightarrow> map_option (\<lambda>i. (i, [])) (PacketPassInterface_Sender_RequestCancel i)
   | Provider_Done \<Rightarrow> map_option (\<lambda>i. (i, [])) (PacketPassInterface_Done i)
   | Run_Job \<Rightarrow> do {
       (p, g) \<leftarrow> BPendingGroup_ExecuteJob (pi_group i);
       case p of
         Job_operation \<Rightarrow> PacketPassInterface_job_operation (i\<lparr>pi_group := g\<rparr>)
       | Job_requestcancel \<Rightarrow> PacketPassInterface_job_requestcancel (i\<lparr>pi_group := g\<rparr>)
       | Job_done \<Rightarrow> PacketPassInterface_job_done (i\<lparr>pi_group := g\<rparr>)
     })"

text \<open>The contract of user, provider and job loop: a send only when none is in progress and
  within the MTU, a cancel only while one is, a completion only of an operation the provider was
  given, and jobs only while there are some.\<close>

definition ppi_contract :: "pass_if \<Rightarrow> ppi_event \<Rightarrow> bool" where
  "ppi_contract i e = (case e of
     User_Send data \<Rightarrow> pi_state i = PPI_STATE_NONE \<and> int (length data) \<le> pi_mtu i
   | User_RequestCancel \<Rightarrow> pi_state i \<noteq> PPI_STATE_NONE \<and> pi_requestcancel i
   | Provider_Done \<Rightarrow> pi_state i = PPI_STATE_BUSY
   | Run_Job \<Rightarrow> BPendingGroup_HasJobs (pi_group i))"

definition ppi_inv :: "pass_if \<Rightarrow> bool" where
  "ppi_inv i \<longleftrightarrow> pg_inv (pi_group i) \<and> pi_user i \<and>
     (case pi_state i of
        PPI_STATE_NONE \<Rightarrow> pg_jobs (pi_group i) = []
      | PPI_STATE_OPERATION_PENDING \<Rightarrow> pg_jobs (pi_group i) = [Job_operation] \<and> \<not> pi_cancel_requested i
      | PPI_STATE_BUSY \<Rightarrow> pg_jobs (pi_group i) = [] \<or>
          pg_jobs (pi_group i) = [Job_requestcancel] \<and> pi_cancel_requested i \<and> pi_requestcancel i
      | PPI_STATE_DONE_PENDING \<Rightarrow> pg_jobs (pi_group i) = [Job_done])"

lemma BPending_ops_Some:
  "pg_inv g \<Longrightarrow> pg_jobs g = ps \<Longrightarrow> \<exists>g'. BPending_Set p g = Some g' \<and> pg_inv g' \<and> pg_jobs g' = p # filter (\<lambda>q. q \<noteq> p) ps"
  "pg_inv g \<Longrightarrow> pg_jobs g = ps \<Longrightarrow> \<exists>g'. BPending_Unset p g = Some g' \<and> pg_inv g' \<and> pg_jobs g' = filter (\<lambda>q. q \<noteq> p) ps"
  using pending.set_ok pending.unset_ok by metis+

text \<open>The sends in progress: the one-element list while there is one.\<close>

definition ppi_held :: "pass_if \<Rightarrow> unit list" where
  "ppi_held i = (if pi_state i = PPI_STATE_NONE then [] else [()])"

definition ppi_sends :: "ppi_event \<Rightarrow> unit list" where
  "ppi_sends e = (case e of User_Send _ \<Rightarrow> [()] | _ \<Rightarrow> [])"

definition ppi_dones :: "ppi_call list \<Rightarrow> unit list" where
  "ppi_dones os = map (\<lambda>_. ()) (filter (\<lambda>c. c = Handler_done) os)"

lemma ppi_Send_step:
  assumes "ppi_inv i" "ppi_contract i (User_Send data)"
  obtains i' where "ppi_step i (User_Send data) = Some (i', [])" "ppi_inv i'" "ppi_held i = []" "ppi_held i' = [()]"
proof -
  have st: "pi_state i = PPI_STATE_NONE" "int (length data) \<le> pi_mtu i" "pg_inv (pi_group i)" "pg_jobs (pi_group i) = []" "pi_user i"
    using assms by (auto simp: ppi_inv_def ppi_contract_def)
  obtain g where "BPending_Set Job_operation (pi_group i) = Some g" "pg_inv g" "pg_jobs g = [Job_operation]"
    using BPending_ops_Some(1) [OF st(3,4), of Job_operation] by auto
  then show ?thesis using that st
    by (simp add: ppi_step_def PacketPassInterface_Sender_Send_def ppi_inv_def ppi_held_def)
qed

lemma ppi_RequestCancel_step:
  assumes "ppi_inv i" "ppi_contract i User_RequestCancel"
  obtains i' where "ppi_step i User_RequestCancel = Some (i', [])" "ppi_inv i'" "ppi_held i' = ppi_held i"
proof (cases "pi_cancel_requested i")
  case True
  then show ?thesis using that assms
    by (cases "pi_state i") (auto simp: ppi_step_def PacketPassInterface_Sender_RequestCancel_def ppi_contract_def)
next
  case False
  have inv: "pg_inv (pi_group i)" "pi_user i" "pi_state i \<noteq> PPI_STATE_NONE" "pi_requestcancel i"
    using assms by (auto simp: ppi_inv_def ppi_contract_def)
  show ?thesis
  proof (cases "pi_state i")
    case PPI_STATE_OPERATION_PENDING
    then have j: "pg_jobs (pi_group i) = [Job_operation]" using assms by (simp add: ppi_inv_def)
    obtain g where g: "BPending_Unset Job_operation (pi_group i) = Some g" "pg_inv g" "pg_jobs g = []"
      using BPending_ops_Some(2) [OF inv(1) j, of Job_operation] by auto
    obtain g2 where "BPending_Set Job_done g = Some g2" "pg_inv g2" "pg_jobs g2 = [Job_done]"
      using BPending_ops_Some(1) [OF g(2,3), of Job_done] by auto
    then show ?thesis using that inv g False PPI_STATE_OPERATION_PENDING
      by (simp add: ppi_step_def PacketPassInterface_Sender_RequestCancel_def ppi_inv_def ppi_held_def)
  next
    case PPI_STATE_BUSY
    then have j: "pg_jobs (pi_group i) = []" using assms False by (simp add: ppi_inv_def)
    obtain g where "BPending_Set Job_requestcancel (pi_group i) = Some g" "pg_inv g" "pg_jobs g = [Job_requestcancel]"
      using BPending_ops_Some(1) [OF inv(1) j, of Job_requestcancel] by auto
    then show ?thesis using that inv False PPI_STATE_BUSY
      by (simp add: ppi_step_def PacketPassInterface_Sender_RequestCancel_def ppi_inv_def ppi_held_def)
  next
    case PPI_STATE_DONE_PENDING
    then show ?thesis using that inv False assms
      by (simp add: ppi_step_def PacketPassInterface_Sender_RequestCancel_def ppi_inv_def ppi_held_def)
  qed (use inv in simp)
qed

lemma ppi_Done_step:
  assumes "ppi_inv i" "ppi_contract i Provider_Done"
  obtains i' where "ppi_step i Provider_Done = Some (i', [])" "ppi_inv i'" "ppi_held i' = ppi_held i"
proof -
  have st: "pi_state i = PPI_STATE_BUSY" "pg_inv (pi_group i)" "pi_user i"
    and j: "pg_jobs (pi_group i) = [] \<or> pg_jobs (pi_group i) = [Job_requestcancel]"
    using assms by (auto simp: ppi_inv_def ppi_contract_def)
  obtain g where g: "BPending_Unset Job_requestcancel (pi_group i) = Some g" "pg_inv g" "pg_jobs g = []"
    using BPending_ops_Some(2) [OF st(2) refl, of Job_requestcancel] j by auto
  obtain g2 where "BPending_Set Job_done g = Some g2" "pg_inv g2" "pg_jobs g2 = [Job_done]"
    using BPending_ops_Some(1) [OF g(2,3), of Job_done] by auto
  then show ?thesis using that st g
    by (simp add: ppi_step_def PacketPassInterface_Done_def ppi_inv_def ppi_held_def)
qed

lemma ppi_Job_step:
  assumes "ppi_inv i" "ppi_contract i Run_Job"
  shows "\<exists>i' os. ppi_step i Run_Job = Some (i', os) \<and> ppi_inv i' \<and> ppi_held i = ppi_dones os @ ppi_held i'"
proof -
  have inv: "pg_inv (pi_group i)" "pg_jobs (pi_group i) \<noteq> []"
    using assms by (auto simp: ppi_inv_def ppi_contract_def BPendingGroup_HasJobs_def)
  then obtain p g where g: "BPendingGroup_ExecuteJob (pi_group i) = Some (p, g)" "pg_inv g"
      "pg_jobs (pi_group i) = p # pg_jobs g"
    using pending.execute_ok by (metis list.exhaust)
  have step: "ppi_step i Run_Job = (case p of
         Job_operation \<Rightarrow> PacketPassInterface_job_operation (i\<lparr>pi_group := g\<rparr>)
       | Job_requestcancel \<Rightarrow> PacketPassInterface_job_requestcancel (i\<lparr>pi_group := g\<rparr>)
       | Job_done \<Rightarrow> PacketPassInterface_job_done (i\<lparr>pi_group := g\<rparr>))"
    by (simp add: ppi_step_def g(1))
  show ?thesis
    using assms(1) g(2,3) unfolding step
    by (cases "pi_state i")
      (simp_all add: ppi_inv_def ppi_held_def ppi_dones_def PacketPassInterface_job_operation_def
        PacketPassInterface_job_requestcancel_def PacketPassInterface_job_done_def)
qed

lemma ppi_step_ok:
  assumes "ppi_inv i" "ppi_contract i e"
  shows "\<exists>i' os. ppi_step i e = Some (i', os) \<and> ppi_inv i' \<and> ppi_held i @ ppi_sends e = ppi_dones os @ ppi_held i'"
proof (cases e)
  case (User_Send data)
  show ?thesis using assms unfolding User_Send
    by - (erule (1) ppi_Send_step, simp add: ppi_sends_def ppi_dones_def)
next
  case User_RequestCancel
  show ?thesis using assms unfolding User_RequestCancel
    by - (erule (1) ppi_RequestCancel_step, simp add: ppi_sends_def ppi_dones_def)
next
  case Provider_Done
  show ?thesis using assms unfolding Provider_Done
    by - (erule (1) ppi_Done_step, simp add: ppi_sends_def ppi_dones_def)
next
  case Run_Job
  with ppi_Job_step assms show ?thesis by (simp add: ppi_sends_def)
qed

interpretation ppi: safe_machine ppi_step ppi_contract ppi_inv
  using ppi_step_ok by unfold_locales blast

lemma ppi_Init_inv:
  "PacketPassInterface_Init mtu \<bind> PacketPassInterface_Sender_Init = Some i \<Longrightarrow>
   ppi_inv i \<and> pi_state i = PPI_STATE_NONE \<and> pi_mtu i = mtu"
  by (auto simp: PacketPassInterface_Init_def PacketPassInterface_Sender_Init_def ppi_inv_def
      BPendingGroup_Init_def BSmallPending_Init_def pg_inv_def bind_eq_Some_conv split: if_splits)

section \<open>Properties\<close>



end
