(* ===== verification/Chunk_Buffer.thy ===== *)
theory Chunk_Buffer
  imports Byteorder
begin

text \<open>
  The packet ring buffer of structure/ChunkBuffer2.h and the flow component PacketBuffer
  built on it (flow/PacketBuffer.c). The block array is an address space of bytes starting at
  \<open>buf->buffer\<close>, block \<open>i\<close> being the four bytes from \<open>4 * i\<close>; a pointer into
  it is its byte address, NULL is \<open>None\<close>. A packet is stored as a length block followed
  by its bytes, padded to whole blocks; \<open>wrap\<close> is where the data of the upper part ends and
  continues at block 0.
\<close>

section \<open>Rounding and memory\<close>

definition balign_up :: "int \<Rightarrow> int \<Rightarrow> int" where
  "balign_up x n = (let r = x mod n in if r \<noteq> 0 then x + (n - r) else x)"

definition balign_down :: "int \<Rightarrow> int \<Rightarrow> int" where
  "balign_down x n = x - x mod n"

definition balign_up_overflows :: "int \<Rightarrow> int \<Rightarrow> int \<Rightarrow> bool" where
  "balign_up_overflows size_max x n = (let r = x mod n in r \<noteq> 0 \<and> x > size_max - (n - r))"

definition bdivide_up :: "int \<Rightarrow> int \<Rightarrow> int" where
  "bdivide_up a b = (let r = a mod b in if r > 0 then a div b + 1 else a div b)"

type_synonym memory = "int \<Rightarrow> byte"

definition store :: "memory \<Rightarrow> int \<Rightarrow> byte list \<Rightarrow> memory" where
  "store m a bs = (\<lambda>i. if a \<le> i \<and> i < a + int (length bs) then bs ! nat (i - a) else m i)"

definition load :: "memory \<Rightarrow> int \<Rightarrow> nat \<Rightarrow> byte list" where
  "load m a n = map (\<lambda>k. m (a + int k)) [0..<n]"

lemma length_load [simp]: "length (load m a n) = n"
  by (simp add: load_def)

lemma load_store_same [simp]: "load (store m a bs) a (length bs) = bs"
  by (rule nth_equalityI) (simp_all add: load_def store_def)

lemma load_store_other:
  "b + int n \<le> a \<or> a + int (length bs) \<le> b \<Longrightarrow> load (store m a bs) b n = load m b n"
  by (auto simp: load_def store_def)

definition store_int :: "memory \<Rightarrow> int \<Rightarrow> int \<Rightarrow> memory" where
  "store_int m a x = store m a (mem32 (word_of_int x))"

definition load_int :: "memory \<Rightarrow> int \<Rightarrow> int" where
  "load_int m a = sint (unmem32 (load m a 4))"

lemma load_int_store_int [simp]:
  "0 \<le> x \<Longrightarrow> x \<le> INT_MAX \<Longrightarrow> load_int (store_int m a x) a = x"
proof -
  assume x: "0 \<le> x" "x \<le> INT_MAX"
  have "load (store_int m a x) a 4 = mem32 (word_of_int x)"
    using load_store_same [of m a "mem32 (word_of_int x)"] by (simp add: store_int_def)
  then show ?thesis using x by (simp add: load_int_def sint_sbintrunc' signed_take_bit_int_eq_self)
qed

lemma load_int_store_other:
  "b + 4 \<le> a \<or> a + int (length bs) \<le> b \<Longrightarrow> load_int (store m a bs) b = load_int m b"
  by (simp add: load_int_def load_store_other)

section \<open>ChunkBuffer2\<close>

record chunk_buffer =
  cb_buffer :: memory
  cb_size :: int
  cb_wrap :: int
  cb_start :: int
  cb_used :: int
  cb_mtu :: int
  cb_input_dest :: "int option"
  cb_input_avail :: int
  cb_output_dest :: "int option"
  cb_output_avail :: int

abbreviation (input) sizeof_block :: int where "sizeof_block \<equiv> 4"

definition ChunkBuffer2_end :: "chunk_buffer \<Rightarrow> int" where
  "ChunkBuffer2_end buf =
     (if cb_used buf \<ge> cb_wrap buf - cb_start buf
      then cb_used buf - (cb_wrap buf - cb_start buf)
      else cb_start buf + cb_used buf)"

definition ChunkBuffer2_assert_buffer :: "chunk_buffer \<Rightarrow> bool" where
  "ChunkBuffer2_assert_buffer buf \<longleftrightarrow>
     cb_size buf > 0 \<and> cb_wrap buf > 0 \<and> cb_wrap buf \<le> cb_size buf \<and> cb_start buf \<ge> 0 \<and>
     cb_start buf < cb_wrap buf \<and> cb_used buf \<ge> 0 \<and> cb_used buf \<le> cb_wrap buf \<and>
     (cb_wrap buf = cb_size buf \<or> cb_used buf \<ge> cb_wrap buf - cb_start buf) \<and> cb_mtu buf \<ge> 0"

definition ChunkBuffer2_assert_io :: "chunk_buffer \<Rightarrow> bool" where
  "ChunkBuffer2_assert_io buf \<longleftrightarrow>
     (let end = ChunkBuffer2_end buf in
      (if cb_size buf - end - 1 < cb_mtu buf
       then cb_input_dest buf = None \<and> cb_input_avail buf = - 1
       else let free = (if cb_used buf \<ge> cb_wrap buf - cb_start buf
                        then cb_start buf - end else cb_size buf - end) in
            if free > 0
            then cb_input_dest buf = Some (sizeof_block * (end + 1)) \<and>
                 cb_input_avail buf = (free - 1) * sizeof_block
            else cb_input_dest buf = None \<and> cb_input_avail buf = - 1)) \<and>
     (if cb_used buf > 0
      then let datalen = load_int (cb_buffer buf) (sizeof_block * cb_start buf);
               blocklen = bdivide_up datalen sizeof_block in
           datalen \<ge> 0 \<and> blocklen \<le> cb_used buf - 1 \<and>
           blocklen \<le> cb_wrap buf - cb_start buf - 1 \<and>
           cb_output_dest buf = Some (sizeof_block * (cb_start buf + 1)) \<and>
           cb_output_avail buf = datalen
      else cb_output_dest buf = None \<and> cb_output_avail buf = - 1)"

definition ChunkBuffer2_update_input :: "chunk_buffer \<Rightarrow> chunk_buffer" where
  "ChunkBuffer2_update_input buf =
     (let end = ChunkBuffer2_end buf in
      if cb_size buf - end - 1 < cb_mtu buf
      then buf\<lparr>cb_input_dest := None, cb_input_avail := - 1\<rparr>
      else let free = (if cb_used buf \<ge> cb_wrap buf - cb_start buf
                       then cb_start buf - end else cb_size buf - end) in
           if free > 0
           then buf\<lparr>cb_input_dest := Some (sizeof_block * (end + 1)),
                    cb_input_avail := c_int ((free - 1) * sizeof_block)\<rparr>
           else buf\<lparr>cb_input_dest := None, cb_input_avail := - 1\<rparr>)"

definition ChunkBuffer2_update_output :: "chunk_buffer \<Rightarrow> chunk_buffer option" where
  "ChunkBuffer2_update_output buf =
     (if cb_used buf > 0
      then let datalen = load_int (cb_buffer buf) (sizeof_block * cb_start buf);
               blocklen = bdivide_up datalen sizeof_block in
           do {
             assert_that (datalen \<ge> 0);
             assert_that (blocklen \<le> cb_used buf - 1);
             assert_that (blocklen \<le> cb_wrap buf - cb_start buf - 1);
             Some (buf\<lparr>cb_output_dest := Some (sizeof_block * (cb_start buf + 1)),
                       cb_output_avail := datalen\<rparr>)
           }
      else Some (buf\<lparr>cb_output_dest := None, cb_output_avail := - 1\<rparr>))"

definition ChunkBuffer2_calc_blocks :: "int \<Rightarrow> int \<Rightarrow> int" where
  "ChunkBuffer2_calc_blocks chunk_len num =
     (let chunk_data_blocks = bdivide_up chunk_len sizeof_block in
      if chunk_data_blocks > INT_MAX - 1 then - 1 else
      let chunk_blocks = 1 + chunk_data_blocks in
      if num > INT_MAX - 1 then - 1 else
      let num_chunks = num + 1 in
      if chunk_blocks > INT_MAX div num_chunks then - 1 else
      chunk_blocks * num_chunks)"

definition ChunkBuffer2_Init :: "memory \<Rightarrow> int \<Rightarrow> int \<Rightarrow> chunk_buffer option" where
  "ChunkBuffer2_Init buffer blocks mtu = do {
     assert_that (blocks > 0);
     assert_that (mtu \<ge> 0);
     let buf = \<lparr>cb_buffer = buffer, cb_size = blocks, cb_wrap = blocks, cb_start = 0, cb_used = 0,
                cb_mtu = bdivide_up mtu sizeof_block, cb_input_dest = None, cb_input_avail = - 1,
                cb_output_dest = None, cb_output_avail = - 1\<rparr>;
     assert_that (ChunkBuffer2_assert_buffer buf);
     let buf = ChunkBuffer2_update_input buf;
     buf \<leftarrow> ChunkBuffer2_update_output buf;
     assert_that (ChunkBuffer2_assert_io buf);
     Some buf
   }"

definition ChunkBuffer2_SubmitPacket :: "chunk_buffer \<Rightarrow> int \<Rightarrow> chunk_buffer option" where
  "ChunkBuffer2_SubmitPacket buf len = do {
     assert_that (cb_input_dest buf \<noteq> None);
     assert_that (len \<ge> 0);
     assert_that (len \<le> cb_input_avail buf);
     assert_that (ChunkBuffer2_assert_buffer buf);
     assert_that (ChunkBuffer2_assert_io buf);
     let end = ChunkBuffer2_end buf;
     let blocklen = bdivide_up len sizeof_block;
     assert_that (blocklen \<le> cb_size buf - end - 1);
     assert_that (cb_used buf < cb_wrap buf - cb_start buf \<or> blocklen \<le> cb_start buf - end - 1);
     let buf = buf\<lparr>cb_buffer := store_int (cb_buffer buf) (sizeof_block * end) len,
                   cb_used := cb_used buf + (1 + blocklen)\<rparr>;
     let buf = (if cb_used buf \<le> cb_wrap buf - cb_start buf \<and>
                   cb_mtu buf > cb_size buf - (end + 1 + blocklen) - 1
                then buf\<lparr>cb_wrap := end + 1 + blocklen\<rparr> else buf);
     assert_that (ChunkBuffer2_assert_buffer buf);
     let buf = ChunkBuffer2_update_input buf;
     buf \<leftarrow> (if cb_used buf = 1 + blocklen then ChunkBuffer2_update_output buf else Some buf);
     assert_that (ChunkBuffer2_assert_io buf);
     Some buf
   }"

definition ChunkBuffer2_ConsumePacket :: "chunk_buffer \<Rightarrow> chunk_buffer option" where
  "ChunkBuffer2_ConsumePacket buf = do {
     assert_that (cb_output_dest buf \<noteq> None);
     assert_that (ChunkBuffer2_assert_buffer buf);
     assert_that (ChunkBuffer2_assert_io buf);
     assert_that (1 \<le> cb_wrap buf - cb_start buf);
     assert_that (1 \<le> cb_used buf);
     let blocklen = bdivide_up (load_int (cb_buffer buf) (sizeof_block * cb_start buf)) sizeof_block;
     assert_that (blocklen \<le> cb_wrap buf - cb_start buf - 1);
     assert_that (blocklen \<le> cb_used buf - 1);
     let data_wrapped = (cb_used buf \<ge> cb_wrap buf - cb_start buf);
     let buf = buf\<lparr>cb_start := cb_start buf + (1 + blocklen),
                   cb_used := cb_used buf - (1 + blocklen)\<rparr>;
     let buf = (if cb_start buf = cb_wrap buf
                then buf\<lparr>cb_start := 0, cb_wrap := cb_size buf\<rparr> else buf);
     assert_that (ChunkBuffer2_assert_buffer buf);
     let buf = (if data_wrapped then ChunkBuffer2_update_input buf else buf);
     buf \<leftarrow> ChunkBuffer2_update_output buf;
     assert_that (ChunkBuffer2_assert_io buf);
     Some buf
   }"

section \<open>Layout\<close>

text \<open>\<open>blk p\<close> is the number of blocks of a stored packet, \<open>stored m lim a ps\<close> says that
  the packets \<open>ps\<close> lie in \<open>m\<close> one after the other from block \<open>a\<close> on, each
  starting at block \<open>lim\<close> or before.\<close>

definition blk :: "byte list \<Rightarrow> int" where
  "blk p = 1 + bdivide_up (int (length p)) 4"

fun blks :: "byte list list \<Rightarrow> int" where
  "blks [] = 0"
| "blks (p # ps) = blk p + blks ps"

fun stored :: "memory \<Rightarrow> int \<Rightarrow> int \<Rightarrow> byte list list \<Rightarrow> bool" where
  "stored m lim a [] = True"
| "stored m lim a (p # ps) =
     (a \<le> lim \<and> load_int m (4 * a) = int (length p) \<and> load m (4 * (a + 1)) (length p) = p \<and>
      stored m lim (a + blk p) ps)"

lemma bdivide_up_bounds: "0 \<le> a \<Longrightarrow> a \<le> 4 * bdivide_up a 4 \<and> 4 * bdivide_up a 4 < a + 4"
  unfolding bdivide_up_def Let_def by presburger

lemma bdivide_up_le: "0 \<le> a \<Longrightarrow> a \<le> 4 * k \<Longrightarrow> bdivide_up a 4 \<le> k"
  using bdivide_up_bounds [of a] by linarith

lemma bdivide_up_nonneg [simp]: "0 \<le> a \<Longrightarrow> 0 \<le> bdivide_up a 4"
  unfolding bdivide_up_def Let_def by auto

lemma blk_bounds: "1 \<le> blk p" "int (length p) \<le> 4 * (blk p - 1)"
  using bdivide_up_bounds [of "int (length p)"] by (auto simp: blk_def)

lemma blk_pos: "0 < blk p"
  using blk_bounds(1) [of p] by linarith

lemma blks_nonneg: "0 \<le> blks ps"
proof (induction ps)
  case (Cons p ps)
  then show ?case using blk_bounds(1) [of p] by simp
qed simp

lemma blks_append [simp]: "blks (ps @ qs) = blks ps + blks qs"
  by (induction ps) auto

lemma blks_eq_0 [simp]: "blks ps = 0 \<longleftrightarrow> ps = []"
proof (cases ps)
  case (Cons p qs)
  then show ?thesis using blk_bounds(1) [of p] blks_nonneg [of qs] by auto
qed simp

lemma blks_pos: "ps \<noteq> [] \<Longrightarrow> 0 < blks ps"
  using blks_eq_0 [of ps] blks_nonneg [of ps] by linarith

lemma stored_append [simp]:
  "stored m lim a (ps @ qs) \<longleftrightarrow> stored m lim a ps \<and> stored m lim (a + blks ps) qs"
  by (induction ps arbitrary: a) (auto simp: add.assoc)

lemma stored_frame:
  "stored m lim a ps \<Longrightarrow> b + int (length bs) \<le> 4 * a \<or> 4 * (a + blks ps) \<le> b \<Longrightarrow>
   stored (store m b bs) lim a ps"
proof (induction ps arbitrary: a)
  case (Cons p ps)
  have "1 \<le> blk p" "int (length p) \<le> 4 * (blk p - 1)" "0 \<le> blks ps"
    using blk_bounds blks_nonneg by auto
  moreover from this have "stored (store m b bs) lim (a + blk p) ps"
    using Cons.prems by (intro Cons.IH) auto
  ultimately show ?case
    using Cons.prems by (auto simp: load_int_store_other load_store_other)
qed simp

section \<open>The invariant\<close>

text \<open>\<open>cb_lay buf ps qs\<close>: the buffer holds the packets \<open>ps @ qs\<close>, \<open>ps\<close> from
  \<open>start\<close> on and, once the data has wrapped, \<open>qs\<close> from block 0 on. The bound on
  \<open>size\<close> keeps \<open>input_avail\<close> within an int. \<open>cb_wf\<close> adds that the input and output
  fields are up to date.\<close>

definition cb_in_ok :: "chunk_buffer \<Rightarrow> bool" where
  "cb_in_ok buf \<longleftrightarrow>
     (let end = ChunkBuffer2_end buf;
          free = (if cb_used buf \<ge> cb_wrap buf - cb_start buf
                  then cb_start buf - end else cb_size buf - end) in
      if cb_size buf - end - 1 < cb_mtu buf \<or> free \<le> 0
      then cb_input_dest buf = None \<and> cb_input_avail buf = - 1
      else cb_input_dest buf = Some (4 * (end + 1)) \<and> cb_input_avail buf = (free - 1) * 4)"

definition cb_out_ok :: "chunk_buffer \<Rightarrow> bool" where
  "cb_out_ok buf \<longleftrightarrow>
     (if cb_used buf > 0
      then cb_output_dest buf = Some (4 * (cb_start buf + 1)) \<and>
           cb_output_avail buf = load_int (cb_buffer buf) (4 * cb_start buf)
      else cb_output_dest buf = None \<and> cb_output_avail buf = - 1)"

definition cb_lay :: "chunk_buffer \<Rightarrow> byte list list \<Rightarrow> byte list list \<Rightarrow> bool" where
  "cb_lay buf ps qs \<longleftrightarrow>
     0 \<le> cb_mtu buf \<and> cb_mtu buf + 1 \<le> cb_size buf \<and> cb_size buf \<le> 2 ^ 29 \<and>
     0 \<le> cb_start buf \<and> cb_start buf < cb_wrap buf \<and> cb_wrap buf \<le> cb_size buf \<and>
     cb_start buf \<le> cb_size buf - 1 - cb_mtu buf \<and>
     stored (cb_buffer buf) (cb_size buf - 1 - cb_mtu buf) (cb_start buf) ps \<and>
     stored (cb_buffer buf) (cb_size buf - 1 - cb_mtu buf) 0 qs \<and>
     (if cb_used buf < cb_wrap buf - cb_start buf
      then cb_wrap buf = cb_size buf \<and> qs = [] \<and> blks ps = cb_used buf \<and>
           cb_start buf + cb_used buf \<le> cb_size buf - 1 - cb_mtu buf
      else blks ps = cb_wrap buf - cb_start buf \<and> cb_used buf = blks ps + blks qs \<and>
           blks qs \<le> cb_start buf \<and> cb_size buf - cb_mtu buf \<le> cb_wrap buf)"

definition cb_wf :: "chunk_buffer \<Rightarrow> byte list list \<Rightarrow> byte list list \<Rightarrow> bool" where
  "cb_wf buf ps qs \<longleftrightarrow> cb_lay buf ps qs \<and> cb_in_ok buf \<and> cb_out_ok buf"

lemma update_input_ok:
  assumes "0 \<le> ChunkBuffer2_end buf" "cb_start buf \<le> cb_size buf" "cb_size buf \<le> 2 ^ 29"
  shows "cb_in_ok (ChunkBuffer2_update_input buf)"
  using assms
  by (auto simp: cb_in_ok_def ChunkBuffer2_update_input_def ChunkBuffer2_end_def Let_def)

lemma update_input_fields [simp]:
  "cb_buffer (ChunkBuffer2_update_input buf) = cb_buffer buf"
  "cb_size (ChunkBuffer2_update_input buf) = cb_size buf"
  "cb_wrap (ChunkBuffer2_update_input buf) = cb_wrap buf"
  "cb_start (ChunkBuffer2_update_input buf) = cb_start buf"
  "cb_used (ChunkBuffer2_update_input buf) = cb_used buf"
  "cb_mtu (ChunkBuffer2_update_input buf) = cb_mtu buf"
  "cb_output_dest (ChunkBuffer2_update_input buf) = cb_output_dest buf"
  "cb_output_avail (ChunkBuffer2_update_input buf) = cb_output_avail buf"
  by (simp_all add: ChunkBuffer2_update_input_def Let_def)

lemma stored_first:
  assumes "stored m lim a (p # ps)"
  shows "load_int m (4 * a) = int (length p)" "bdivide_up (load_int m (4 * a)) 4 = blk p - 1"
  using assms by (auto simp: blk_def)

text \<open>Under the layout part of the invariant the debug assertions say exactly that the input
  and output fields are up to date.\<close>

lemma assert_io_iff:
  assumes "stored (cb_buffer buf) lim (cb_start buf) ps" "0 < cb_used buf \<Longrightarrow> ps \<noteq> []"
    "blks ps \<le> cb_used buf" "blks ps \<le> cb_wrap buf - cb_start buf"
  shows "ChunkBuffer2_assert_io buf \<longleftrightarrow> cb_in_ok buf \<and> cb_out_ok buf"
proof (cases ps)
  case Nil
  then show ?thesis using assms(2)
    by (auto simp: ChunkBuffer2_assert_io_def cb_in_ok_def cb_out_ok_def Let_def)
next
  case (Cons p qs)
  then show ?thesis
    using assms stored_first [of "cb_buffer buf" lim "cb_start buf" p qs] blks_nonneg [of qs]
    by (auto simp: ChunkBuffer2_assert_io_def cb_in_ok_def cb_out_ok_def Let_def)
qed

lemma update_output_eq:
  assumes "stored (cb_buffer buf) lim (cb_start buf) ps" "0 < cb_used buf \<Longrightarrow> ps \<noteq> []"
    "blks ps \<le> cb_used buf" "blks ps \<le> cb_wrap buf - cb_start buf"
  shows "ChunkBuffer2_update_output buf = Some (buf
    \<lparr>cb_output_dest := if cb_used buf > 0 then Some (4 * (cb_start buf + 1)) else None,
     cb_output_avail :=
       if cb_used buf > 0 then load_int (cb_buffer buf) (4 * cb_start buf) else - 1\<rparr>)"
proof (cases ps)
  case Nil
  then show ?thesis using assms(2) by (auto simp: ChunkBuffer2_update_output_def)
next
  case (Cons p qs)
  then show ?thesis
    using assms stored_first [of "cb_buffer buf" lim "cb_start buf" p qs] blks_nonneg [of qs]
    by (auto simp: ChunkBuffer2_update_output_def Let_def)
qed

lemma cb_in_ok_cong:
  "cb_size b = cb_size c \<Longrightarrow> cb_wrap b = cb_wrap c \<Longrightarrow> cb_start b = cb_start c \<Longrightarrow>
   cb_used b = cb_used c \<Longrightarrow> cb_mtu b = cb_mtu c \<Longrightarrow> cb_input_dest b = cb_input_dest c \<Longrightarrow>
   cb_input_avail b = cb_input_avail c \<Longrightarrow> cb_in_ok b = cb_in_ok c"
  by (simp add: cb_in_ok_def ChunkBuffer2_end_def)

lemma cb_lay_first_part:
  assumes "cb_lay buf ps qs"
  shows "stored (cb_buffer buf) (cb_size buf - 1 - cb_mtu buf) (cb_start buf) ps"
    "0 < cb_used buf \<longleftrightarrow> ps \<noteq> []" "blks ps \<le> cb_used buf" "blks ps \<le> cb_wrap buf - cb_start buf"
  using assms blks_nonneg [of ps] blks_nonneg [of qs] blks_pos [of ps]
  by (auto simp: cb_lay_def split: if_splits)

lemma cb_wf_assert_io: "cb_wf buf ps qs \<Longrightarrow> ChunkBuffer2_assert_io buf"
  using assert_io_iff [of buf "cb_size buf - 1 - cb_mtu buf" ps] cb_lay_first_part [of buf ps qs]
  by (auto simp: cb_wf_def)

lemma cb_lay_assert_buffer: "cb_lay buf ps qs \<Longrightarrow> ChunkBuffer2_assert_buffer buf"
  using blks_nonneg [of ps] blks_nonneg [of qs]
  by (auto simp: cb_lay_def ChunkBuffer2_assert_buffer_def split: if_splits)

text \<open>Where input is taken and how much: at the end of the data, up to the end of the array or
  to the first packet.\<close>

definition cb_free :: "chunk_buffer \<Rightarrow> int" where
  "cb_free buf = (if cb_used buf < cb_wrap buf - cb_start buf
                  then cb_size buf - (cb_start buf + cb_used buf) else cb_wrap buf - cb_used buf)"

lemma cb_wf_input:
  assumes "cb_wf buf ps qs"
  shows "if cb_free buf > 0
         then cb_input_dest buf = Some (4 * (ChunkBuffer2_end buf + 1)) \<and>
              cb_input_avail buf = 4 * (cb_free buf - 1)
         else cb_input_dest buf = None \<and> cb_input_avail buf = - 1"
  using assms blks_nonneg [of qs]
  by (auto simp: cb_wf_def cb_lay_def cb_in_ok_def cb_free_def ChunkBuffer2_end_def Let_def split: if_splits)

lemma cb_wf_output:
  assumes "cb_wf buf ps qs"
  shows "case ps of [] \<Rightarrow> cb_output_dest buf = None \<and> cb_output_avail buf = - 1 \<and> qs = []
         | p # _ \<Rightarrow> cb_output_avail buf = int (length p) \<and>
             (\<exists>d. cb_output_dest buf = Some d \<and> load (cb_buffer buf) d (length p) = p)"
  using assms blks_nonneg [of ps] blks_nonneg [of qs] blks_eq_0 [of ps] blk_bounds(1)
  by (auto simp: cb_wf_def cb_lay_def cb_out_ok_def split: if_splits list.splits)

section \<open>Operations keep the invariant\<close>

lemma cb_end_bounds:
  assumes "cb_lay buf ps qs"
  shows "0 \<le> ChunkBuffer2_end buf" "ChunkBuffer2_end buf \<le> cb_size buf - 1 - cb_mtu buf"
    "ChunkBuffer2_end buf + cb_free buf \<le> cb_size buf"
  using assms blks_nonneg [of ps] blks_nonneg [of qs]
  by (auto simp: cb_lay_def ChunkBuffer2_end_def cb_free_def split: if_splits)

text \<open>Writing into the free blocks disturbs no stored packet.\<close>

lemma cb_wf_write_free:
  assumes "cb_wf buf ps qs" and a: "4 * ChunkBuffer2_end buf \<le> a"
    "a + int (length bs) \<le> 4 * (ChunkBuffer2_end buf + cb_free buf)"
  shows "cb_wf (buf\<lparr>cb_buffer := store (cb_buffer buf) a bs\<rparr>) ps qs"
proof -
  let ?m = "store (cb_buffer buf) a bs" and ?lim = "cb_size buf - 1 - cb_mtu buf"
  have lay: "cb_lay buf ps qs" and ok: "cb_in_ok buf" "cb_out_ok buf"
    using assms(1) by (auto simp: cb_wf_def)
  have ps: "stored ?m ?lim (cb_start buf) ps" and qs: "stored ?m ?lim 0 qs"
    using lay a blks_nonneg [of ps] blks_nonneg [of qs]
    by (auto simp: cb_lay_def ChunkBuffer2_end_def cb_free_def split: if_splits intro!: stored_frame)
  have "load_int ?m (4 * cb_start buf) = load_int (cb_buffer buf) (4 * cb_start buf)"
    if "cb_used buf > 0"
  proof (cases ps)
    case Nil
    then show ?thesis using that cb_lay_first_part(2) [OF lay] by simp
  next
    case (Cons p rs)
    then show ?thesis using ps cb_lay_first_part(1) [OF lay] by simp
  qed
  then have "cb_out_ok (buf\<lparr>cb_buffer := ?m\<rparr>)"
    using ok(2) by (auto simp: cb_out_ok_def)
  moreover have "cb_in_ok (buf\<lparr>cb_buffer := ?m\<rparr>)"
    using ok(1) by (auto cong: cb_in_ok_cong)
  moreover have "cb_lay (buf\<lparr>cb_buffer := ?m\<rparr>) ps qs"
    using lay ps qs by (auto simp: cb_lay_def)
  ultimately show ?thesis by (simp add: cb_wf_def)
qed

lemma cb_lay_cong:
  "cb_buffer b = cb_buffer c \<Longrightarrow> cb_size b = cb_size c \<Longrightarrow> cb_wrap b = cb_wrap c \<Longrightarrow>
   cb_start b = cb_start c \<Longrightarrow> cb_used b = cb_used c \<Longrightarrow> cb_mtu b = cb_mtu c \<Longrightarrow>
   cb_lay b ps qs = cb_lay c ps qs"
  by (simp add: cb_lay_def)

lemma cb_lay_update:
  assumes "cb_lay buf ps qs"
  shows "cb_in_ok (ChunkBuffer2_update_input buf)" "cb_lay (ChunkBuffer2_update_input buf) ps qs"
    "\<exists>buf'. ChunkBuffer2_update_output buf = Some buf' \<and> cb_out_ok buf' \<and> cb_lay buf' ps qs \<and>
       cb_in_ok buf' = cb_in_ok buf \<and> cb_size buf' = cb_size buf \<and> cb_mtu buf' = cb_mtu buf \<and>
       ChunkBuffer2_end buf' = ChunkBuffer2_end buf \<and> cb_free buf' = cb_free buf"
    "ChunkBuffer2_end (ChunkBuffer2_update_input buf) = ChunkBuffer2_end buf"
    "cb_free (ChunkBuffer2_update_input buf) = cb_free buf"
proof -
  show "ChunkBuffer2_end (ChunkBuffer2_update_input buf) = ChunkBuffer2_end buf"
    "cb_free (ChunkBuffer2_update_input buf) = cb_free buf"
    by (simp_all add: ChunkBuffer2_end_def cb_free_def)
  show "cb_in_ok (ChunkBuffer2_update_input buf)"
    using assms cb_end_bounds [OF assms] by (intro update_input_ok) (auto simp: cb_lay_def)
  show "cb_lay (ChunkBuffer2_update_input buf) ps qs"
    using assms by (simp cong: cb_lay_cong)
  show "\<exists>buf'. ChunkBuffer2_update_output buf = Some buf' \<and> cb_out_ok buf' \<and> cb_lay buf' ps qs \<and>
       cb_in_ok buf' = cb_in_ok buf \<and> cb_size buf' = cb_size buf \<and> cb_mtu buf' = cb_mtu buf \<and>
       ChunkBuffer2_end buf' = ChunkBuffer2_end buf \<and> cb_free buf' = cb_free buf"
    using cb_lay_first_part [OF assms] assms
    by (subst update_output_eq [where ps = ps])
      (auto simp: cb_out_ok_def ChunkBuffer2_end_def cb_free_def cong: cb_in_ok_cong cb_lay_cong)
qed

lemma cb_wf_Init:
  assumes "0 \<le> mtu" "bdivide_up mtu 4 + 1 \<le> blocks" "blocks \<le> 2 ^ 29"
  obtains buf where "ChunkBuffer2_Init m blocks mtu = Some buf" "cb_wf buf [] []"
    "cb_size buf = blocks" "cb_mtu buf = bdivide_up mtu 4"
proof -
  let ?b = "\<lparr>cb_buffer = m, cb_size = blocks, cb_wrap = blocks, cb_start = 0, cb_used = 0,
    cb_mtu = bdivide_up mtu 4, cb_input_dest = Some 4, cb_input_avail = (blocks - 1) * 4,
    cb_output_dest = None, cb_output_avail = - 1\<rparr>"
  have d: "0 \<le> bdivide_up mtu 4" using assms(1) by simp
  then have "0 < blocks" using assms(2) by linarith
  then have "cb_wf ?b [] []" using assms d
    by (simp add: cb_wf_def cb_lay_def cb_in_ok_def cb_out_ok_def ChunkBuffer2_end_def
        del: bdivide_up_nonneg)
  moreover from this have "ChunkBuffer2_Init m blocks mtu = Some ?b"
    using cb_wf_assert_io d \<open>0 < blocks\<close> assms
    by (simp add: ChunkBuffer2_Init_def ChunkBuffer2_assert_buffer_def ChunkBuffer2_update_input_def
        ChunkBuffer2_end_def ChunkBuffer2_update_output_def Let_def del: bdivide_up_nonneg)
  ultimately show ?thesis using that by simp
qed

text \<open>A packet of at most \<open>input_avail\<close> bytes that was written at \<open>input_dest\<close> is
  appended.\<close>

text \<open>Putting a packet's blocks at the end of the data.\<close>

lemma cb_lay_extend:
  assumes lay: "cb_lay buf ps qs" and free: "blk p \<le> cb_free buf"
    and p: "load_int (cb_buffer buf) (4 * ChunkBuffer2_end buf) = int (length p)"
      "load (cb_buffer buf) (4 * (ChunkBuffer2_end buf + 1)) (length p) = p"
  defines "e \<equiv> ChunkBuffer2_end buf + blk p"
  defines "used \<equiv> cb_used buf + blk p"
  defines "buf' \<equiv> (if used \<le> cb_wrap buf - cb_start buf \<and> cb_mtu buf > cb_size buf - e - 1
                   then buf\<lparr>cb_used := used, cb_wrap := e\<rparr> else buf\<lparr>cb_used := used\<rparr>)"
  obtains ps' qs' where "cb_lay buf' ps' qs'" "ps' @ qs' = ps @ qs @ [p]"
proof (cases "cb_used buf < cb_wrap buf - cb_start buf")
  case True
  then have "cb_lay buf' (ps @ [p]) []"
    using lay free p blk_bounds(1) [of p] blks_nonneg [of ps]
    by (auto simp: cb_lay_def cb_free_def ChunkBuffer2_end_def buf'_def e_def used_def add.assoc)
  moreover have "qs = []" using True lay by (simp add: cb_lay_def)
  ultimately show ?thesis using that [of "ps @ [p]" "[]"] by simp
next
  case False
  then have "cb_lay buf' ps (qs @ [p])"
    using lay free p blk_bounds(1) [of p] blks_nonneg [of ps] blks_nonneg [of qs]
    by (auto simp: cb_lay_def cb_free_def ChunkBuffer2_end_def buf'_def e_def used_def add.assoc)
  then show ?thesis using that [of ps "qs @ [p]"] by simp
qed

text \<open>A packet of at most \<open>input_avail\<close> bytes that was written at \<open>input_dest\<close> is
  appended, and no assertion fails.\<close>

lemma cb_wf_finish:
  assumes "cb_lay buf ps qs" "cb_in_ok buf" "cb_out_ok buf"
  shows "cb_wf buf ps qs" "ChunkBuffer2_assert_io buf"
  using assms cb_wf_assert_io [of buf ps qs] by (auto simp: cb_wf_def)

lemma Submit_eq:
  assumes "ChunkBuffer2_assert_io b1" "ChunkBuffer2_assert_buffer b3"
    "(if cb_used (ChunkBuffer2_update_input b3) = blk p
      then ChunkBuffer2_update_output (ChunkBuffer2_update_input b3)
      else Some (ChunkBuffer2_update_input b3)) = Some b5" "ChunkBuffer2_assert_io b5"
    "ChunkBuffer2_assert_buffer b1" "cb_input_dest b1 \<noteq> None" "int (length p) \<le> cb_input_avail b1"
    "blk p \<le> cb_size b1 - ChunkBuffer2_end b1"
    "cb_used b1 < cb_wrap b1 - cb_start b1 \<or> blk p \<le> cb_start b1 - ChunkBuffer2_end b1"
    "b3 = (let b2 = b1\<lparr>cb_buffer := store_int (cb_buffer b1) (4 * ChunkBuffer2_end b1) (int (length p)),
                      cb_used := cb_used b1 + blk p\<rparr> in
           if cb_used b2 \<le> cb_wrap b2 - cb_start b2 \<and>
              cb_mtu b2 > cb_size b2 - (ChunkBuffer2_end b1 + blk p) - 1
           then b2\<lparr>cb_wrap := ChunkBuffer2_end b1 + blk p\<rparr> else b2)"
  shows "ChunkBuffer2_SubmitPacket b1 (int (length p)) = Some b5"
proof -
  have blk: "1 + bdivide_up (int (length p)) 4 = blk p" "\<And>x. x + 1 + bdivide_up (int (length p)) 4 = x + blk p"
    "\<And>x. (bdivide_up (int (length p)) 4 \<le> x - 1) = (blk p \<le> x)"
    by (auto simp: blk_def)
  have "0 \<le> int (length p)" by simp
  then show ?thesis
    using assms(1-9) unfolding assms(10) ChunkBuffer2_SubmitPacket_def Let_def blk bind_assert
      bind_eq_Some_conv option.inject assert_that_simps
    by blast
qed

lemma cb_wf_Submit:
  assumes wf: "cb_wf buf ps qs" and dest: "cb_input_dest buf = Some d"
    and len: "int (length p) \<le> cb_input_avail buf"
  obtains buf' ps' qs' where
    "ChunkBuffer2_SubmitPacket (buf\<lparr>cb_buffer := store (cb_buffer buf) d p\<rparr>) (int (length p)) =
       Some buf'"
    "cb_wf buf' ps' qs'" "ps' @ qs' = ps @ qs @ [p]" "cb_size buf' = cb_size buf"
    "cb_mtu buf' = cb_mtu buf"
proof -
  let ?e = "ChunkBuffer2_end buf" and ?l = "int (length p)"
  have lay: "cb_lay buf ps qs" using wf by (simp add: cb_wf_def)
  have in_ok: "cb_free buf > 0" "d = 4 * (?e + 1)" "cb_input_avail buf = 4 * (cb_free buf - 1)"
    using cb_wf_input [OF wf] dest by (auto split: if_splits)
  have blk: "blk p \<le> cb_free buf"
    using len in_ok bdivide_up_le [of ?l "cb_free buf - 1"] by (simp add: blk_def)
  have l: "?l \<le> INT_MAX"
    using len in_ok(3) lay cb_end_bounds [OF lay] by (simp add: cb_lay_def)
  define b1 where "b1 = buf\<lparr>cb_buffer := store (cb_buffer buf) d p\<rparr>"
  have e1: "ChunkBuffer2_end b1 = ?e" "cb_free b1 = cb_free buf"
    by (simp_all add: b1_def ChunkBuffer2_end_def cb_free_def)
  have wf1: "cb_wf b1 ps qs"
    unfolding b1_def using in_ok len by (intro cb_wf_write_free wf) auto
  define b2 where "b2 = b1\<lparr>cb_buffer := store_int (cb_buffer b1) (4 * ?e) ?l\<rparr>"
  have e2: "ChunkBuffer2_end b2 = ?e" "cb_free b2 = cb_free buf"
    by (simp_all add: b2_def b1_def ChunkBuffer2_end_def cb_free_def)
  have wf2: "cb_wf b2 ps qs"
    unfolding b2_def store_int_def using in_ok(1) e1 by (intro cb_wf_write_free wf1) auto
  have p: "load_int (cb_buffer b2) (4 * ?e) = ?l" "load (cb_buffer b2) (4 * (?e + 1)) (length p) = p"
    using l by (simp_all add: b2_def b1_def in_ok(2)) (simp add: store_int_def load_store_other)
  have lay2: "cb_lay b2 ps qs" using wf2 by (simp add: cb_wf_def)
  obtain b3 ps' qs' where b3: "b3 = (if cb_used b2 + blk p \<le> cb_wrap b2 - cb_start b2 \<and>
        cb_mtu b2 > cb_size b2 - (?e + blk p) - 1
      then b2\<lparr>cb_used := cb_used b2 + blk p, cb_wrap := ?e + blk p\<rparr>
      else b2\<lparr>cb_used := cb_used b2 + blk p\<rparr>)"
    and lay3: "cb_lay b3 ps' qs'" and app: "ps' @ qs' = ps @ qs @ [p]"
    using cb_lay_extend [OF lay2, unfolded e2, OF blk p] by blast
  define b4 where "b4 = ChunkBuffer2_update_input b3"
  have lay4: "cb_lay b4 ps' qs'" and in4: "cb_in_ok b4"
    unfolding b4_def using cb_lay_update [OF lay3] by auto
  have used4: "cb_used b4 = cb_used b2 + blk p" "cb_size b4 = cb_size buf" "cb_mtu b4 = cb_mtu buf"
    by (simp_all add: b4_def b3 b2_def b1_def)
  have out4: "cb_out_ok b4" if "cb_used b2 \<noteq> 0"
    using that wf2 used4 cb_lay_first_part(2) [OF lay2] blk_bounds(1) [of p] blks_nonneg [of ps]
      cb_lay_first_part(3) [OF lay2]
    by (auto simp: cb_wf_def cb_out_ok_def b4_def b3)
  obtain b5 where b5: "(if cb_used b4 = blk p then ChunkBuffer2_update_output b4 else Some b4) = Some b5"
    and wf5: "cb_lay b5 ps' qs'" "cb_in_ok b5" "cb_out_ok b5" "cb_size b5 = cb_size buf" "cb_mtu b5 = cb_mtu buf"
    using cb_lay_update(3) [OF lay4] lay4 in4 out4 used4 by (cases "cb_used b2 = 0") auto
  have "ChunkBuffer2_SubmitPacket b1 ?l = Some b5"
  proof (rule Submit_eq [OF cb_wf_assert_io [OF wf1] cb_lay_assert_buffer [OF lay3]
        b5 [unfolded b4_def] cb_wf_finish(2) [OF wf5(1-3)]])
    show "ChunkBuffer2_assert_buffer b1"
      using wf1 by (auto simp: cb_wf_def intro: cb_lay_assert_buffer)
    show "cb_input_dest b1 \<noteq> None" "?l \<le> cb_input_avail b1" using dest len by (simp_all add: b1_def)
    show "blk p \<le> cb_size b1 - ChunkBuffer2_end b1"
      using blk cb_end_bounds(3) [OF lay] e1 by (simp add: b1_def)
    show "cb_used b1 < cb_wrap b1 - cb_start b1 \<or> blk p \<le> cb_start b1 - ChunkBuffer2_end b1"
      using blk by (auto simp: b1_def cb_free_def ChunkBuffer2_end_def)
  qed (simp add: b3 b2_def e1 Let_def)
  then show ?thesis using that cb_wf_finish(1) [OF wf5(1-3)] wf5(4,5) app by (simp add: b1_def)
qed

text \<open>Dropping the first packet's blocks.\<close>

lemma cb_lay_drop:
  assumes lay: "cb_lay buf (p # ps) qs"
  defines "b1 \<equiv> buf\<lparr>cb_start := cb_start buf + blk p, cb_used := cb_used buf - blk p\<rparr>"
  defines "b2 \<equiv> (if cb_start b1 = cb_wrap b1 then b1\<lparr>cb_start := 0, cb_wrap := cb_size b1\<rparr> else b1)"
  obtains ps' qs' where "cb_lay b2 ps' qs'" "ps' @ qs' = ps @ qs"
    "cb_used buf < cb_wrap buf - cb_start buf \<Longrightarrow> cb_in_ok b2 = cb_in_ok buf"
    "ChunkBuffer2_end b2 = ChunkBuffer2_end buf" "cb_free buf \<le> cb_free b2"
proof (cases "cb_used buf < cb_wrap buf - cb_start buf")
  case True
  then have "cb_lay b2 ps []"
    using lay blk_bounds(1) [of p] blks_nonneg [of ps]
    by (auto simp: cb_lay_def b2_def b1_def)
  moreover have "qs = []" using True lay by (simp add: cb_lay_def)
  moreover have "cb_in_ok b2 = cb_in_ok buf"
    using True lay blk_bounds(1) [of p] blks_nonneg [of ps]
    by (auto simp: cb_lay_def cb_in_ok_def b2_def b1_def ChunkBuffer2_end_def Let_def)
  moreover have "ChunkBuffer2_end b2 = ChunkBuffer2_end buf" "cb_free buf \<le> cb_free b2"
    using True lay blk_bounds(1) [of p] blks_nonneg [of ps]
    by (auto simp: cb_lay_def b2_def b1_def ChunkBuffer2_end_def cb_free_def)
  ultimately show ?thesis using that [of ps "[]"] by simp
next
  case False
  show ?thesis
  proof (cases "ps = []")
    case True
    then have "cb_lay b2 qs []"
      using False lay blk_bounds(1) [of p] blks_nonneg [of qs]
      by (auto simp: cb_lay_def b2_def b1_def)
    moreover have "ChunkBuffer2_end b2 = ChunkBuffer2_end buf" "cb_free buf \<le> cb_free b2"
      using True False lay blk_bounds(1) [of p] blks_nonneg [of qs]
      by (auto simp: cb_lay_def b2_def b1_def ChunkBuffer2_end_def cb_free_def)
    ultimately show ?thesis using that [of qs "[]"] True False by simp
  next
    case n: False
    then obtain r rs where r: "ps = r # rs" by (cases ps) auto
    have "cb_lay b2 ps qs"
      using False lay n blk_bounds(1) [of p] blk_bounds(1) [of r] blks_nonneg [of rs] blks_nonneg [of qs]
      by (auto simp: cb_lay_def b2_def b1_def r)
    moreover have "ChunkBuffer2_end b2 = ChunkBuffer2_end buf" "cb_free buf \<le> cb_free b2"
      using False lay n blk_bounds(1) [of p] blk_bounds(1) [of r] blks_nonneg [of rs] blks_nonneg [of qs]
      by (auto simp: cb_lay_def b2_def b1_def r ChunkBuffer2_end_def cb_free_def)
    ultimately show ?thesis using that [of ps qs] False by simp
  qed
qed

lemma Consume_eq:
  assumes "ChunkBuffer2_assert_io buf" "ChunkBuffer2_assert_buffer buf" "cb_output_dest buf \<noteq> None"
    "bdivide_up (load_int (cb_buffer buf) (4 * cb_start buf)) 4 = blk p - 1"
    "1 \<le> blk p" "blk p \<le> cb_wrap buf - cb_start buf" "blk p \<le> cb_used buf"
    "b2 = (let b1 = buf\<lparr>cb_start := cb_start buf + blk p, cb_used := cb_used buf - blk p\<rparr> in
           if cb_start b1 = cb_wrap b1 then b1\<lparr>cb_start := 0, cb_wrap := cb_size b1\<rparr> else b1)"
    "ChunkBuffer2_assert_buffer b2"
    "ChunkBuffer2_update_output
       (if cb_used buf \<ge> cb_wrap buf - cb_start buf then ChunkBuffer2_update_input b2 else b2) =
     Some b3"
    "ChunkBuffer2_assert_io b3"
  shows "ChunkBuffer2_ConsumePacket buf = Some b3"
proof -
  have blk: "1 + (blk p - 1) = blk p" "\<And>x. (blk p - 1 \<le> x - 1) = (blk p \<le> x)" by auto
  have "1 \<le> cb_wrap buf - cb_start buf" "1 \<le> cb_used buf" using assms by linarith+
  then show ?thesis
    using assms(1-3,5-7,9-11) unfolding assms(8) ChunkBuffer2_ConsumePacket_def Let_def assms(4) blk
      bind_assert bind_eq_Some_conv option.inject assert_that_simps
    by blast
qed

text \<open>The first packet is removed, and no assertion fails.\<close>

lemma cb_wf_Consume:
  assumes wf: "cb_wf buf (p # ps) qs"
  obtains buf' ps' qs' where "ChunkBuffer2_ConsumePacket buf = Some buf'"
    "cb_wf buf' ps' qs'" "ps' @ qs' = ps @ qs" "cb_size buf' = cb_size buf" "cb_mtu buf' = cb_mtu buf"
    "ChunkBuffer2_end buf' = ChunkBuffer2_end buf" "cb_free buf \<le> cb_free buf'"
proof -
  have lay: "cb_lay buf (p # ps) qs" and ok: "cb_in_ok buf" "cb_out_ok buf"
    using wf by (auto simp: cb_wf_def)
  obtain b2 ps' qs' where b2: "b2 = (let b1 = buf\<lparr>cb_start := cb_start buf + blk p,
        cb_used := cb_used buf - blk p\<rparr> in
      if cb_start b1 = cb_wrap b1 then b1\<lparr>cb_start := 0, cb_wrap := cb_size b1\<rparr> else b1)"
    and lay2: "cb_lay b2 ps' qs'" and app: "ps' @ qs' = ps @ qs"
    and in2: "cb_used buf < cb_wrap buf - cb_start buf \<Longrightarrow> cb_in_ok b2 = cb_in_ok buf"
    and e2: "ChunkBuffer2_end b2 = ChunkBuffer2_end buf" "cb_free buf \<le> cb_free b2"
    using cb_lay_drop [OF lay] unfolding Let_def by blast
  have size2: "cb_size b2 = cb_size buf" "cb_mtu b2 = cb_mtu buf" by (simp_all add: b2 Let_def)
  define b3 where "b3 = (if cb_used buf \<ge> cb_wrap buf - cb_start buf
    then ChunkBuffer2_update_input b2 else b2)"
  have lay3: "cb_lay b3 ps' qs'" "cb_in_ok b3" "cb_size b3 = cb_size buf" "cb_mtu b3 = cb_mtu buf"
    "ChunkBuffer2_end b3 = ChunkBuffer2_end buf" "cb_free buf \<le> cb_free b3"
    using lay2 in2 ok(1) cb_lay_update(1,2,4,5) [OF lay2] size2 e2 by (auto simp: b3_def)
  then obtain b4 where b4: "ChunkBuffer2_update_output b3 = Some b4" "cb_lay b4 ps' qs'"
    "cb_in_ok b4" "cb_out_ok b4" "cb_size b4 = cb_size buf" "cb_mtu b4 = cb_mtu buf"
    "ChunkBuffer2_end b4 = ChunkBuffer2_end buf" "cb_free buf \<le> cb_free b4"
    using cb_lay_update(3) [OF lay3(1)] by auto
  have "ChunkBuffer2_ConsumePacket buf = Some b4"
  proof (rule Consume_eq [OF cb_wf_assert_io [OF wf] cb_lay_assert_buffer [OF lay] _ _ _ _ _ b2
        cb_lay_assert_buffer [OF lay2] b4(1) [unfolded b3_def] cb_wf_finish(2) [OF b4(2-4)]])
    show "cb_output_dest buf \<noteq> None" using cb_wf_output [OF wf] by auto
    show "bdivide_up (load_int (cb_buffer buf) (4 * cb_start buf)) 4 = blk p - 1"
      using cb_lay_first_part(1) [OF lay] by (rule stored_first(2))
    show "blk p \<le> cb_wrap buf - cb_start buf" "blk p \<le> cb_used buf"
      using cb_lay_first_part(3,4) [OF lay] blks_nonneg [of ps] by auto
  qed (rule blk_bounds(1))
  then show ?thesis using that cb_wf_finish(1) [OF b4(2-4)] b4 app by blast
qed

text \<open>An input the producer may already have been given stays where it is.\<close>

lemma cb_input_stable:
  assumes "cb_wf buf ps qs" "cb_wf buf' ps' qs'" "cb_input_avail buf \<ge> 0"
    "ChunkBuffer2_end buf' = ChunkBuffer2_end buf" "cb_free buf \<le> cb_free buf'"
  shows "cb_input_dest buf' = cb_input_dest buf" "cb_input_avail buf \<le> cb_input_avail buf'"
  using assms cb_wf_input [OF assms(1)] cb_wf_input [OF assms(2)] by (auto split: if_splits)

text \<open>A buffer of \<open>calc_blocks\<close> size takes a packet of the MTU as long as it holds fewer
  packets than asked for, however they lie around the wrap.\<close>

lemma blks_le: "\<forall>p \<in> set ps. int (length p) \<le> 4 * k \<Longrightarrow> blks ps \<le> int (length ps) * (1 + k)"
proof (induction ps)
  case (Cons p ps)
  then have "blk p \<le> 1 + k" by (simp add: blk_def bdivide_up_le)
  with Cons show ?case by (simp add: algebra_simps)
qed simp

lemma cb_capacity:
  assumes wf: "cb_wf buf ps qs" and "\<forall>p \<in> set (ps @ qs). int (length p) \<le> 4 * cb_mtu buf"
    and size: "cb_size buf = (1 + cb_mtu buf) * (num + 1)" and num: "int (length (ps @ qs)) < num"
  shows "4 * cb_mtu buf \<le> cb_input_avail buf"
proof -
  have lay: "cb_lay buf ps qs" using wf by (simp add: cb_wf_def)
  have "cb_mtu buf + 1 \<le> cb_free buf"
  proof (cases "cb_used buf < cb_wrap buf - cb_start buf")
    case True
    then show ?thesis using lay by (auto simp: cb_lay_def cb_free_def)
  next
    case False
    then have "cb_used buf = blks (ps @ qs)" "cb_size buf - cb_mtu buf \<le> cb_wrap buf" "0 \<le> cb_mtu buf"
      using lay by (auto simp: cb_lay_def)
    moreover have "blks (ps @ qs) \<le> int (length (ps @ qs)) * (1 + cb_mtu buf)"
      using assms(2) by (rule blks_le)
    moreover have "int (length (ps @ qs)) * (1 + cb_mtu buf) \<le> (num - 1) * (1 + cb_mtu buf)"
      using num \<open>0 \<le> cb_mtu buf\<close> by (intro mult_right_mono) auto
    ultimately have "cb_used buf \<le> (num - 1) * (1 + cb_mtu buf)" by linarith
    then show ?thesis using False size \<open>cb_size buf - cb_mtu buf \<le> cb_wrap buf\<close>
      by (auto simp: cb_free_def algebra_simps)
  qed
  then show ?thesis using cb_wf_input [OF wf] lay by (auto simp: cb_lay_def split: if_splits)
qed

section \<open>The buffer as a queue of packets\<close>

text \<open>The contents, read off the memory, and the contract of a packet queue, which the packet
  buffer relies on.\<close>

function parse_chunks :: "memory \<Rightarrow> int \<Rightarrow> nat \<Rightarrow> byte list list" where
  "parse_chunks m a n =
     (if n = 0 then []
      else let p = load m (4 * (a + 1)) (nat (load_int m (4 * a))) in
           p # parse_chunks m (a + blk p) (n - nat (blk p)))"
  by pat_completeness auto

termination parse_chunks
  by (relation "measure (\<lambda>(m, a, n). n)") (auto simp: blk_pos)

declare parse_chunks.simps [simp del]

definition cb_contents :: "chunk_buffer \<Rightarrow> byte list list" where
  "cb_contents buf =
     (if cb_used buf < cb_wrap buf - cb_start buf
      then parse_chunks (cb_buffer buf) (cb_start buf) (nat (cb_used buf))
      else parse_chunks (cb_buffer buf) (cb_start buf) (nat (cb_wrap buf - cb_start buf)) @
           parse_chunks (cb_buffer buf) 0 (nat (cb_used buf - (cb_wrap buf - cb_start buf))))"

lemma parse_stored: "stored m lim a ps \<Longrightarrow> parse_chunks m a (nat (blks ps)) = ps"
proof (induction ps arbitrary: a)
  case Nil
  then show ?case by (simp add: parse_chunks.simps)
next
  case (Cons p ps)
  have b: "1 \<le> blk p" "0 \<le> blks ps" using blk_bounds(1) blks_nonneg by auto
  then have "nat (blk p + blks ps) - nat (blk p) = nat (blks ps)" "nat (blk p + blks ps) \<noteq> 0"
    by (simp_all add: nat_add_distrib)
  then show ?case using Cons b by (subst parse_chunks.simps) (simp add: Let_def)
qed

lemma cb_contents_eq: "cb_wf buf ps qs \<Longrightarrow> cb_contents buf = ps @ qs"
proof -
  assume "cb_wf buf ps qs"
  then have lay: "cb_lay buf ps qs" by (simp add: cb_wf_def)
  let ?m = "cb_buffer buf" and ?lim = "cb_size buf - 1 - cb_mtu buf"
  have "parse_chunks ?m (cb_start buf) (nat (blks ps)) = ps" "parse_chunks ?m 0 (nat (blks qs)) = qs"
    using lay by (auto simp: cb_lay_def intro: parse_stored [of _ ?lim])
  then show ?thesis using lay by (auto simp: cb_contents_def cb_lay_def split: if_splits)
qed

definition cb_ok :: "chunk_buffer \<Rightarrow> bool" where
  "cb_ok buf \<longleftrightarrow> (\<exists>ps qs. cb_wf buf ps qs)"

text \<open>The neighbour's write at \<open>input_dest\<close> followed by the submission of its length, and
  the packet the output fields point to.\<close>

definition cb_put :: "chunk_buffer \<Rightarrow> byte list \<Rightarrow> chunk_buffer option" where
  "cb_put buf p =
     (case cb_input_dest buf of None \<Rightarrow> None
      | Some d \<Rightarrow> ChunkBuffer2_SubmitPacket (buf\<lparr>cb_buffer := store (cb_buffer buf) d p\<rparr>) (int (length p)))"

definition cb_first :: "chunk_buffer \<Rightarrow> byte list option" where
  "cb_first buf =
     (case cb_output_dest buf of None \<Rightarrow> None
      | Some d \<Rightarrow> Some (load (cb_buffer buf) d (nat (cb_output_avail buf))))"

datatype queue_op = Put "byte list" | Get

fun queue_run ::
  "('q \<Rightarrow> byte list \<Rightarrow> 'q option) \<Rightarrow> ('q \<Rightarrow> byte list option) \<Rightarrow> ('q \<Rightarrow> 'q option) \<Rightarrow> 'q \<Rightarrow>
   queue_op list \<Rightarrow> ('q \<times> byte list list) option" where
  "queue_run put peek pop q [] = Some (q, [])"
| "queue_run put peek pop q (Put p # os) = do {
     q1 \<leftarrow> put q p;
     queue_run put peek pop q1 os
   }"
| "queue_run put peek pop q (Get # os) = do {
     p \<leftarrow> peek q;
     q1 \<leftarrow> pop q;
     (q2, out) \<leftarrow> queue_run put peek pop q1 os;
     Some (q2, p # out)
   }"

fun queue_ops_fit :: "('q \<Rightarrow> byte list \<Rightarrow> 'q option) \<Rightarrow> ('q \<Rightarrow> byte list option) \<Rightarrow> ('q \<Rightarrow> 'q option) \<Rightarrow>
   ('q \<Rightarrow> int) \<Rightarrow> 'q \<Rightarrow> queue_op list \<Rightarrow> bool" where
  "queue_ops_fit put peek pop room q [] = True"
| "queue_ops_fit put peek pop room q (Put p # os) =
     (int (length p) \<le> room q \<and> (case put q p of None \<Rightarrow> True | Some q1 \<Rightarrow> queue_ops_fit put peek pop room q1 os))"
| "queue_ops_fit put peek pop room q (Get # os) =
     (peek q \<noteq> None \<and> (case pop q of None \<Rightarrow> True | Some q1 \<Rightarrow> queue_ops_fit put peek pop room q1 os))"

fun puts :: "queue_op list \<Rightarrow> byte list list" where
  "puts [] = []"
| "puts (Put p # os) = p # puts os"
| "puts (Get # os) = puts os"

locale packet_queue =
  fixes inv :: "'q \<Rightarrow> bool"
    and contents :: "'q \<Rightarrow> byte list list"
    and room :: "'q \<Rightarrow> int"
    and put :: "'q \<Rightarrow> byte list \<Rightarrow> 'q option"
    and peek :: "'q \<Rightarrow> byte list option"
    and pop :: "'q \<Rightarrow> 'q option"
  assumes put_ok: "inv q \<Longrightarrow> int (length p) \<le> room q \<Longrightarrow>
      \<exists>q'. put q p = Some q' \<and> inv q' \<and> contents q' = contents q @ [p]"
    and peek_ok: "inv q \<Longrightarrow> peek q = (case contents q of [] \<Rightarrow> None | p # _ \<Rightarrow> Some p)"
    and pop_ok: "inv q \<Longrightarrow> contents q = p # ps \<Longrightarrow>
      \<exists>q'. pop q = Some q' \<and> inv q' \<and> contents q' = ps"
begin

text \<open>Whatever the interleaving of insertions that fit and removals from a non-empty queue, no
  operation fails and the packets come out as they went in.\<close>

lemma fifo:
  "inv q \<Longrightarrow> queue_ops_fit put peek pop room q os \<Longrightarrow>
   \<exists>q' out. queue_run put peek pop q os = Some (q', out) \<and> inv q' \<and>
     contents q @ puts os = out @ contents q'"
proof (induction os arbitrary: q)
  case Nil
  then show ?case by simp
next
  case (Cons x os)
  show ?case
  proof (cases x)
    case (Put p)
    with Cons.prems obtain q1 where q1: "put q p = Some q1" "inv q1" "contents q1 = contents q @ [p]"
      using put_ok [of q p] by auto
    with Put Cons.prems have "queue_ops_fit put peek pop room q1 os" by simp
    then show ?thesis using Cons.IH [of q1] q1 Put by auto
  next
    case Get
    with Cons.prems obtain p ps where p: "contents q = p # ps"
      using peek_ok [of q] by (auto split: list.splits)
    with Cons.prems obtain q1 where q1: "pop q = Some q1" "inv q1" "contents q1 = ps"
      using pop_ok [of q p ps] by auto
    with Get Cons.prems have "queue_ops_fit put peek pop room q1 os" by simp
    then show ?thesis using Cons.IH [of q1] q1 Get p peek_ok [of q] Cons.prems(1) by fastforce
  qed
qed

end

interpretation chunks: packet_queue cb_ok cb_contents cb_input_avail cb_put cb_first ChunkBuffer2_ConsumePacket
proof unfold_locales
  fix q and p :: "byte list"
  assume "cb_ok q" and fits: "int (length p) \<le> cb_input_avail q"
  then obtain ps qs where wf: "cb_wf q ps qs" by (auto simp: cb_ok_def)
  with fits obtain d where d: "cb_input_dest q = Some d"
    using cb_wf_input [OF wf] by (auto split: if_splits)
  show "\<exists>q'. cb_put q p = Some q' \<and> cb_ok q' \<and> cb_contents q' = cb_contents q @ [p]"
    by (rule cb_wf_Submit [OF wf d fits])
      (auto simp: cb_put_def d cb_ok_def cb_contents_eq [OF wf] dest: cb_contents_eq)
next
  fix q
  assume "cb_ok q"
  then obtain ps qs where wf: "cb_wf q ps qs" by (auto simp: cb_ok_def)
  then show "cb_first q = (case cb_contents q of [] \<Rightarrow> None | p # _ \<Rightarrow> Some p)"
    using cb_wf_output [OF wf] cb_contents_eq [OF wf] by (auto simp: cb_first_def split: list.splits)
next
  fix q p rs
  assume "cb_ok q" and c: "cb_contents q = p # rs"
  then obtain ps qs where wf: "cb_wf q ps qs" by (auto simp: cb_ok_def)
  with c obtain ps1 where ps: "ps = p # ps1" "rs = ps1 @ qs"
    using cb_wf_output [OF wf] cb_contents_eq [OF wf] by (cases ps) auto
  show "\<exists>q'. ChunkBuffer2_ConsumePacket q = Some q' \<and> cb_ok q' \<and> cb_contents q' = rs"
    by (rule cb_wf_Consume [OF wf [unfolded ps(1)]])
      (auto simp: cb_ok_def ps(2) dest: cb_contents_eq)
qed

end
