(* ===== verification/Packet_Buffer.thy ===== *)
theory Packet_Buffer
  imports Chunk_Buffer
begin

text \<open>
  PacketBuffer (flow/PacketBuffer.c): a ChunkBuffer2 between a packet source and a packet sink.
  Each neighbour is seen through its interface: whether an operation is in progress on it and,
  for the source, where the packet is to be written. Starting an operation while one is in
  progress is what the interfaces assert against.
\<close>

record packet_buffer =
  pb_input_mtu :: int
  pb_output_mtu :: int
  pb_buf :: chunk_buffer
  pb_receiving :: bool
  pb_recv_dest :: "int option"
  pb_sending :: bool

text \<open>\<open>PacketRecvInterface_Receiver_Recv(buf->input, buf->buf.input_dest)\<close> and
  \<open>PacketPassInterface_Sender_Send(buf->output, buf->buf.output_dest, buf->buf.output_avail)\<close>,
  the latter with the packet the sink is given.\<close>

definition pb_recv :: "packet_buffer \<Rightarrow> packet_buffer option" where
  "pb_recv pb = do {
     let dest = cb_input_dest (pb_buf pb);
     assert_that (\<not> (pb_input_mtu pb > 0) \<or> dest \<noteq> None);
     assert_that (\<not> pb_receiving pb);
     Some (pb\<lparr>pb_receiving := True, pb_recv_dest := dest\<rparr>)
   }"

definition pb_send :: "packet_buffer \<Rightarrow> (packet_buffer \<times> byte list list) option" where
  "pb_send pb = do {
     let len = cb_output_avail (pb_buf pb);
     assert_that (len \<ge> 0);
     assert_that (len \<le> pb_output_mtu pb);
     assert_that (\<not> (len > 0) \<or> cb_output_dest (pb_buf pb) \<noteq> None);
     assert_that (\<not> pb_sending pb);
     data \<leftarrow> (case cb_output_dest (pb_buf pb) of None \<Rightarrow> Some []
              | Some d \<Rightarrow> Some (load (cb_buffer (pb_buf pb)) d (nat len)));
     Some (pb\<lparr>pb_sending := True\<rparr>, [data])
   }"

definition input_handler_done :: "packet_buffer \<Rightarrow> int \<Rightarrow> (packet_buffer \<times> byte list list) option" where
  "input_handler_done pb in_len = do {
     assert_that (in_len \<ge> 0);
     assert_that (in_len \<le> pb_input_mtu pb);
     let was_empty = (cb_output_avail (pb_buf pb) < 0);
     b \<leftarrow> ChunkBuffer2_SubmitPacket (pb_buf pb) in_len;
     let pb = pb\<lparr>pb_buf := b\<rparr>;
     pb \<leftarrow> (if cb_input_avail (pb_buf pb) \<ge> pb_input_mtu pb then pb_recv pb else Some pb);
     if was_empty then pb_send pb else Some (pb, [])
   }"

definition output_handler_done :: "packet_buffer \<Rightarrow> (packet_buffer \<times> byte list list) option" where
  "output_handler_done pb = do {
     let was_full = (cb_input_avail (pb_buf pb) < pb_input_mtu pb);
     b \<leftarrow> ChunkBuffer2_ConsumePacket (pb_buf pb);
     let pb = pb\<lparr>pb_buf := b\<rparr>;
     pb \<leftarrow> (if was_full \<and> cb_input_avail (pb_buf pb) \<ge> pb_input_mtu pb then pb_recv pb else Some pb);
     if cb_output_avail (pb_buf pb) \<ge> 0 then pb_send pb else Some (pb, [])
   }"

text \<open>\<open>alloc\<close> is the result of \<open>BAllocArray\<close>. The outer option is the assertions, the
  inner one the return value 0.\<close>

definition PacketBuffer_Init ::
  "int \<Rightarrow> int \<Rightarrow> int \<Rightarrow> memory option \<Rightarrow> packet_buffer option option" where
  "PacketBuffer_Init input_mtu output_mtu num_packets alloc = do {
     assert_that (output_mtu \<ge> input_mtu);
     assert_that (num_packets > 0);
     let num_blocks = ChunkBuffer2_calc_blocks input_mtu num_packets;
     if num_blocks < 0 then Some None else
     case alloc of None \<Rightarrow> Some None
     | Some buf_data \<Rightarrow> do {
         b \<leftarrow> ChunkBuffer2_Init buf_data num_blocks input_mtu;
         pb \<leftarrow> pb_recv \<lparr>pb_input_mtu = input_mtu, pb_output_mtu = output_mtu, pb_buf = b,
                        pb_receiving = False, pb_recv_dest = None, pb_sending = False\<rparr>;
         Some (Some pb)
       }
   }"

section \<open>The buffer between its neighbours\<close>

text \<open>The source completes a receive by writing a packet where it was told to and reporting its
  length; the sink completes a send.\<close>

datatype pb_event = Input_done "byte list" | Output_done

definition pb_step :: "packet_buffer \<Rightarrow> pb_event \<Rightarrow> (packet_buffer \<times> byte list list) option" where
  "pb_step pb e = (case e of
     Input_done p \<Rightarrow>
       let m = (case pb_recv_dest pb of None \<Rightarrow> cb_buffer (pb_buf pb)
                | Some d \<Rightarrow> store (cb_buffer (pb_buf pb)) d p) in
       input_handler_done
         (pb\<lparr>pb_receiving := False, pb_buf := (pb_buf pb)\<lparr>cb_buffer := m\<rparr>\<rparr>) (int (length p))
   | Output_done \<Rightarrow> output_handler_done (pb\<lparr>pb_sending := False\<rparr>))"

definition pb_contract :: "packet_buffer \<Rightarrow> pb_event \<Rightarrow> bool" where
  "pb_contract pb e = (case e of
     Input_done p \<Rightarrow> pb_receiving pb \<and> int (length p) \<le> pb_input_mtu pb
   | Output_done \<Rightarrow> pb_sending pb)"

definition pb_inv :: "packet_buffer \<Rightarrow> bool" where
  "pb_inv pb \<longleftrightarrow> cb_ok (pb_buf pb) \<and> 0 \<le> pb_input_mtu pb \<and> pb_input_mtu pb \<le> pb_output_mtu pb \<and>
     (\<forall>p \<in> set (cb_contents (pb_buf pb)). int (length p) \<le> pb_input_mtu pb) \<and>
     pb_receiving pb = (pb_input_mtu pb \<le> cb_input_avail (pb_buf pb)) \<and>
     (pb_receiving pb \<longrightarrow> pb_recv_dest pb = cb_input_dest (pb_buf pb)) \<and>
     pb_sending pb = (cb_contents (pb_buf pb) \<noteq> [])"

lemma cb_ok_output:
  assumes "cb_ok b"
  shows "(cb_output_avail b < 0) = (cb_contents b = [])"
    "cb_contents b = p # ps \<Longrightarrow> cb_output_avail b = int (length p) \<and>
       (\<exists>d. cb_output_dest b = Some d \<and> load (cb_buffer b) d (length p) = p)"
proof -
  obtain qs rs where wf: "cb_wf b qs rs" using assms by (auto simp: cb_ok_def)
  note out = cb_wf_output [OF wf] cb_contents_eq [OF wf]
  show "(cb_output_avail b < 0) = (cb_contents b = [])"
    using out by (cases qs) auto
  show "cb_output_avail b = int (length p) \<and>
      (\<exists>d. cb_output_dest b = Some d \<and> load (cb_buffer b) d (length p) = p)"
    if "cb_contents b = p # ps"
    using out that by (cases qs) auto
qed

lemma cb_ok_input:
  assumes "cb_ok b" "0 \<le> cb_input_avail b"
  obtains d where "cb_input_dest b = Some d"
proof -
  obtain qs rs where wf: "cb_wf b qs rs" using assms by (auto simp: cb_ok_def)
  then show ?thesis using cb_wf_input [OF wf] assms(2) that by (auto split: if_splits)
qed

lemma pb_recv_ok:
  assumes "cb_ok (pb_buf pb)" "0 \<le> pb_input_mtu pb" "pb_input_mtu pb \<le> cb_input_avail (pb_buf pb)"
    "\<not> pb_receiving pb"
  shows "pb_recv pb = Some (pb\<lparr>pb_receiving := True, pb_recv_dest := cb_input_dest (pb_buf pb)\<rparr>)"
proof -
  obtain d where "cb_input_dest (pb_buf pb) = Some d" using cb_ok_input assms by (metis order_trans)
  then show ?thesis using assms(4) by (simp add: pb_recv_def)
qed

lemma pb_send_ok:
  assumes "cb_ok (pb_buf pb)" "cb_contents (pb_buf pb) = p # ps" "int (length p) \<le> pb_output_mtu pb"
    "\<not> pb_sending pb"
  shows "pb_send pb = Some (pb\<lparr>pb_sending := True\<rparr>, [p])"
  using cb_ok_output(2) [OF assms(1,2)] assms(3,4) by (auto simp: pb_send_def)

text \<open>The packets the buffer has taken but not yet handed on.\<close>

definition pb_held :: "packet_buffer \<Rightarrow> byte list list" where
  "pb_held pb = tl (cb_contents (pb_buf pb))"

definition pb_ins :: "pb_event \<Rightarrow> byte list list" where
  "pb_ins e = (case e of Input_done p \<Rightarrow> [p] | Output_done \<Rightarrow> [])"

lemma pb_Input_step:
  assumes inv: "pb_inv pb" and c: "pb_contract pb (Input_done p)"
  shows "\<exists>pb' os. pb_step pb (Input_done p) = Some (pb', os) \<and> pb_inv pb' \<and>
    pb_held pb @ pb_ins (Input_done p) = os @ pb_held pb'"
proof -
  let ?b = "pb_buf pb" and ?mtu = "pb_input_mtu pb"
  have ok: "cb_ok ?b" and mtu: "0 \<le> ?mtu" "?mtu \<le> pb_output_mtu pb" "int (length p) \<le> ?mtu"
    and recv: "pb_receiving pb" "?mtu \<le> cb_input_avail ?b" "pb_recv_dest pb = cb_input_dest ?b"
    using inv c by (auto simp: pb_inv_def pb_contract_def)
  obtain d where d: "cb_input_dest ?b = Some d" using cb_ok_input ok mtu recv by (metis order_trans)
  let ?w = "?b\<lparr>cb_buffer := store (cb_buffer ?b) d p\<rparr>"
  obtain b where b: "ChunkBuffer2_SubmitPacket ?w (int (length p)) = Some b" "cb_ok b"
      "cb_contents b = cb_contents ?b @ [p]"
    using chunks.put_ok [OF ok, of p] mtu recv by (auto simp: cb_put_def d)
  define pb1 where "pb1 = pb\<lparr>pb_receiving := False, pb_buf := b\<rparr>"
  define pb2 where "pb2 = (if cb_input_avail b \<ge> ?mtu
    then pb1\<lparr>pb_receiving := True, pb_recv_dest := cb_input_dest b\<rparr> else pb1)"
  have pb2: "(if cb_input_avail b \<ge> ?mtu then pb_recv pb1 else Some pb1) = Some pb2"
    using pb_recv_ok [of pb1] b(2) mtu by (auto simp: pb1_def pb2_def)
  have step: "pb_step pb (Input_done p) =
      (if cb_contents ?b = [] then pb_send pb2 else Some (pb2, []))"
    using b(1) mtu d recv pb2 [unfolded pb1_def] cb_ok_output(1) [OF ok]
    by (simp add: pb_step_def input_handler_done_def Let_def)
  have inv2: "pb_inv (pb2\<lparr>pb_sending := True\<rparr>)"
    using inv b mtu by (auto simp: pb_inv_def pb2_def pb1_def)
  show ?thesis
  proof (cases "cb_contents ?b")
    case Nil
    then have "pb_send pb2 = Some (pb2\<lparr>pb_sending := True\<rparr>, [p])"
      using pb_send_ok [of pb2 p "[]"] b mtu inv by (auto simp: pb_inv_def pb2_def pb1_def)
    then show ?thesis using step Nil inv2 b by (auto simp: pb_held_def pb_ins_def pb2_def pb1_def)
  next
    case (Cons x xs)
    moreover have "pb2\<lparr>pb_sending := True\<rparr> = pb2"
      using inv Cons by (auto simp: pb_inv_def pb2_def pb1_def)
    ultimately show ?thesis using step inv2 b by (auto simp: pb_held_def pb_ins_def pb2_def pb1_def)
  qed
qed

lemma pb_Output_step:
  assumes inv: "pb_inv pb" and c: "pb_contract pb Output_done"
  shows "\<exists>pb' os. pb_step pb Output_done = Some (pb', os) \<and> pb_inv pb' \<and>
    pb_held pb @ pb_ins Output_done = os @ pb_held pb'"
proof -
  let ?b = "pb_buf pb" and ?mtu = "pb_input_mtu pb"
  have ok: "cb_ok ?b" and mtu: "0 \<le> ?mtu" "?mtu \<le> pb_output_mtu pb" and ne: "cb_contents ?b \<noteq> []"
    using inv c by (auto simp: pb_inv_def pb_contract_def)
  obtain qs rs where wf: "cb_wf ?b qs rs" using ok by (auto simp: cb_ok_def)
  then obtain p ps where q: "qs = p # ps" using ne cb_wf_output [OF wf] cb_contents_eq [OF wf] by (cases qs) auto
  obtain b qs' rs' where b: "ChunkBuffer2_ConsumePacket ?b = Some b" "cb_wf b qs' rs'" "qs' @ rs' = ps @ rs"
    "ChunkBuffer2_end b = ChunkBuffer2_end ?b" "cb_free ?b \<le> cb_free b"
    using cb_wf_Consume [OF wf [unfolded q]] by metis
  have cont: "cb_contents ?b = p # cb_contents b" "cb_ok b"
    using b(2,3) cb_contents_eq [OF wf] cb_contents_eq [OF b(2)] q by (auto simp: cb_ok_def)
  have stable: "cb_input_dest b = cb_input_dest ?b" "cb_input_avail ?b \<le> cb_input_avail b"
    if "?mtu \<le> cb_input_avail ?b"
    using cb_input_stable [OF wf b(2)] b(4,5) that mtu by auto
  define pb1 where "pb1 = pb\<lparr>pb_sending := False, pb_buf := b\<rparr>"
  define pb2 where "pb2 = (if cb_input_avail ?b < ?mtu \<and> cb_input_avail b \<ge> ?mtu
    then pb1\<lparr>pb_receiving := True, pb_recv_dest := cb_input_dest b\<rparr> else pb1)"
  have pb2: "(if cb_input_avail ?b < ?mtu \<and> cb_input_avail b \<ge> ?mtu then pb_recv pb1 else Some pb1) = Some pb2"
    using pb_recv_ok [of pb1] cont mtu inv by (auto simp: pb_inv_def pb1_def pb2_def)
  have step: "pb_step pb Output_done = (if cb_contents b = [] then Some (pb2, []) else pb_send pb2)"
    using b(1) pb2 [unfolded pb1_def] cb_ok_output(1) [OF cont(2)]
    by (auto simp: pb_step_def output_handler_done_def Let_def pb2_def pb1_def)
  have inv2: "pb_inv (pb2\<lparr>pb_sending := cb_contents b \<noteq> []\<rparr>)"
    using inv cont stable by (auto simp: pb_inv_def pb2_def pb1_def)
  show ?thesis
  proof (cases "cb_contents b")
    case Nil
    then have "pb2\<lparr>pb_sending := cb_contents b \<noteq> []\<rparr> = pb2" by (simp add: pb2_def pb1_def)
    with inv2 have "pb_inv pb2" by simp
    moreover have "cb_contents (pb_buf pb2) = []" using Nil by (simp add: pb2_def pb1_def)
    ultimately show ?thesis using step Nil cont by (simp add: pb_held_def pb_ins_def)
  next
    case (Cons x xs)
    have "x \<in> set (cb_contents ?b)" using cont Cons by simp
    then have "int (length x) \<le> ?mtu" using inv by (simp add: pb_inv_def)
    then have "pb_send pb2 = Some (pb2\<lparr>pb_sending := True\<rparr>, [x])"
      using cont(2) Cons mtu by (intro pb_send_ok [of pb2 x xs]) (auto simp: pb2_def pb1_def)
    then show ?thesis using step Cons inv2 cont by (auto simp: pb_held_def pb_ins_def pb2_def pb1_def)
  qed
qed

lemma pb_step_ok:
  assumes "pb_inv pb" "pb_contract pb e"
  shows "\<exists>pb' os. pb_step pb e = Some (pb', os) \<and> pb_inv pb' \<and> pb_held pb @ pb_ins e = os @ pb_held pb'"
  using assms pb_Input_step pb_Output_step by (cases e) auto

interpretation pb: safe_machine pb_step pb_contract pb_inv
  using pb_step_ok by unfold_locales blast

text \<open>The size never overflows: the block count is the exact product or the call fails.\<close>

lemma calc_blocks_exact:
  assumes "0 \<le> len" "0 < num" "ChunkBuffer2_calc_blocks len num \<ge> 0"
  shows "ChunkBuffer2_calc_blocks len num = (1 + bdivide_up len 4) * (num + 1)"
    "ChunkBuffer2_calc_blocks len num \<le> INT_MAX"
proof -
  show eq: "ChunkBuffer2_calc_blocks len num = (1 + bdivide_up len 4) * (num + 1)"
    using assms(3) by (auto simp: ChunkBuffer2_calc_blocks_def Let_def split: if_splits)
  have le: "1 + bdivide_up len 4 \<le> INT_MAX div (num + 1)"
    using assms(3) by (auto simp: ChunkBuffer2_calc_blocks_def Let_def split: if_splits)
  have "(1 + bdivide_up len 4) * (num + 1) \<le> INT_MAX div (num + 1) * (num + 1)"
    using le assms(2) by (intro mult_right_mono) auto
  also have "\<dots> \<le> INT_MAX"
    using assms(2) by (simp add: minus_mod_eq_div_mult [symmetric])
  finally show "ChunkBuffer2_calc_blocks len num \<le> INT_MAX" using eq by simp
qed

lemma Submit_keeps_size:
  "ChunkBuffer2_SubmitPacket b len = Some b' \<Longrightarrow> cb_size b' = cb_size b \<and> cb_mtu b' = cb_mtu b"
  by (auto simp: ChunkBuffer2_SubmitPacket_def ChunkBuffer2_update_output_def Let_def
      bind_eq_Some_conv split: if_splits)

lemma Consume_keeps_size:
  "ChunkBuffer2_ConsumePacket b = Some b' \<Longrightarrow> cb_size b' = cb_size b \<and> cb_mtu b' = cb_mtu b"
  by (auto simp: ChunkBuffer2_ConsumePacket_def ChunkBuffer2_update_output_def Let_def
      bind_eq_Some_conv split: if_splits)

lemma pb_recv_fields: "pb_recv pb = Some pb' \<Longrightarrow> pb_buf pb' = pb_buf pb \<and> pb_input_mtu pb' = pb_input_mtu pb"
  by (auto simp: pb_recv_def Let_def)

lemma pb_send_fields: "pb_send pb = Some (pb', os) \<Longrightarrow> pb_buf pb' = pb_buf pb \<and> pb_input_mtu pb' = pb_input_mtu pb"
  by (auto simp: pb_send_def Let_def bind_eq_Some_conv)

lemma pb_finish_fields:
  assumes "(if c then pb_recv pb else Some pb) = Some pb1" "(if e then pb_send pb1 else Some (pb1, [])) = Some (pb', os)"
  shows "pb_buf pb' = pb_buf pb \<and> pb_input_mtu pb' = pb_input_mtu pb"
proof -
  have "pb_buf pb1 = pb_buf pb \<and> pb_input_mtu pb1 = pb_input_mtu pb"
    using assms(1) pb_recv_fields [of pb pb1] by (cases c) auto
  moreover have "pb_buf pb' = pb_buf pb1 \<and> pb_input_mtu pb' = pb_input_mtu pb1"
    using assms(2) pb_send_fields [of pb1 pb' os] by (cases e) auto
  ultimately show ?thesis by simp
qed

lemma input_handler_keeps_size:
  assumes "input_handler_done pb len = Some (pb', os)"
  shows "cb_size (pb_buf pb') = cb_size (pb_buf pb) \<and> cb_mtu (pb_buf pb') = cb_mtu (pb_buf pb) \<and>
    pb_input_mtu pb' = pb_input_mtu pb"
proof -
  from assms obtain b pb1 c e where "ChunkBuffer2_SubmitPacket (pb_buf pb) len = Some b"
    "(if c then pb_recv (pb\<lparr>pb_buf := b\<rparr>) else Some (pb\<lparr>pb_buf := b\<rparr>)) = Some pb1"
    "(if e then pb_send pb1 else Some (pb1, [])) = Some (pb', os)"
    unfolding input_handler_done_def Let_def bind_assert bind_eq_Some_conv by blast
  then show ?thesis using pb_finish_fields [of c "pb\<lparr>pb_buf := b\<rparr>" pb1 e pb' os] Submit_keeps_size by force
qed

lemma output_handler_keeps_size:
  assumes "output_handler_done pb = Some (pb', os)"
  shows "cb_size (pb_buf pb') = cb_size (pb_buf pb) \<and> cb_mtu (pb_buf pb') = cb_mtu (pb_buf pb) \<and>
    pb_input_mtu pb' = pb_input_mtu pb"
proof -
  from assms obtain b pb1 c e where "ChunkBuffer2_ConsumePacket (pb_buf pb) = Some b"
    "(if c then pb_recv (pb\<lparr>pb_buf := b\<rparr>) else Some (pb\<lparr>pb_buf := b\<rparr>)) = Some pb1"
    "(if e then pb_send pb1 else Some (pb1, [])) = Some (pb', os)"
    unfolding output_handler_done_def Let_def bind_eq_Some_conv by blast
  then show ?thesis using pb_finish_fields [of c "pb\<lparr>pb_buf := b\<rparr>" pb1 e pb' os] Consume_keeps_size by force
qed

lemma pb_step_keeps_size:
  "pb_step pb e = Some (pb', os) \<Longrightarrow>
   cb_size (pb_buf pb') = cb_size (pb_buf pb) \<and> cb_mtu (pb_buf pb') = cb_mtu (pb_buf pb) \<and>
   pb_input_mtu pb' = pb_input_mtu pb"
  by (cases e) (auto simp: pb_step_def Let_def dest: input_handler_keeps_size output_handler_keeps_size)

lemma pb_run_keeps_size:
  "run pb_step pb es = Some (pb', os) \<Longrightarrow>
   cb_size (pb_buf pb') = cb_size (pb_buf pb) \<and> cb_mtu (pb_buf pb') = cb_mtu (pb_buf pb) \<and>
   pb_input_mtu pb' = pb_input_mtu pb"
proof (induction es arbitrary: pb os)
  case (Cons e es)
  then show ?case by (auto split: option.splits dest!: pb_step_keeps_size)
qed simp

lemma PacketBuffer_Init_inv:
  assumes "PacketBuffer_Init mtu omtu num alloc = Some (Some pb)" "0 \<le> mtu"
    "ChunkBuffer2_calc_blocks mtu num \<le> 2 ^ 29"
  shows "pb_inv pb" "cb_contents (pb_buf pb) = []" "pb_input_mtu pb = mtu"
    "cb_mtu (pb_buf pb) = bdivide_up mtu 4" "cb_size (pb_buf pb) = (1 + bdivide_up mtu 4) * (num + 1)"
proof -
  let ?n = "ChunkBuffer2_calc_blocks mtu num"
  from assms(1) obtain m b where a: "mtu \<le> omtu" "0 < num" "0 \<le> ?n" "ChunkBuffer2_Init m ?n mtu = Some b"
    and r: "pb_recv \<lparr>pb_input_mtu = mtu, pb_output_mtu = omtu, pb_buf = b,
                   pb_receiving = False, pb_recv_dest = None, pb_sending = False\<rparr> = Some pb"
    by (auto simp: PacketBuffer_Init_def Let_def bind_eq_Some_conv split: if_splits option.splits)
  have n: "?n = (1 + bdivide_up mtu 4) * (num + 1)" using calc_blocks_exact assms(2) a by auto
  have d: "0 \<le> bdivide_up mtu 4" using assms(2) by simp
  have "(1 + bdivide_up mtu 4) * 1 \<le> ?n" unfolding n using d a(2) by (intro mult_left_mono) auto
  then have "bdivide_up mtu 4 + 1 \<le> ?n" by (simp add: add.commute)
  then obtain b' where b': "ChunkBuffer2_Init m ?n mtu = Some b'" "cb_wf b' [] []" "cb_size b' = ?n"
      "cb_mtu b' = bdivide_up mtu 4"
    using cb_wf_Init [OF assms(2) _ assms(3)] by blast
  then have b: "cb_wf b [] []" "cb_size b = ?n" "cb_mtu b = bdivide_up mtu 4" using a(4) by auto
  have c: "cb_contents b = []" "cb_ok b" using cb_contents_eq [OF b(1)] b(1) by (auto simp: cb_ok_def)
  have av: "mtu \<le> cb_input_avail b"
    using cb_capacity [OF b(1), of num] b a(2) n bdivide_up_bounds [OF assms(2)] by auto
  then show "pb_inv pb" "cb_contents (pb_buf pb) = []" "pb_input_mtu pb = mtu"
    "cb_mtu (pb_buf pb) = bdivide_up mtu 4" "cb_size (pb_buf pb) = (1 + bdivide_up mtu 4) * (num + 1)"
    using r c a(1) assms(2) b n by (auto simp: pb_recv_def pb_inv_def Let_def)
qed

text \<open>What a witness unfolds to run the buffer.\<close>

lemmas chunk_eval =
  ChunkBuffer2_Init_def ChunkBuffer2_SubmitPacket_def ChunkBuffer2_ConsumePacket_def bdivide_up_def
  ChunkBuffer2_assert_buffer_def ChunkBuffer2_assert_io_def ChunkBuffer2_update_input_def
  ChunkBuffer2_update_output_def ChunkBuffer2_end_def ChunkBuffer2_calc_blocks_def c_int_def
  cb_put_def cb_first_def Let_def

section \<open>Properties\<close>

text \<open>C7. The packet ring buffer is a first-in first-out queue: after initialisation, in every
  interleaving of submissions of packets that fit the reported \<open>input_avail\<close> and removals
  from a non-empty buffer, no assertion fails (wrap-around included), and the packets read out
  followed by the packets still in the buffer are the packets submitted, byte for byte and in
  order.\<close>
theorem chunk_buffer_fifo:
  assumes "0 \<le> mtu" "bdivide_up mtu 4 + 1 \<le> blocks" "blocks \<le> 2 ^ 29"
    "ChunkBuffer2_Init m blocks mtu = Some b"
    "queue_ops_fit cb_put cb_first ChunkBuffer2_ConsumePacket cb_input_avail b ops"
  shows "\<exists>b' out. queue_run cb_put cb_first ChunkBuffer2_ConsumePacket b ops = Some (b', out) \<and>
    puts ops = out @ cb_contents b'"
proof -
  obtain b0 where "ChunkBuffer2_Init m blocks mtu = Some b0" "cb_wf b0 [] []"
    using cb_wf_Init [OF assms(1-3)] by blast
  then have "cb_ok b" "cb_contents b = []" using assms(4) cb_contents_eq by (auto simp: cb_ok_def)
  then show ?thesis using chunks.fifo [OF _ assms(5)] by auto
qed

theorem chunk_buffer_fifo_witness:
  "\<exists>b b' out. ChunkBuffer2_Init (\<lambda>_. 0) 4 4 = Some b \<and>
     queue_run cb_put cb_first ChunkBuffer2_ConsumePacket b [Put [1, 2], Get, Put [3]] = Some (b', out) \<and>
     [[1, 2], [3]] = out @ cb_contents b'"
proof -
  let ?ops = "[Put [1, 2], Get, Put [3]]"
  have d: "bdivide_up 4 4 = 1" by (simp add: bdivide_up_def)
  obtain b where b: "ChunkBuffer2_Init (\<lambda>_. 0) 4 4 = Some b" "cb_wf b [] []"
    using cb_wf_Init [of 4 4 "\<lambda>_. 0"] d by auto
  have "queue_ops_fit cb_put cb_first ChunkBuffer2_ConsumePacket cb_input_avail b ?ops"
    using b(1) by (auto simp: chunk_eval)
  then show ?thesis using chunk_buffer_fifo [of 4 4 "\<lambda>_. 0" b ?ops] b(1) d by simp
qed

text \<open>C14. \<open>PacketBuffer\<close> delivers what it receives: in every sequence of completed
  receives and sends its neighbours can produce, no assertion of the buffer, of ChunkBuffer2 or of
  the interfaces fails (it never starts an operation while one is in progress), and the packets
  handed to the sink, followed by those waiting behind the one being sent, are the packets received,
  in order.\<close>
theorem packet_buffer_delivers:
  assumes "PacketBuffer_Init mtu omtu num alloc = Some (Some pb)" "0 \<le> mtu"
    "ChunkBuffer2_calc_blocks mtu num \<le> 2 ^ 29" "admissible pb_contract pb_step pb es"
  shows "\<exists>pb' sent. run pb_step pb es = Some (pb', sent) \<and>
    concat (map pb_ins es) = sent @ tl (cb_contents (pb_buf pb'))"
proof -
  note pb0 = PacketBuffer_Init_inv [OF assms(1-3)]
  obtain pb' sent where r: "run pb_step pb es = Some (pb', sent)"
    using pb.run_safe [OF pb0(1) assms(4)] by blast
  have "pb_held pb @ concat (map pb_ins es) = sent @ pb_held pb'"
    by (rule pb.run_trace [OF _ _ _ pb0(1) assms(4) r]) (use pb_step_ok in fastforce)+
  then show ?thesis using r pb0(2) by (simp add: pb_held_def)
qed

lemma small_buffer:
  "PacketBuffer_Init 4 8 1 (Some (\<lambda>_. 0)) = Some (Some
     \<lparr>pb_input_mtu = 4, pb_output_mtu = 8,
      pb_buf = \<lparr>cb_buffer = \<lambda>_. 0, cb_size = 4, cb_wrap = 4, cb_start = 0, cb_used = 0, cb_mtu = 1,
        cb_input_dest = Some 4, cb_input_avail = 12, cb_output_dest = None, cb_output_avail = - 1\<rparr>,
      pb_receiving = True, pb_recv_dest = Some 4, pb_sending = False\<rparr>)"
  by (simp add: PacketBuffer_Init_def pb_recv_def chunk_eval)

lemma small_buffer_events:
  assumes "PacketBuffer_Init 4 8 1 (Some (\<lambda>_. 0)) = Some (Some pb)"
  shows "admissible pb_contract pb_step pb [Input_done [1, 2], Output_done, Input_done [3]]"
proof -
  have "pb = \<lparr>pb_input_mtu = 4, pb_output_mtu = 8,
      pb_buf = \<lparr>cb_buffer = \<lambda>_. 0, cb_size = 4, cb_wrap = 4, cb_start = 0, cb_used = 0, cb_mtu = 1,
        cb_input_dest = Some 4, cb_input_avail = 12, cb_output_dest = None, cb_output_avail = - 1\<rparr>,
      pb_receiving = True, pb_recv_dest = Some 4, pb_sending = False\<rparr>"
    using assms small_buffer by simp
  then show ?thesis
    by (simp add: pb_recv_def pb_send_def pb_contract_def pb_step_def
        input_handler_done_def output_handler_done_def chunk_eval)
qed

theorem packet_buffer_delivers_witness:
  "\<exists>pb pb' sent. PacketBuffer_Init 4 8 1 (Some (\<lambda>_. 0)) = Some (Some pb) \<and>
     run pb_step pb [Input_done [1, 2], Output_done, Input_done [3]] = Some (pb', sent) \<and>
     [[1, 2], [3]] = sent @ tl (cb_contents (pb_buf pb'))"
proof -
  obtain pb where pb: "PacketBuffer_Init 4 8 1 (Some (\<lambda>_. 0)) = Some (Some pb)"
    using small_buffer by blast
  show ?thesis
    using packet_buffer_delivers [OF pb _ _ small_buffer_events [OF pb]] pb
    by (simp add: chunk_eval pb_ins_def)
qed

text \<open>C15. Capacity: after any such sequence, a \<open>PacketBuffer\<close> made for \<open>num\<close> packets that
  holds fewer than \<open>num\<close> has a receive in progress on its source, so it always takes at least the
  number of packets it was asked to hold and cannot get stuck with room left, wherever the data
  lies around the wrap.\<close>
theorem packet_buffer_capacity:
  assumes "PacketBuffer_Init mtu omtu num alloc = Some (Some pb)" "0 \<le> mtu"
    "ChunkBuffer2_calc_blocks mtu num \<le> 2 ^ 29" "admissible pb_contract pb_step pb es"
  shows "\<exists>pb' sent. run pb_step pb es = Some (pb', sent) \<and>
    (pb_receiving pb' \<or> num \<le> int (length (cb_contents (pb_buf pb'))))"
proof -
  note pb0 = PacketBuffer_Init_inv [OF assms(1-3)]
  obtain pb' sent where r: "run pb_step pb es = Some (pb', sent)" and i: "pb_inv pb'"
    using pb.run_safe [OF pb0(1) assms(4)] by blast
  have sz: "cb_mtu (pb_buf pb') = bdivide_up mtu 4" "pb_input_mtu pb' = mtu"
    "cb_size (pb_buf pb') = (1 + bdivide_up mtu 4) * (num + 1)"
    using pb_run_keeps_size [OF r] pb0 by auto
  obtain ps qs where wf: "cb_wf (pb_buf pb') ps qs" using i by (auto simp: pb_inv_def cb_ok_def)
  have c: "cb_contents (pb_buf pb') = ps @ qs" by (rule cb_contents_eq [OF wf])
  have m: "mtu \<le> 4 * bdivide_up mtu 4" using bdivide_up_bounds [OF assms(2)] by simp
  have fit: "\<forall>p \<in> set (ps @ qs). int (length p) \<le> 4 * cb_mtu (pb_buf pb')"
    using i c m sz by (force simp: pb_inv_def)
  have "pb_receiving pb'" if "int (length (ps @ qs)) < num"
    using cb_capacity [OF wf fit _ that] i sz m by (simp add: pb_inv_def)
  then show ?thesis using r c by (metis not_less)
qed

theorem packet_buffer_capacity_witness:
  "\<exists>pb pb' sent. PacketBuffer_Init 4 8 1 (Some (\<lambda>_. 0)) = Some (Some pb) \<and>
     run pb_step pb [Input_done [1, 2], Output_done, Input_done [3]] = Some (pb', sent) \<and>
     (pb_receiving pb' \<or> 1 \<le> int (length (cb_contents (pb_buf pb'))))"
proof -
  obtain pb where pb: "PacketBuffer_Init 4 8 1 (Some (\<lambda>_. 0)) = Some (Some pb)"
    using small_buffer by blast
  show ?thesis
    using packet_buffer_capacity [OF pb _ _ small_buffer_events [OF pb]] pb by (simp add: chunk_eval)
qed

end
