(* ===== verification/Packet_Proto.thy ===== *)
theory Packet_Proto
  imports Byteorder "HOL-Library.Sublist"
begin

text \<open>
  PacketProto (protocol/packetproto.h): packets in a byte stream, each preceded by its length in
  two little-endian bytes, and the two flow components that speak it,
  flow/PacketProtoEncoder.c and flow/PacketProtoDecoder.c. The decoder's buffer is a list of
  \<open>buf_size\<close> bytes; \<open>buf_start\<close> and \<open>buf_used\<close> are never negative in the code and
  are natural numbers here. Neighbours are seen through their interfaces: whether an operation is
  in progress and, for the stream source, where the bytes go and how many are asked for.
\<close>

section \<open>The encoding\<close>

abbreviation (input) sizeof_packetproto_header :: nat where "sizeof_packetproto_header \<equiv> 2"

definition PACKETPROTO_ENCLEN :: "nat \<Rightarrow> nat" where
  "PACKETPROTO_ENCLEN len = sizeof_packetproto_header + len"

definition PACKETPROTO_MAXPAYLOAD :: nat where
  "PACKETPROTO_MAXPAYLOAD = 65535"

section \<open>PacketProtoEncoder\<close>

text \<open>\<open>pe_output_packet\<close> is the memory the encoder was asked to fill, \<open>None\<close> for a NULL
  \<open>output_packet\<close>; \<open>pe_receiving\<close> says that the receive into it (after the header) is in
  progress.\<close>

record encoder =
  pe_input_mtu :: nat
  pe_output_packet :: "byte list option"
  pe_receiving :: bool

definition PacketProtoEncoder_Init :: "nat \<Rightarrow> encoder option" where
  "PacketProtoEncoder_Init input_mtu = do {
     assert_that (input_mtu \<le> PACKETPROTO_MAXPAYLOAD);
     Some \<lparr>pe_input_mtu = input_mtu, pe_output_packet = None, pe_receiving = False\<rparr>
   }"

definition encoder_output_handler_recv :: "encoder \<Rightarrow> byte list \<Rightarrow> encoder option" where
  "encoder_output_handler_recv enc data = do {
     assert_that (pe_output_packet enc = None);
     assert_that (\<not> pe_receiving enc);
     Some (enc\<lparr>pe_output_packet := Some data, pe_receiving := True\<rparr>)
   }"

text \<open>The result is the packet \<open>PacketRecvInterface_Done\<close> reports to the consumer: the first
  \<open>PACKETPROTO_ENCLEN(in_len)\<close> bytes of its memory.\<close>

definition encoder_input_handler_done :: "encoder \<Rightarrow> nat \<Rightarrow> (encoder \<times> byte list) option" where
  "encoder_input_handler_done enc in_len = do {
     output_packet \<leftarrow> pe_output_packet enc;
     let output_packet = blit 0 (mem16 (htol16 (of_nat in_len))) output_packet;
     assert_that (PACKETPROTO_ENCLEN in_len \<le> PACKETPROTO_ENCLEN (pe_input_mtu enc));
     Some (enc\<lparr>pe_output_packet := None\<rparr>, take (PACKETPROTO_ENCLEN in_len) output_packet)
   }"

text \<open>One packet through the encoder: the consumer's request, then the producer's packet,
  written behind the header.\<close>

definition encoder_round :: "encoder \<Rightarrow> byte list \<Rightarrow> byte list \<Rightarrow> (encoder \<times> byte list) option" where
  "encoder_round enc data p = do {
     enc \<leftarrow> encoder_output_handler_recv enc data;
     let data = blit sizeof_packetproto_header p data;
     encoder_input_handler_done (enc\<lparr>pe_output_packet := Some data, pe_receiving := False\<rparr>) (length p)
   }"

section \<open>PacketProtoDecoder\<close>

record decoder =
  pd_output_mtu :: nat
  pd_buf_size :: nat
  pd_buf_start :: nat
  pd_buf_used :: nat
  pd_buf :: "byte list"
  pd_receiving :: "(nat \<times> nat) option"
  pd_sending :: bool

datatype decoder_call = Send_packet "byte list" | Handler_error

text \<open>\<open>StreamRecvInterface_Receiver_Recv\<close> and \<open>PacketPassInterface_Sender_Send\<close> with what
  they assert.\<close>

definition decoder_recv :: "decoder \<Rightarrow> nat \<Rightarrow> nat \<Rightarrow> decoder option" where
  "decoder_recv enc off len = do {
     assert_that (len > 0);
     assert_that (pd_receiving enc = None);
     Some (enc\<lparr>pd_receiving := Some (off, len)\<rparr>)
   }"

definition decoder_send :: "decoder \<Rightarrow> byte list \<Rightarrow> (decoder \<times> decoder_call list) option" where
  "decoder_send enc data = do {
     assert_that (length data \<le> pd_output_mtu enc);
     assert_that (\<not> pd_sending enc);
     Some (enc\<lparr>pd_sending := True\<rparr>, [Send_packet data])
   }"

definition process_data :: "decoder \<Rightarrow> (decoder \<times> decoder_call list) option" where
  "process_data enc =
     (let data = drop (pd_buf_start enc) (pd_buf enc);
          left = pd_buf_used enc;
          data_len = unat (ltoh16 (unmem16 data));
          was_error = (\<not> left < sizeof_packetproto_header \<and> data_len > pd_output_mtu enc) in
      if \<not> left < sizeof_packetproto_header \<and> \<not> data_len > pd_output_mtu enc \<and>
         \<not> left - sizeof_packetproto_header < data_len
      then decoder_send
             (enc\<lparr>pd_buf_start := pd_buf_start enc + (sizeof_packetproto_header + data_len),
                  pd_buf_used := pd_buf_used enc - (sizeof_packetproto_header + data_len)\<rparr>)
             (take data_len (drop sizeof_packetproto_header data))
      else
        let enc = (if was_error then enc\<lparr>pd_buf_start := 0, pd_buf_used := 0\<rparr>
                   else if pd_buf_start enc + pd_buf_used enc = pd_buf_size enc
                   then enc\<lparr>pd_buf := blit 0 (take (pd_buf_used enc) data) (pd_buf enc),
                            pd_buf_start := 0\<rparr>
                   else enc) in
        do {
          enc \<leftarrow> decoder_recv enc (pd_buf_start enc + pd_buf_used enc)
                   (pd_buf_size enc - (pd_buf_start enc + pd_buf_used enc));
          Some (enc, if was_error then [Handler_error] else [])
        })"

definition decoder_input_handler_done :: "decoder \<Rightarrow> nat \<Rightarrow> (decoder \<times> decoder_call list) option" where
  "decoder_input_handler_done enc data_len = do {
     assert_that (data_len > 0);
     assert_that (data_len \<le> pd_buf_size enc - (pd_buf_start enc + pd_buf_used enc));
     process_data (enc\<lparr>pd_buf_used := pd_buf_used enc + data_len\<rparr>)
   }"

definition decoder_output_handler_done :: "decoder \<Rightarrow> (decoder \<times> decoder_call list) option" where
  "decoder_output_handler_done enc = process_data enc"

text \<open>\<open>alloc\<close> is the memory \<open>malloc(buf_size)\<close> returns, \<open>None\<close> for NULL; the outer option
  is the assertions, the inner one the return value 0.\<close>

definition PacketProtoDecoder_Init :: "nat \<Rightarrow> byte list option \<Rightarrow> decoder option option" where
  "PacketProtoDecoder_Init mtu alloc =
     (let output_mtu = min mtu PACKETPROTO_MAXPAYLOAD; buf_size = PACKETPROTO_ENCLEN output_mtu in
      case alloc of None \<Rightarrow> Some None
      | Some buf \<Rightarrow> do {
          enc \<leftarrow> decoder_recv
            \<lparr>pd_output_mtu = output_mtu, pd_buf_size = buf_size, pd_buf_start = 0, pd_buf_used = 0,
             pd_buf = buf, pd_receiving = None, pd_sending = False\<rparr> 0 buf_size;
          Some (Some enc)
        })"

definition PacketProtoDecoder_Reset :: "decoder \<Rightarrow> decoder" where
  "PacketProtoDecoder_Reset enc =
     enc\<lparr>pd_buf_start := pd_buf_start enc + pd_buf_used enc, pd_buf_used := 0\<rparr>"

section \<open>The decoder between its neighbours\<close>

datatype decoder_event = Stream_data "byte list" | Packet_sent | Reset

definition decoder_step :: "decoder \<Rightarrow> decoder_event \<Rightarrow> (decoder \<times> decoder_call list) option" where
  "decoder_step enc e = (case e of
     Stream_data bs \<Rightarrow>
       (case pd_receiving enc of None \<Rightarrow> None
        | Some (off, len) \<Rightarrow>
            decoder_input_handler_done
              (enc\<lparr>pd_receiving := None, pd_buf := blit off bs (pd_buf enc)\<rparr>) (length bs))
   | Packet_sent \<Rightarrow> decoder_output_handler_done (enc\<lparr>pd_sending := False\<rparr>)
   | Reset \<Rightarrow> Some (PacketProtoDecoder_Reset enc, []))"

text \<open>The stream source delivers at least one byte and at most as many as asked for; the sink
  completes the send in progress.\<close>

definition decoder_contract :: "decoder \<Rightarrow> decoder_event \<Rightarrow> bool" where
  "decoder_contract enc e = (case e of
     Stream_data bs \<Rightarrow>
       (case pd_receiving enc of None \<Rightarrow> False | Some (off, len) \<Rightarrow> 0 < length bs \<and> length bs \<le> len)
   | Packet_sent \<Rightarrow> pd_sending enc
   | Reset \<Rightarrow> True)"

definition buffered :: "decoder \<Rightarrow> byte list" where
  "buffered enc = seg (pd_buf_start enc) (pd_buf_used enc) (pd_buf enc)"

text \<open>What the buffered bytes begin with: nothing whole yet, a whole packet, or a length that is
  too large.\<close>

definition packet_len :: "byte list \<Rightarrow> nat" where
  "packet_len bs = unat (unmem16 bs)"

definition whole_packet :: "nat \<Rightarrow> byte list \<Rightarrow> bool" where
  "whole_packet mtu bs \<longleftrightarrow> 2 \<le> length bs \<and> packet_len bs \<le> mtu \<and> 2 + packet_len bs \<le> length bs"

definition too_large :: "nat \<Rightarrow> byte list \<Rightarrow> bool" where
  "too_large mtu bs \<longleftrightarrow> 2 \<le> length bs \<and> mtu < packet_len bs"

definition decoder_inv :: "decoder \<Rightarrow> bool" where
  "decoder_inv enc \<longleftrightarrow>
     length (pd_buf enc) = pd_buf_size enc \<and> pd_buf_size enc = 2 + pd_output_mtu enc \<and>
     pd_output_mtu enc \<le> 65535 \<and> pd_buf_start enc + pd_buf_used enc \<le> pd_buf_size enc \<and>
     (if pd_sending enc then pd_receiving enc = None
      else pd_buf_start enc + pd_buf_used enc < pd_buf_size enc \<and>
           pd_receiving enc = Some (pd_buf_start enc + pd_buf_used enc,
             pd_buf_size enc - (pd_buf_start enc + pd_buf_used enc)) \<and>
           \<not> whole_packet (pd_output_mtu enc) (buffered enc) \<and>
           \<not> too_large (pd_output_mtu enc) (buffered enc))"

section \<open>What processing the buffer does\<close>

definition decoder_idle :: "decoder \<Rightarrow> bool" where
  "decoder_idle enc \<longleftrightarrow>
     length (pd_buf enc) = pd_buf_size enc \<and> pd_buf_size enc = 2 + pd_output_mtu enc \<and>
     pd_output_mtu enc \<le> 65535 \<and> pd_buf_start enc + pd_buf_used enc \<le> pd_buf_size enc \<and>
     pd_receiving enc = None \<and> \<not> pd_sending enc"

lemma length_buffered:
  "pd_buf_start enc + pd_buf_used enc \<le> length (pd_buf enc) \<Longrightarrow> length (buffered enc) = pd_buf_used enc"
  by (simp add: buffered_def)

lemma header_of_buffered:
  assumes "pd_buf_start enc + pd_buf_used enc \<le> length (pd_buf enc)" "2 \<le> pd_buf_used enc"
  shows "unat (ltoh16 (unmem16 (drop (pd_buf_start enc) (pd_buf enc)))) = packet_len (buffered enc)"
proof -
  have "unmem16 (drop (pd_buf_start enc) (pd_buf enc)) = unmem16 (take 2 (drop (pd_buf_start enc) (pd_buf enc)))"
    using assms by (intro m16.dec_prefix) simp
  also have "take 2 (drop (pd_buf_start enc) (pd_buf enc)) = take 2 (buffered enc)"
    using assms(2) by (simp add: buffered_def seg_def min_def)
  also have "unmem16 (take 2 (buffered enc)) = unmem16 (buffered enc)"
    using assms by (intro m16.dec_prefix [symmetric]) (simp add: length_buffered)
  finally show ?thesis by (simp add: packet_len_def ltoh16_def htol16_def)
qed

lemma process_data_whole:
  assumes idle: "decoder_idle enc" and w: "whole_packet (pd_output_mtu enc) (buffered enc)"
  obtains enc' where
    "process_data enc = Some (enc', [Send_packet (take (packet_len (buffered enc)) (drop 2 (buffered enc)))])"
    "decoder_inv enc'" "buffered enc' = drop (2 + packet_len (buffered enc)) (buffered enc)"
    "pd_output_mtu enc' = pd_output_mtu enc" "pd_sending enc'"
proof -
  let ?n = "packet_len (buffered enc)"
  have fits: "pd_buf_start enc + pd_buf_used enc \<le> length (pd_buf enc)"
    using idle by (simp add: decoder_idle_def)
  have n: "2 \<le> pd_buf_used enc" "?n \<le> pd_output_mtu enc" "2 + ?n \<le> pd_buf_used enc"
    using w length_buffered [OF fits] by (auto simp: whole_packet_def)
  have d: "take ?n (drop 2 (drop (pd_buf_start enc) (pd_buf enc))) = take ?n (drop 2 (buffered enc))"
    using n by (simp add: buffered_def seg_def drop_take min_def)
  have c: "\<not> pd_buf_used enc < 2" "\<not> pd_output_mtu enc < ?n" "\<not> pd_buf_used enc - 2 < ?n"
    using n by linarith+
  let ?e = "enc\<lparr>pd_buf_start := pd_buf_start enc + (2 + ?n), pd_buf_used := pd_buf_used enc - (2 + ?n),
    pd_sending := True\<rparr>"
  have "process_data enc = Some (?e, [Send_packet (take ?n (drop 2 (buffered enc)))])"
    using n d idle header_of_buffered [OF fits n(1)] length_buffered [OF fits] c
    by (simp add: process_data_def Let_def decoder_send_def decoder_idle_def del: add_2_eq_Suc)
  moreover have "decoder_inv ?e" using idle n by (auto simp: decoder_inv_def decoder_idle_def)
  moreover have "buffered ?e = drop (2 + ?n) (buffered enc)"
    using n by (simp add: buffered_def seg_def drop_take add.commute)
  ultimately show ?thesis using that by simp
qed

lemma process_data_error:
  assumes idle: "decoder_idle enc" and l: "too_large (pd_output_mtu enc) (buffered enc)"
  obtains enc' where "process_data enc = Some (enc', [Handler_error])"
    "decoder_inv enc'" "buffered enc' = []" "pd_output_mtu enc' = pd_output_mtu enc"
proof -
  have fits: "pd_buf_start enc + pd_buf_used enc \<le> length (pd_buf enc)"
    using idle by (simp add: decoder_idle_def)
  have n: "2 \<le> pd_buf_used enc" "pd_output_mtu enc < packet_len (buffered enc)"
    using l length_buffered [OF fits] by (auto simp: too_large_def)
  let ?e = "enc\<lparr>pd_buf_start := 0, pd_buf_used := 0, pd_receiving := Some (0, pd_buf_size enc)\<rparr>"
  have "process_data enc = Some (?e, [Handler_error])"
    using n idle header_of_buffered [OF fits n(1)]
    by (simp add: process_data_def Let_def decoder_recv_def decoder_idle_def)
  moreover have "decoder_inv ?e" "buffered ?e = []"
    using idle by (simp_all add: decoder_inv_def decoder_idle_def buffered_def whole_packet_def too_large_def)
  ultimately show ?thesis using that by simp
qed

lemma process_data_wait:
  assumes idle: "decoder_idle enc" and w: "\<not> whole_packet (pd_output_mtu enc) (buffered enc)"
    and l: "\<not> too_large (pd_output_mtu enc) (buffered enc)"
  obtains enc' where "process_data enc = Some (enc', [])"
    "decoder_inv enc'" "buffered enc' = buffered enc" "pd_output_mtu enc' = pd_output_mtu enc"
proof -
  have fits: "pd_buf_start enc + pd_buf_used enc \<le> length (pd_buf enc)"
    and size: "length (pd_buf enc) = pd_buf_size enc" "pd_buf_size enc = 2 + pd_output_mtu enc"
    using idle by (simp_all add: decoder_idle_def)
  have used: "pd_buf_used enc < pd_buf_size enc"
    using w l length_buffered [OF fits] size by (auto simp: whole_packet_def too_large_def)
  let ?e = "if pd_buf_start enc + pd_buf_used enc = pd_buf_size enc
    then enc\<lparr>pd_buf := blit 0 (take (pd_buf_used enc) (drop (pd_buf_start enc) (pd_buf enc))) (pd_buf enc),
             pd_buf_start := 0\<rparr> else enc"
  let ?o = "pd_buf_start ?e + pd_buf_used ?e"
  have b: "buffered ?e = buffered enc"
    using seg_blit_same [of 0 "buffered enc" "pd_buf enc"] fits length_buffered [OF fits]
    by (auto simp: buffered_def seg_def)
  have o: "?o < pd_buf_size enc" using used fits size by auto
  let ?f = "?e\<lparr>pd_receiving := Some (?o, pd_buf_size ?e - ?o)\<rparr>"
  have "process_data enc = Some (?f, [])"
  proof (cases "2 \<le> pd_buf_used enc")
    case True
    then show ?thesis
      using w l o idle header_of_buffered [OF fits True] length_buffered [OF fits]
      by (auto simp: process_data_def Let_def decoder_recv_def decoder_idle_def whole_packet_def too_large_def)
  next
    case False
    then show ?thesis using o idle
      by (auto simp: process_data_def Let_def decoder_recv_def decoder_idle_def)
  qed
  moreover have "buffered ?f = buffered enc" using b by (simp add: buffered_def)
  moreover have "decoder_inv ?f"
    using idle w l o \<open>buffered ?f = buffered enc\<close> by (auto simp: decoder_inv_def decoder_idle_def)
  ultimately show ?thesis using that by simp
qed

definition processed :: "nat \<Rightarrow> byte list \<Rightarrow> decoder_call list \<Rightarrow> byte list \<Rightarrow> bool" where
  "processed mtu b os b' \<longleftrightarrow>
     (if whole_packet mtu b
      then os = [Send_packet (take (packet_len b) (drop 2 b))] \<and> b' = drop (2 + packet_len b) b
      else if too_large mtu b then os = [Handler_error] \<and> b' = []
      else os = [] \<and> b' = b)"

lemma process_data_ok:
  assumes "decoder_idle enc"
  shows "\<exists>enc' os. process_data enc = Some (enc', os) \<and> decoder_inv enc' \<and>
    pd_output_mtu enc' = pd_output_mtu enc \<and> processed (pd_output_mtu enc) (buffered enc) os (buffered enc')"
proof (cases "whole_packet (pd_output_mtu enc) (buffered enc)")
  case True
  show ?thesis by (rule process_data_whole [OF assms True]) (use True in \<open>simp add: processed_def\<close>)
next
  case False
  show ?thesis
  proof (cases "too_large (pd_output_mtu enc) (buffered enc)")
    case True
    show ?thesis by (rule process_data_error [OF assms True]) (use True False in \<open>simp add: processed_def\<close>)
  next
    case f: False
    show ?thesis by (rule process_data_wait [OF assms False f]) (use f False in \<open>simp add: processed_def\<close>)
  qed
qed

text \<open>The bytes an event brings in.\<close>

definition stream_bytes :: "decoder_event \<Rightarrow> byte list" where
  "stream_bytes e = (case e of Stream_data bs \<Rightarrow> bs | _ \<Rightarrow> [])"

lemma decoder_step_ok:
  assumes inv: "decoder_inv enc" and c: "decoder_contract enc e" and "e \<noteq> Reset"
  shows "\<exists>enc' os. decoder_step enc e = Some (enc', os) \<and> decoder_inv enc' \<and>
    pd_output_mtu enc' = pd_output_mtu enc \<and>
    processed (pd_output_mtu enc) (buffered enc @ stream_bytes e) os (buffered enc')"
proof (cases e)
  case (Stream_data bs)
  let ?o = "pd_buf_start enc + pd_buf_used enc"
  have r: "pd_receiving enc = Some (?o, pd_buf_size enc - ?o)" "\<not> pd_sending enc" "?o < pd_buf_size enc"
    "0 < length bs" "length bs \<le> pd_buf_size enc - ?o"
    using inv c Stream_data by (auto simp: decoder_inv_def decoder_contract_def split: if_splits option.splits)
  let ?e = "enc\<lparr>pd_receiving := None, pd_buf := blit ?o bs (pd_buf enc), pd_buf_used := pd_buf_used enc + length bs\<rparr>"
  have idle: "decoder_idle ?e" using inv r by (auto simp: decoder_inv_def decoder_idle_def)
  have fits: "?o + length bs \<le> length (pd_buf enc)" using inv r by (auto simp: decoder_inv_def)
  have "buffered ?e = seg (pd_buf_start enc) (pd_buf_used enc) (blit ?o bs (pd_buf enc)) @
      seg ?o (length bs) (blit ?o bs (pd_buf enc))"
    by (simp add: buffered_def seg_join)
  also have "\<dots> = buffered enc @ bs"
    using fits by (simp add: buffered_def seg_blit_before seg_blit_same)
  finally have b: "buffered ?e = buffered enc @ bs" .
  have "decoder_step enc e = process_data ?e"
    using r Stream_data by (simp add: decoder_step_def decoder_input_handler_done_def)
  then show ?thesis using process_data_ok [OF idle] b Stream_data by (simp add: stream_bytes_def)
next
  case Packet_sent
  have "decoder_idle (enc\<lparr>pd_sending := False\<rparr>)"
    using inv c Packet_sent by (auto simp: decoder_inv_def decoder_contract_def decoder_idle_def)
  from process_data_ok [OF this] show ?thesis using Packet_sent
    by (simp add: decoder_step_def decoder_output_handler_done_def stream_bytes_def buffered_def)
qed (use assms(3) in simp)

lemma decoder_Reset_ok:
  assumes "decoder_inv enc"
  shows "decoder_inv (PacketProtoDecoder_Reset enc)" "buffered (PacketProtoDecoder_Reset enc) = []"
  using assms
  by (auto simp: decoder_inv_def PacketProtoDecoder_Reset_def buffered_def whole_packet_def too_large_def)

interpretation decoder: safe_machine decoder_step decoder_contract decoder_inv
proof unfold_locales
  fix enc e
  assume "decoder_inv enc" "decoder_contract enc e"
  then show "\<exists>enc' os. decoder_step enc e = Some (enc', os) \<and> decoder_inv enc'"
    using decoder_step_ok [of enc e] decoder_Reset_ok [of enc]
    by (cases "e = Reset") (auto simp: decoder_step_def)
qed

section \<open>Reassembly\<close>

definition pp_encode :: "byte list \<Rightarrow> byte list" where
  "pp_encode p = mem16 (of_nat (length p)) @ p"

definition sent_packets :: "decoder_call list \<Rightarrow> byte list list" where
  "sent_packets os = concat (map (\<lambda>c. case c of Send_packet p \<Rightarrow> [p] | _ \<Rightarrow> []) os)"

lemma sent_packets_simps [simp]:
  "sent_packets [] = []" "sent_packets (xs @ ys) = sent_packets xs @ sent_packets ys"
  "sent_packets [Send_packet p] = [p]" "sent_packets [Handler_error] = []"
  by (simp_all add: sent_packets_def)

lemma length_pp_encode [simp]: "length (pp_encode p) = 2 + length p"
  by (simp add: pp_encode_def)

lemma packet_len_encode: "length p \<le> 65535 \<Longrightarrow> packet_len (pp_encode p @ bs) = length p"
  by (simp add: packet_len_def pp_encode_def unat_of_nat_small)

text \<open>Bytes that are the beginning of an encoded packet sequence never look like an oversized
  packet, and a whole packet at their front is the first of the sequence.\<close>

lemma prefix_header:
  assumes "prefix b (concat (map pp_encode ps))" "\<forall>p \<in> set ps. length p \<le> mtu" "mtu \<le> 65535" "2 \<le> length b"
  obtains p qs where "ps = p # qs" "packet_len b = length p" "length p \<le> mtu"
proof (cases ps)
  case Nil
  then show ?thesis using assms(1,4) by simp
next
  case (Cons p qs)
  obtain c where c: "concat (map pp_encode ps) = b @ c" using assms(1) by (auto simp: prefix_def)
  have "unmem16 b = unmem16 (take 2 b)" using assms(4) by (rule m16.dec_prefix)
  also have "take 2 b = take 2 (b @ c)" using assms(4) by simp
  also have "take 2 (b @ c) = take 2 (pp_encode p @ concat (map pp_encode qs))" using c Cons by simp
  also have "unmem16 \<dots> = unmem16 (pp_encode p @ concat (map pp_encode qs))"
    by (rule m16.dec_prefix [symmetric]) simp
  finally have "packet_len b = length p"
    using packet_len_encode [of p "concat (map pp_encode qs)"] assms(2,3) Cons by (simp add: packet_len_def)
  then show ?thesis using that Cons assms(2) by simp
qed

lemma processed_prefix:
  assumes pre: "prefix b (concat (map pp_encode ps))" and fit: "\<forall>p \<in> set ps. length p \<le> mtu" "mtu \<le> 65535"
    and r: "processed mtu b os b'"
  shows "Handler_error \<notin> set os" "b = concat (map pp_encode (sent_packets os)) @ b'"
    "\<exists>qs. ps = sent_packets os @ qs"
proof -
  have nl: "\<not> too_large mtu b"
  proof
    assume t: "too_large mtu b"
    then have "2 \<le> length b" by (simp add: too_large_def)
    then obtain p qs where "ps = p # qs" "packet_len b = length p" "length p \<le> mtu" by (rule prefix_header [OF pre fit])
    with t show False by (simp add: too_large_def)
  qed
  have "Handler_error \<notin> set os \<and> b = concat (map pp_encode (sent_packets os)) @ b' \<and>
    (\<exists>qs. ps = sent_packets os @ qs)"
  proof (cases "whole_packet mtu b")
    case True
    then have l: "2 \<le> length b" "2 + packet_len b \<le> length b" by (auto simp: whole_packet_def)
    obtain p qs where p: "ps = p # qs" "packet_len b = length p" "length p \<le> mtu"
      by (rule prefix_header [OF pre fit l(1)])
    obtain c where c: "pp_encode p @ concat (map pp_encode qs) = b @ c" using pre p by (auto simp: prefix_def)
    have "take (2 + length p) (b @ c) = pp_encode p" by (simp flip: c)
    then have "take (2 + length p) b = pp_encode p" using l p by simp
    then have b: "b = pp_encode p @ drop (2 + length p) b" by (metis append_take_drop_id)
    have "take (length p) (drop 2 b) = p"
      using arg_cong [OF b, of "\<lambda>x. take (length p) (drop 2 x)"] by (simp add: pp_encode_def)
    then show ?thesis using r True p b by (simp add: processed_def)
  next
    case False
    then show ?thesis using r nl by (simp add: processed_def)
  qed
  then show "Handler_error \<notin> set os" "b = concat (map pp_encode (sent_packets os)) @ b'"
    "\<exists>qs. ps = sent_packets os @ qs" by auto
qed

lemma decoder_run_prefix:
  assumes "decoder_inv enc" "admissible decoder_contract decoder_step enc es" "Reset \<notin> set es"
    "prefix (buffered enc @ concat (map stream_bytes es)) (concat (map pp_encode ps))"
    "\<forall>p \<in> set ps. length p \<le> pd_output_mtu enc"
  shows "\<exists>enc' os qs. run decoder_step enc es = Some (enc', os) \<and> decoder_inv enc' \<and>
    pd_output_mtu enc' = pd_output_mtu enc \<and> Handler_error \<notin> set os \<and> ps = sent_packets os @ qs \<and>
    buffered enc @ concat (map stream_bytes es) = concat (map pp_encode (sent_packets os)) @ buffered enc'"
  using assms
proof (induction es arbitrary: enc ps)
  case Nil
  then show ?case by simp
next
  case (Cons e es)
  let ?b = "buffered enc @ stream_bytes e" and ?rest = "concat (map stream_bytes es)"
  have mtu: "pd_output_mtu enc \<le> 65535" using Cons.prems(1) by (simp add: decoder_inv_def)
  have e: "decoder_contract enc e" "e \<noteq> Reset" using Cons.prems by auto
  obtain enc1 os1 where s1: "decoder_step enc e = Some (enc1, os1)" "decoder_inv enc1"
      "pd_output_mtu enc1 = pd_output_mtu enc" "processed (pd_output_mtu enc) ?b os1 (buffered enc1)"
    using decoder_step_ok [OF Cons.prems(1) e] by blast
  have pre: "prefix (?b @ ?rest) (concat (map pp_encode ps))" using Cons.prems(4) by simp
  then have "prefix ?b (concat (map pp_encode ps))" by (rule append_prefixD)
  from processed_prefix [OF this Cons.prems(5) mtu s1(4)]
  obtain qs where p1: "Handler_error \<notin> set os1" "ps = sent_packets os1 @ qs"
    "?b = concat (map pp_encode (sent_packets os1)) @ buffered enc1" by blast
  have "prefix (buffered enc1 @ ?rest) (concat (map pp_encode qs))"
    using pre p1(2,3) by simp
  moreover have "admissible decoder_contract decoder_step enc1 es" "Reset \<notin> set es"
    "\<forall>p \<in> set qs. length p \<le> pd_output_mtu enc1"
    using Cons.prems s1 p1 by auto
  ultimately obtain enc2 os2 rs where r2: "run decoder_step enc1 es = Some (enc2, os2)" "decoder_inv enc2"
    "pd_output_mtu enc2 = pd_output_mtu enc1" "Handler_error \<notin> set os2" "qs = sent_packets os2 @ rs"
    "buffered enc1 @ ?rest = concat (map pp_encode (sent_packets os2)) @ buffered enc2"
    using Cons.IH [OF s1(2)] by blast
  have "?b @ ?rest = concat (map pp_encode (sent_packets (os1 @ os2))) @ buffered enc2"
    using p1(3) r2(6) by simp
  then show ?case using s1 p1(1,2) r2(1-5) by simp
qed

lemma PacketProtoDecoder_Init_inv:
  assumes "PacketProtoDecoder_Init mtu (Some buf) = Some (Some enc)" "length buf = PACKETPROTO_ENCLEN (min mtu PACKETPROTO_MAXPAYLOAD)"
  shows "decoder_inv enc" "buffered enc = []" "pd_output_mtu enc = min mtu 65535"
  using assms
  by (auto simp: PacketProtoDecoder_Init_def decoder_recv_def Let_def decoder_inv_def buffered_def
      PACKETPROTO_ENCLEN_def PACKETPROTO_MAXPAYLOAD_def whole_packet_def too_large_def)

lemma not_whole_nil:
  assumes "\<not> whole_packet mtu (concat (map pp_encode qs))" "\<forall>p \<in> set qs. length p \<le> mtu" "mtu \<le> 65535"
  shows "qs = []"
proof (cases qs)
  case (Cons p rs)
  then show ?thesis
    using assms packet_len_encode [of p "concat (map pp_encode rs)"] by (simp add: whole_packet_def)
qed

lemma decoder_step_sends:
  assumes "decoder_inv enc" "decoder_contract enc e" "decoder_step enc e = Some (enc', os)"
  shows "\<forall>p \<in> set (sent_packets os). length p \<le> pd_output_mtu enc" "pd_output_mtu enc' = pd_output_mtu enc"
proof -
  have "(\<forall>p \<in> set (sent_packets os). length p \<le> pd_output_mtu enc) \<and> pd_output_mtu enc' = pd_output_mtu enc"
    using assms decoder_step_ok [OF assms(1,2)]
    by (cases "e = Reset")
      (auto simp: decoder_step_def PacketProtoDecoder_Reset_def processed_def whole_packet_def split: if_splits)
  then show "\<forall>p \<in> set (sent_packets os). length p \<le> pd_output_mtu enc" "pd_output_mtu enc' = pd_output_mtu enc"
    by auto
qed

lemma decoder_run_sends:
  "decoder_inv enc \<Longrightarrow> admissible decoder_contract decoder_step enc es \<Longrightarrow>
   run decoder_step enc es = Some (enc', os) \<Longrightarrow>
   (\<forall>p \<in> set (sent_packets os). length p \<le> pd_output_mtu enc) \<and> pd_output_mtu enc' = pd_output_mtu enc"
proof (induction es arbitrary: enc os)
  case (Cons e es)
  then obtain enc1 o1 o2 where s: "decoder_step enc e = Some (enc1, o1)" "run decoder_step enc1 es = Some (enc', o2)"
    "os = o1 @ o2" by (auto split: option.splits)
  have "decoder_inv enc1" using Cons.prems s(1) decoder.step_safe [of enc e] by auto
  then show ?case
    using Cons.IH [OF _ _ s(2)] Cons.prems s(1,3) decoder_step_sends [of enc e enc1 o1] by auto
qed simp

section \<open>Properties\<close>

text \<open>C8. Reassembly: whatever the sizes of the pieces in which the stream arrives, and however
  they interleave with the completion of sends, a decoder that is fed (a beginning of) the encoding
  of packets within its MTU fails no assertion, never reports an error and sends exactly the
  packets, byte for byte and in order: the bytes fed are the encoding of the packets sent followed
  by what is buffered. When the whole encoding has been fed and no send is in progress, every
  packet has been sent.\<close>
theorem decoder_reassembles:
  assumes "PacketProtoDecoder_Init mtu (Some buf) = Some (Some enc)"
    "length buf = PACKETPROTO_ENCLEN (min mtu PACKETPROTO_MAXPAYLOAD)"
    "\<forall>p \<in> set ps. length p \<le> min mtu PACKETPROTO_MAXPAYLOAD"
    "admissible decoder_contract decoder_step enc es" "Reset \<notin> set es"
    "prefix (concat (map stream_bytes es)) (concat (map pp_encode ps))"
  shows "\<exists>enc' os. run decoder_step enc es = Some (enc', os) \<and> Handler_error \<notin> set os \<and>
    prefix (sent_packets os) ps \<and>
    concat (map stream_bytes es) = concat (map pp_encode (sent_packets os)) @ buffered enc' \<and>
    (concat (map stream_bytes es) = concat (map pp_encode ps) \<and> \<not> pd_sending enc' \<longrightarrow> sent_packets os = ps)"
proof -
  note enc = PacketProtoDecoder_Init_inv [OF assms(1,2)]
  have fit: "\<forall>p \<in> set ps. length p \<le> pd_output_mtu enc"
    using assms(3) enc(3) by (simp add: PACKETPROTO_MAXPAYLOAD_def)
  obtain enc' os qs where r: "run decoder_step enc es = Some (enc', os)" "decoder_inv enc'"
    "pd_output_mtu enc' = pd_output_mtu enc" "Handler_error \<notin> set os" "ps = sent_packets os @ qs"
    "concat (map stream_bytes es) = concat (map pp_encode (sent_packets os)) @ buffered enc'"
    using decoder_run_prefix [OF enc(1) assms(4,5) _ fit] assms(6) enc(2) by auto
  have "sent_packets os = ps" if "concat (map stream_bytes es) = concat (map pp_encode ps)" "\<not> pd_sending enc'"
  proof -
    have "buffered enc' = concat (map pp_encode qs)" using that(1) r(5,6) by simp
    then have "qs = []"
      using not_whole_nil [of "pd_output_mtu enc'" qs] r(2,3,5) that(2) fit by (auto simp: decoder_inv_def)
    then show ?thesis using r(5) by simp
  qed
  then show ?thesis using r by (auto simp: prefix_def)
qed

lemmas decoder_eval =
  decoder_step_def decoder_input_handler_done_def decoder_output_handler_done_def process_data_def
  Let_def decoder_send_def decoder_recv_def blit_def ltoh16_def htol16_def unmem16_def put_byte_def
  decoder_contract_def PacketProtoDecoder_Init_def PACKETPROTO_ENCLEN_def PACKETPROTO_MAXPAYLOAD_def

theorem decoder_reassembles_witness:
  "\<exists>enc enc' os. PacketProtoDecoder_Init 3 (Some [0, 0, 0, 0, 0]) = Some (Some enc) \<and>
     run decoder_step enc [Stream_data [1], Stream_data [0, 7, 2], Packet_sent, Stream_data [0],
       Stream_data [8, 9], Packet_sent] = Some (enc', os) \<and>
     sent_packets os = [[7], [8, 9]]"
proof -
  let ?es = "[Stream_data [1], Stream_data [0, 7, 2], Packet_sent, Stream_data [0],
    Stream_data [8, 9], Packet_sent]" and ?ps = "[[7], [8, 9]] :: byte list list"
  let ?enc = "\<lparr>pd_output_mtu = 3, pd_buf_size = 5, pd_buf_start = 0, pd_buf_used = 0,
      pd_buf = [0, 0, 0, 0, 0], pd_receiving = Some (0, 5), pd_sending = False\<rparr>"
  have i: "PacketProtoDecoder_Init 3 (Some [0, 0, 0, 0, 0]) = Some (Some ?enc)"
    by (simp add: decoder_eval)
  have "admissible decoder_contract decoder_step ?enc ?es" by (simp add: decoder_eval)
  moreover have "run decoder_step ?enc ?es = Some (enc', os) \<Longrightarrow> \<not> pd_sending enc'" for enc' os
    by (auto simp: decoder_eval)
  ultimately show ?thesis using decoder_reassembles [OF i, of ?ps ?es] i
    by (auto simp: PACKETPROTO_ENCLEN_def PACKETPROTO_MAXPAYLOAD_def stream_bytes_def pp_encode_def
        mem16_def byte_at_def)
qed

text \<open>C16. Safety on any stream: fed arbitrary bytes in arbitrary pieces, resets included, the
  decoder fails no assertion, never sends a packet beyond its MTU, and whenever it is not sending
  it is asking for at least one byte inside its buffer, so it can always go on.\<close>
theorem decoder_any_stream:
  assumes "PacketProtoDecoder_Init mtu (Some buf) = Some (Some enc)"
    "length buf = PACKETPROTO_ENCLEN (min mtu PACKETPROTO_MAXPAYLOAD)"
    "admissible decoder_contract decoder_step enc es"
  shows "\<exists>enc' os. run decoder_step enc es = Some (enc', os) \<and>
    (\<forall>p \<in> set (sent_packets os). length p \<le> mtu) \<and>
    (pd_sending enc' \<or> (\<exists>off len. pd_receiving enc' = Some (off, len) \<and> 0 < len \<and>
       off + len \<le> length (pd_buf enc')))"
proof -
  note enc = PacketProtoDecoder_Init_inv [OF assms(1,2)]
  obtain enc' os where r: "run decoder_step enc es = Some (enc', os)" "decoder_inv enc'"
    using decoder.run_safe [OF enc(1) assms(3)] by blast
  then show ?thesis
    using decoder_run_sends [OF enc(1) assms(3) r(1)] enc(3) by (auto simp: decoder_inv_def split: if_splits)
qed

theorem decoder_any_stream_witness:
  "\<exists>enc enc' os. PacketProtoDecoder_Init 3 (Some [0, 0, 0, 0, 0]) = Some (Some enc) \<and>
     run decoder_step enc [Stream_data [4, 0, 1], Reset, Stream_data [9]] = Some (enc', os) \<and>
     (pd_sending enc' \<or> (\<exists>off len. pd_receiving enc' = Some (off, len) \<and> 0 < len \<and>
       off + len \<le> length (pd_buf enc')))"
proof -
  let ?enc = "\<lparr>pd_output_mtu = 3, pd_buf_size = 5, pd_buf_start = 0, pd_buf_used = 0,
      pd_buf = [0, 0, 0, 0, 0], pd_receiving = Some (0, 5), pd_sending = False\<rparr>"
  have i: "PacketProtoDecoder_Init 3 (Some [0, 0, 0, 0, 0]) = Some (Some ?enc)"
    by (simp add: decoder_eval)
  have "admissible decoder_contract decoder_step ?enc [Stream_data [4, 0, 1], Reset, Stream_data [9]]"
    by (simp add: decoder_eval PacketProtoDecoder_Reset_def)
  from decoder_any_stream [OF i _ this] i show ?thesis
    by (simp add: PACKETPROTO_ENCLEN_def PACKETPROTO_MAXPAYLOAD_def) blast
qed

text \<open>C17. The encoder produces the wire format: asked to fill a packet of at least its output MTU,
  it delivers the two-byte little-endian length followed by the packet it received, and is ready
  for the next request.\<close>
theorem encoder_wire_format:
  assumes "PacketProtoEncoder_Init mtu = Some enc" "PACKETPROTO_ENCLEN mtu \<le> length data" "length p \<le> mtu"
  shows "encoder_round enc data p = Some (enc, pp_encode p)"
proof -
  have e: "enc = \<lparr>pe_input_mtu = mtu, pe_output_packet = None, pe_receiving = False\<rparr>"
    using assms(1) by (simp add: PacketProtoEncoder_Init_def)
  let ?d = "blit 0 (mem16 (of_nat (length p))) (blit 2 p data)"
  have "take (2 + length p) ?d = pp_encode p"
    using assms(2,3) by (simp add: blit_def pp_encode_def PACKETPROTO_ENCLEN_def)
  then show ?thesis
    using e assms(3)
    by (simp add: encoder_round_def encoder_output_handler_recv_def encoder_input_handler_done_def
        PACKETPROTO_ENCLEN_def htol16_def)
qed

theorem encoder_wire_format_witness:
  "\<exists>enc. PacketProtoEncoder_Init 3 = Some enc \<and>
     encoder_round enc [0, 0, 0, 0, 0] [8, 9] = Some (enc, [2, 0, 8, 9])"
  using encoder_wire_format [of 3 _ "[0, 0, 0, 0, 0]" "[8, 9]"]
  by (simp add: PacketProtoEncoder_Init_def PACKETPROTO_ENCLEN_def PACKETPROTO_MAXPAYLOAD_def
      pp_encode_def mem16_def byte_at_def)

end
