(* ===== verification/BAddr.thy ===== *)
theory BAddr
  imports Byteorder
begin

text \<open>
  Addresses: system/BAddr.h, for the address types the program uses (none, IPv4, IPv6; nothing
  in it makes a \<open>BADDR_TYPE_PACKET\<close> address). Addresses and ports keep the byte order they have
  in memory; an IPv6 address is its 16 bytes. The locale \<open>comparator\<close> is the contract of the
  three-way comparison functions the search trees are built with (misc/compare.h).
\<close>

section \<open>Comparison\<close>

definition B_COMPARE :: "'a::linorder \<Rightarrow> 'a \<Rightarrow> int" where
  "B_COMPARE a b = of_bool (a > b) - of_bool (a < b)"

text \<open>\<open>memcmp\<close> on equally long byte strings; a shorter one, which the code never compares, is
  the smaller.\<close>

fun memcmp :: "byte list \<Rightarrow> byte list \<Rightarrow> int" where
  "memcmp [] [] = 0"
| "memcmp [] (b # bs) = - 1"
| "memcmp (a # as) [] = 1"
| "memcmp (a # as) (b # bs) = (if a = b then memcmp as bs else if a < b then - 1 else 1)"

locale comparator =
  fixes cmp :: "'a \<Rightarrow> 'a \<Rightarrow> int"
  assumes cmp_eq: "cmp a b = 0 \<longleftrightarrow> a = b"
    and cmp_sym: "cmp a b < 0 \<longleftrightarrow> cmp b a > 0"
    and cmp_trans: "cmp a b < 0 \<Longrightarrow> cmp b c < 0 \<Longrightarrow> cmp a c < 0"
begin

lemma cmp_le_iff: "cmp a b \<le> 0 \<longleftrightarrow> cmp a b < 0 \<or> a = b"
  using cmp_eq [of a b] by linarith

lemma cmp_le_trans: "cmp a b \<le> 0 \<Longrightarrow> cmp b c \<le> 0 \<Longrightarrow> cmp a c \<le> 0"
  using cmp_trans by (auto simp: cmp_le_iff)

lemma cmp_antisym: "cmp a b \<le> 0 \<Longrightarrow> cmp b a \<le> 0 \<Longrightarrow> a = b"
  using cmp_sym [of a b] cmp_eq [of a b] by linarith

lemma cmp_total: "cmp a b \<le> 0 \<or> cmp b a \<le> 0"
  using cmp_sym [of b a] by linarith

lemma cmp_less_le: "cmp a b < 0 \<longleftrightarrow> cmp a b \<le> 0 \<and> \<not> cmp b a \<le> 0"
  using cmp_sym [of a b] by linarith

end

sublocale comparator \<subseteq> ord: linorder "\<lambda>a b. cmp a b \<le> 0" "\<lambda>a b. cmp a b < 0"
proof unfold_locales
  fix x y z
  show "(cmp x y < 0) = (cmp x y \<le> 0 \<and> \<not> cmp y x \<le> 0)" by (rule cmp_less_le)
  show "cmp x x \<le> 0" by (simp add: cmp_le_iff)
  show "cmp x y \<le> 0 \<Longrightarrow> cmp y z \<le> 0 \<Longrightarrow> cmp x z \<le> 0" by (rule cmp_le_trans)
  show "cmp x y \<le> 0 \<Longrightarrow> cmp y x \<le> 0 \<Longrightarrow> x = y" by (rule cmp_antisym)
  show "cmp x y \<le> 0 \<or> cmp y x \<le> 0" by (rule cmp_total)
qed

interpretation compare: comparator "B_COMPARE :: 'a::linorder \<Rightarrow> 'a \<Rightarrow> int"
  by unfold_locales (auto simp: B_COMPARE_def of_bool_def split: if_splits)

lemma memcmp_eq: "memcmp a b = 0 \<longleftrightarrow> a = b"
  by (induction a b rule: memcmp.induct) auto

lemma memcmp_sym: "memcmp a b < 0 \<longleftrightarrow> memcmp b a > 0"
  by (induction a b rule: memcmp.induct) auto

lemma memcmp_trans: "memcmp a b < 0 \<Longrightarrow> memcmp b c < 0 \<Longrightarrow> memcmp a c < 0"
proof (induction a b arbitrary: c rule: memcmp.induct)
  case (2 b bs)
  then show ?case by (cases c) auto
next
  case (4 a as b bs)
  then show ?case by (cases c) (auto split: if_splits)
qed auto

interpretation memcmp: comparator memcmp
  by (unfold_locales, rule memcmp_eq, rule memcmp_sym, erule (1) memcmp_trans)

lemma memcmp_asym: "memcmp a b < 0 \<Longrightarrow> \<not> memcmp b a < 0"
  using memcmp_sym [of a b] by linarith

text \<open>Comparing by a first key and, where that does not decide, by a second.\<close>

lemma comparator_lex:
  assumes "comparator c1" "comparator c2"
  shows "comparator (\<lambda>x y. let r = c1 (fst x) (fst y) in if r \<noteq> 0 then r else c2 (snd x) (snd y))"
proof
  note [simp] = comparator.cmp_eq [OF assms(1)] comparator.cmp_eq [OF assms(2)]
  note sym = comparator.cmp_sym [OF assms(1)] comparator.cmp_sym [OF assms(2)]
  note trans = comparator.cmp_trans [OF assms(1)] comparator.cmp_trans [OF assms(2)]
  fix x y z :: "'a \<times> 'b"
  let ?c = "\<lambda>x y. let r = c1 (fst x) (fst y) in if r \<noteq> 0 then r else c2 (snd x) (snd y)"
  show "?c x y = 0 \<longleftrightarrow> x = y" by (auto simp: Let_def prod_eq_iff)
  show "?c x y < 0 \<longleftrightarrow> ?c y x > 0" using sym by (auto simp: Let_def)
  show "?c x y < 0 \<Longrightarrow> ?c y z < 0 \<Longrightarrow> ?c x z < 0"
    using trans(1) [of "fst x" "fst y" "fst z"] trans(2) [of "snd x" "snd y" "snd z"]
      sym(1) [of "fst z" "fst y"]
    by (auto simp: Let_def split: if_splits)
qed

section \<open>Addresses\<close>

datatype bipaddr = BIP_NONE | BIP_IPV4 u32 | BIP_IPV6 "byte list"

datatype baddr = BADDR_NONE | BADDR_IPV4 u32 u16 | BADDR_IPV6 "byte list" u16

text \<open>An address that holds an IP address, of the right length.\<close>

fun addr_ok :: "baddr \<Rightarrow> bool" where
  "addr_ok (BADDR_IPV4 ip port) = True"
| "addr_ok (BADDR_IPV6 ip port) = (length ip = 16)"
| "addr_ok BADDR_NONE = False"

definition BADDR_TYPE_NONE :: int where "BADDR_TYPE_NONE = 0"
definition BADDR_TYPE_IPV4 :: int where "BADDR_TYPE_IPV4 = 1"
definition BADDR_TYPE_IPV6 :: int where "BADDR_TYPE_IPV6 = 2"

fun baddr_type :: "baddr \<Rightarrow> int" where
  "baddr_type BADDR_NONE = BADDR_TYPE_NONE"
| "baddr_type (BADDR_IPV4 ip port) = BADDR_TYPE_IPV4"
| "baddr_type (BADDR_IPV6 ip port) = BADDR_TYPE_IPV6"

fun BIPAddr_IsInvalid :: "bipaddr \<Rightarrow> bool" where
  "BIPAddr_IsInvalid BIP_NONE = True"
| "BIPAddr_IsInvalid _ = False"

fun BIPAddr_Compare :: "bipaddr \<Rightarrow> bipaddr \<Rightarrow> bool" where
  "BIPAddr_Compare (BIP_IPV4 a) (BIP_IPV4 b) = (a = b)"
| "BIPAddr_Compare (BIP_IPV6 a) (BIP_IPV6 b) = (\<not> memcmp a b \<noteq> 0)"
| "BIPAddr_Compare _ _ = False"

fun BAddr_GetPort :: "baddr \<Rightarrow> u16 option" where
  "BAddr_GetPort (BADDR_IPV4 ip port) = Some port"
| "BAddr_GetPort (BADDR_IPV6 ip port) = Some port"
| "BAddr_GetPort BADDR_NONE = None"

fun BAddr_GetIPAddr :: "baddr \<Rightarrow> bipaddr" where
  "BAddr_GetIPAddr (BADDR_IPV4 ip port) = BIP_IPV4 ip"
| "BAddr_GetIPAddr (BADDR_IPV6 ip port) = BIP_IPV6 ip"
| "BAddr_GetIPAddr BADDR_NONE = BIP_NONE"

fun BAddr_SetPort :: "baddr \<Rightarrow> u16 \<Rightarrow> baddr option" where
  "BAddr_SetPort (BADDR_IPV4 ip _) port = Some (BADDR_IPV4 ip port)"
| "BAddr_SetPort (BADDR_IPV6 ip _) port = Some (BADDR_IPV6 ip port)"
| "BAddr_SetPort BADDR_NONE port = None"

definition BAddr_MakeNone :: baddr where
  "BAddr_MakeNone = BADDR_NONE"

definition BAddr_MakeIPv4 :: "u32 \<Rightarrow> u16 \<Rightarrow> baddr" where
  "BAddr_MakeIPv4 ip port = BADDR_IPV4 ip port"

definition BAddr_MakeIPv6 :: "byte list \<Rightarrow> u16 \<Rightarrow> baddr" where
  "BAddr_MakeIPv6 ip port = BADDR_IPV6 (take 16 ip) port"

fun BAddr_MakeFromIpaddrAndPort :: "bipaddr \<Rightarrow> u16 \<Rightarrow> baddr" where
  "BAddr_MakeFromIpaddrAndPort BIP_NONE port = BAddr_MakeNone"
| "BAddr_MakeFromIpaddrAndPort (BIP_IPV4 ip) port = BAddr_MakeIPv4 ip port"
| "BAddr_MakeFromIpaddrAndPort (BIP_IPV6 ip) port = BAddr_MakeIPv6 ip port"

definition BAddr_IsInvalid :: "baddr \<Rightarrow> bool" where
  "BAddr_IsInvalid addr = (baddr_type addr = BADDR_TYPE_NONE)"

fun BAddr_Compare :: "baddr \<Rightarrow> baddr \<Rightarrow> bool" where
  "BAddr_Compare (BADDR_IPV4 ip1 port1) (BADDR_IPV4 ip2 port2) = (ip1 = ip2 \<and> port1 = port2)"
| "BAddr_Compare (BADDR_IPV6 ip1 port1) (BADDR_IPV6 ip2 port2) =
     (\<not> memcmp ip1 ip2 \<noteq> 0 \<and> port1 = port2)"
| "BAddr_Compare _ _ = False"

definition BAddr_CompareOrder :: "baddr \<Rightarrow> baddr \<Rightarrow> int" where
  "BAddr_CompareOrder addr1 addr2 =
     (let cmp = B_COMPARE (baddr_type addr1) (baddr_type addr2) in
      if cmp \<noteq> 0 then cmp else
      case (addr1, addr2) of
        (BADDR_IPV4 ip1 port1, BADDR_IPV4 ip2 port2) \<Rightarrow>
          let cmp = B_COMPARE (ntoh32 ip1) (ntoh32 ip2) in
          if cmp \<noteq> 0 then cmp else B_COMPARE (ntoh16 port1) (ntoh16 port2)
      | (BADDR_IPV6 ip1 port1, BADDR_IPV6 ip2 port2) \<Rightarrow>
          let cmp = memcmp ip1 ip2 in
          if cmp \<noteq> 0 then B_COMPARE cmp 0 else B_COMPARE (ntoh16 port1) (ntoh16 port2)
      | _ \<Rightarrow> 0)"

section \<open>\<open>BAddr_CompareOrder\<close> is a linear order\<close>

lemmas baddr_types = BADDR_TYPE_NONE_def BADDR_TYPE_IPV4_def BADDR_TYPE_IPV6_def

lemma ntoh_inject [simp]: "ntoh16 p = ntoh16 q \<longleftrightarrow> p = q" "ntoh32 x = ntoh32 y \<longleftrightarrow> x = y"
  by (metis ntoh_hton(4), metis ntoh_hton(5))

lemma B_COMPARE_signs [simp]:
  "B_COMPARE a b = 0 \<longleftrightarrow> a = b" "B_COMPARE a b < 0 \<longleftrightarrow> a < b" "0 < B_COMPARE a b \<longleftrightarrow> b < a"
  by (auto simp: B_COMPARE_def)

lemma CompareOrder_eq: "BAddr_CompareOrder a b = 0 \<longleftrightarrow> a = b"
  by (cases a; cases b) (auto simp: BAddr_CompareOrder_def Let_def baddr_types memcmp_eq)

lemma CompareOrder_sym: "BAddr_CompareOrder a b < 0 \<longleftrightarrow> BAddr_CompareOrder b a > 0"
  by (cases a; cases b)
    (auto simp: BAddr_CompareOrder_def Let_def baddr_types memcmp_eq memcmp_sym)

lemma CompareOrder_trans:
  "BAddr_CompareOrder a b < 0 \<Longrightarrow> BAddr_CompareOrder b c < 0 \<Longrightarrow> BAddr_CompareOrder a c < 0"
  by (cases a; cases b; cases c)
    (auto simp: BAddr_CompareOrder_def Let_def baddr_types memcmp_eq split: if_splits
      intro: memcmp_trans order_less_trans dest: memcmp_asym)

interpretation baddr: comparator BAddr_CompareOrder
  by (unfold_locales, rule CompareOrder_eq, rule CompareOrder_sym, erule (1) CompareOrder_trans)

instantiation baddr :: linorder
begin

definition less_eq_baddr :: "baddr \<Rightarrow> baddr \<Rightarrow> bool" where
  "less_eq_baddr a b = (BAddr_CompareOrder a b \<le> 0)"

definition less_baddr :: "baddr \<Rightarrow> baddr \<Rightarrow> bool" where
  "less_baddr a b = (BAddr_CompareOrder a b < 0)"

instance
proof
  fix x y z :: baddr
  show "x < y \<longleftrightarrow> x \<le> y \<and> \<not> y \<le> x"
    unfolding less_eq_baddr_def less_baddr_def by (rule baddr.cmp_less_le)
  show "x \<le> x" by (simp add: less_eq_baddr_def baddr.cmp_le_iff)
  show "x \<le> y \<Longrightarrow> y \<le> z \<Longrightarrow> x \<le> z" unfolding less_eq_baddr_def by (rule baddr.cmp_le_trans)
  show "x \<le> y \<Longrightarrow> y \<le> x \<Longrightarrow> x = y" unfolding less_eq_baddr_def by (rule baddr.cmp_antisym)
  show "x \<le> y \<or> y \<le> x" unfolding less_eq_baddr_def by (rule baddr.cmp_total)
qed

end



end
