(* ===== verification/Bsize.thy ===== *)
theory Bsize
  imports Prelude
begin

text \<open>
  Sizes with overflow detection: misc/bsize.h, for a 64-bit \<open>size_t\<close>.
  \<open>bs_denotes\<close> is what the callers rely on: a size computed without the overflow flag is the
  true one.
\<close>

abbreviation (input) SIZE_MAX :: u64 where "SIZE_MAX \<equiv> - 1"

record bsize =
  is_overflow :: bool
  bs_value :: u64

definition bsize_fromsize :: "u64 \<Rightarrow> bsize" where
  "bsize_fromsize v = \<lparr>is_overflow = False, bs_value = v\<rparr>"

text \<open>\<open>v > SIZE_MAX\<close> compares as \<open>size_t\<close> and is never true.\<close>

definition bsize_fromint :: "int \<Rightarrow> bsize" where
  "bsize_fromint v = \<lparr>is_overflow = (v < 0 \<or> word_of_int v > SIZE_MAX), bs_value = word_of_int v\<rparr>"

definition bsize_overflow :: bsize where
  "bsize_overflow = \<lparr>is_overflow = True, bs_value = 0\<rparr>"

definition bsize_tosize :: "bsize \<Rightarrow> u64 option" where
  "bsize_tosize s = (if is_overflow s then None else Some (bs_value s))"

definition bsize_toint :: "bsize \<Rightarrow> int option" where
  "bsize_toint s = (if is_overflow s \<or> bs_value s > word_of_int INT_MAX then None
                    else Some (c_int (uint (bs_value s))))"

definition bsize_add :: "bsize \<Rightarrow> bsize \<Rightarrow> bsize" where
  "bsize_add s1 s2 =
     \<lparr>is_overflow = (is_overflow s1 \<or> is_overflow s2 \<or> bs_value s2 > SIZE_MAX - bs_value s1),
      bs_value = bs_value s1 + bs_value s2\<rparr>"

definition bsize_max :: "bsize \<Rightarrow> bsize \<Rightarrow> bsize" where
  "bsize_max s1 s2 =
     \<lparr>is_overflow = (is_overflow s1 \<or> is_overflow s2),
      bs_value = of_bool (bs_value s1 > bs_value s2) * bs_value s1 +
                 of_bool (bs_value s1 \<le> bs_value s2) * bs_value s2\<rparr>"

definition bsize_mul :: "bsize \<Rightarrow> bsize \<Rightarrow> bsize" where
  "bsize_mul s1 s2 =
     \<lparr>is_overflow = (is_overflow s1 \<or> is_overflow s2 \<or>
        (bs_value s1 \<noteq> 0 \<and> bs_value s2 > SIZE_MAX div bs_value s1)),
      bs_value = bs_value s1 * bs_value s2\<rparr>"

section \<open>Soundness\<close>

text \<open>\<open>bs_denotes s n\<close>: \<open>s\<close> stands for the size \<open>n\<close>, exactly when it fits and flagged
  otherwise.\<close>

definition bs_denotes :: "bsize \<Rightarrow> nat \<Rightarrow> bool" where
  "bs_denotes s n \<longleftrightarrow> (if n < 2 ^ 64 then \<not> is_overflow s \<and> unat (bs_value s) = n else is_overflow s)"

lemma unat_u64_less: "unat (x :: u64) < 18446744073709551616"
  by (rule order_less_le_trans [OF unsigned_less]) simp

lemma unat_max64: "unat (SIZE_MAX :: u64) = 18446744073709551615"
  by (simp add: unsigned_minus_1_eq_mask mask_eq_exp_minus_1)

lemma bs_denotes_fromsize [simp]: "bs_denotes (bsize_fromsize v) (unat v)"
  using unat_u64_less [of v] by (simp add: bs_denotes_def bsize_fromsize_def)

lemma bs_denotes_fromint: "0 \<le> v \<Longrightarrow> v \<le> INT_MAX \<Longrightarrow> bs_denotes (bsize_fromint v) (nat v)"
  by (simp add: bs_denotes_def bsize_fromint_def unat_eq_nat_uint uint_word_of_int_eq take_bit_int_eq_self word_order.extremum_strict not_less)

lemma bsize_add_ovf: "(y > SIZE_MAX - x) = (2 ^ 64 \<le> unat x + unat (y :: u64))"
proof -
  have "unat (SIZE_MAX - x) = unat (SIZE_MAX :: u64) - unat x" by (rule unat_sub) simp
  then show ?thesis using unat_u64_less [of x] by (simp add: word_less_nat_alt unat_max64) linarith
qed

lemma bs_denotes_add:
  assumes "bs_denotes s m" "bs_denotes t n" shows "bs_denotes (bsize_add s t) (m + n)"
  using assms bsize_add_ovf [of "bs_value s" "bs_value t"]
  by (auto simp: bs_denotes_def bsize_add_def unat_word_ariths split: if_splits)

lemma bs_denotes_max:
  assumes "bs_denotes s m" "bs_denotes t n" shows "bs_denotes (bsize_max s t) (max m n)"
  using assms by (auto simp: bs_denotes_def bsize_max_def word_less_nat_alt word_le_nat_alt max_def split: if_splits)

lemma bsize_mul_ovf: "x \<noteq> 0 \<Longrightarrow> (y > SIZE_MAX div x) = (2 ^ 64 \<le> unat x * unat (y :: u64))"
proof -
  assume "x \<noteq> 0"
  then have x: "0 < unat x" by (simp add: unat_gt_0)
  have "(y > SIZE_MAX div x) = (18446744073709551615 div unat x < unat y)"
    by (simp add: word_less_nat_alt unat_div unat_max64)
  also have "\<dots> = (18446744073709551615 < unat y * unat x)"
    using x by (simp add: div_less_iff_less_mult)
  finally show ?thesis by (simp add: mult.commute) linarith
qed

lemma bs_denotes_mul:
  assumes "bs_denotes s m" "bs_denotes t n" "0 < m" "0 < n" shows "bs_denotes (bsize_mul s t) (m * n)"
proof (cases "m < 2 ^ 64 \<and> n < 2 ^ 64")
  case True
  then have v: "\<not> is_overflow s" "\<not> is_overflow t" "unat (bs_value s) = m" "unat (bs_value t) = n"
    using assms by (auto simp: bs_denotes_def)
  then have "bs_value s \<noteq> 0" using assms(3) by auto
  from bsize_mul_ovf [OF this, of "bs_value t"] v \<open>bs_value s \<noteq> 0\<close> show ?thesis
    by (auto simp: bs_denotes_def bsize_mul_def unat_word_ariths)
next
  case False
  then have "is_overflow s \<or> is_overflow t" using assms by (auto simp: bs_denotes_def)
  moreover have "m * 1 \<le> m * n" "1 * n \<le> m * n" using assms(3,4) by (intro mult_le_mono; simp)+
  then have "\<not> m * n < 2 ^ 64" using False by linarith
  ultimately show ?thesis by (auto simp: bs_denotes_def bsize_mul_def)
qed

lemma bsize_toint_denotes:
  assumes "bs_denotes s n"
  shows "bsize_toint s = (if int n \<le> INT_MAX then Some (int n) else None)"
proof (cases "n < 2 ^ 64")
  case True
  then have v: "\<not> is_overflow s" "unat (bs_value s) = n" using assms by (auto simp: bs_denotes_def)
  have "(bs_value s > word_of_int INT_MAX) = (2147483647 < n)" using v(2) by (simp add: word_less_nat_alt)
  moreover have "uint (bs_value s) = int n" by (simp flip: v(2))
  ultimately show ?thesis using v by (auto simp: bsize_toint_def)
next
  case False
  then show ?thesis using assms by (simp add: bs_denotes_def bsize_toint_def)
qed

end
