(* ===== verification/Udpgw_Proto.thy ===== *)
theory Udpgw_Proto
  imports BAddr Bsize Packet_Proto
begin

text \<open>
  The wire format of the UDP gateway, protocol/udpgw_proto.h: the packed structs as byte lists and
  the MTU computation.
\<close>

definition UDPGW_CLIENT_FLAG_KEEPALIVE :: byte where "UDPGW_CLIENT_FLAG_KEEPALIVE = push_bit 0 1"
definition UDPGW_CLIENT_FLAG_REBIND :: byte where "UDPGW_CLIENT_FLAG_REBIND = push_bit 1 1"
definition UDPGW_CLIENT_FLAG_DNS :: byte where "UDPGW_CLIENT_FLAG_DNS = push_bit 2 1"
definition UDPGW_CLIENT_FLAG_IPV6 :: byte where "UDPGW_CLIENT_FLAG_IPV6 = push_bit 3 1"

lemmas udpgw_flags =
  UDPGW_CLIENT_FLAG_KEEPALIVE_def UDPGW_CLIENT_FLAG_REBIND_def UDPGW_CLIENT_FLAG_DNS_def
  UDPGW_CLIENT_FLAG_IPV6_def

record udpgw_header =
  uh_flags :: byte
  uh_conid :: u16

definition udpgw_header_bytes :: "udpgw_header \<Rightarrow> byte list" where
  "udpgw_header_bytes h = uh_flags h # mem16 (uh_conid h)"

definition udpgw_header_of_bytes :: "byte list \<Rightarrow> udpgw_header" where
  "udpgw_header_of_bytes m = \<lparr>uh_flags = m ! 0, uh_conid = unmem16 (seg 1 2 m)\<rparr>"

abbreviation (input) sizeof_udpgw_header :: nat where "sizeof_udpgw_header \<equiv> 3"
abbreviation (input) sizeof_udpgw_addr_ipv4 :: nat where "sizeof_udpgw_addr_ipv4 \<equiv> 6"
abbreviation (input) sizeof_udpgw_addr_ipv6 :: nat where "sizeof_udpgw_addr_ipv6 \<equiv> 18"

text \<open>The packed structs \<open>udpgw_addr_ipv4\<close> and \<open>udpgw_addr_ipv6\<close>.\<close>

definition udpgw_addr_ipv4_bytes :: "u32 \<Rightarrow> u16 \<Rightarrow> byte list" where
  "udpgw_addr_ipv4_bytes ip port = mem32 ip @ mem16 port"

definition udpgw_addr_ipv6_bytes :: "byte list \<Rightarrow> u16 \<Rightarrow> byte list" where
  "udpgw_addr_ipv6_bytes ip port = ip @ mem16 port"

definition udpgw_compute_mtu :: "int \<Rightarrow> int" where
  "udpgw_compute_mtu dgram_mtu =
     (let bs = bsize_add (bsize_fromsize (of_nat sizeof_udpgw_header))
                 (bsize_add
                   (bsize_max (bsize_fromsize (of_nat sizeof_udpgw_addr_ipv4))
                     (bsize_fromsize (of_nat sizeof_udpgw_addr_ipv6)))
                   (bsize_fromint dgram_mtu)) in
      case bsize_toint bs of None \<Rightarrow> - 1 | Some s \<Rightarrow> s)"

lemma udpgw_compute_mtu_value:
  assumes "d \<le> INT_MAX"
  shows "udpgw_compute_mtu d = (if 0 \<le> d \<and> d \<le> INT_MAX - 21 then d + 21 else - 1)"
proof (cases "0 \<le> d")
  case True
  note f = bs_denotes_fromsize [of "word_of_nat _"]
  have "bs_denotes (bsize_add (bsize_fromsize (of_nat 3))
      (bsize_add (bsize_max (bsize_fromsize (of_nat 6)) (bsize_fromsize (of_nat 18))) (bsize_fromint d)))
      (3 + (max 6 18 + nat d))"
    using bs_denotes_fromsize [of "of_nat 3"] bs_denotes_fromsize [of "of_nat 6"]
      bs_denotes_fromsize [of "of_nat 18"] bs_denotes_fromint [OF True assms]
    by (intro bs_denotes_add bs_denotes_max) simp_all
  from bsize_toint_denotes [OF this] show ?thesis
    using True by (simp add: udpgw_compute_mtu_def)
next
  case False
  then show ?thesis
    by (simp add: udpgw_compute_mtu_def bsize_toint_def bsize_add_def bsize_fromint_def)
qed

end
