(* ===== verification/Udpgw_Client.thy ===== *)
theory Udpgw_Client
  imports Udpgw_Proto
begin

text \<open>
  The UDP gateway client, udpgw_client/UdpGwClient.c. A connection object is named by its address (what \<open>malloc\<close>
  returned); the client holds the objects, the two search trees as maps from the key to the
  object (that a map is what the trees are rests on their comparators being linear orders) and the
  list of the objects, least recently used first. Calls on the flow components of a connection
  and on the client's user are actions, in order; what those components answer (memory, room in
  the send buffer) are arguments of the operation that asks.
\<close>

section \<open>State\<close>

record conaddr =
  ca_local_addr :: baddr
  ca_remote_addr :: baddr

text \<open>\<open>con_first\<close> is the first packet of a connection (its flags and data), held until the first
  job has run; \<open>None\<close> when that job is not pending.\<close>

record connection =
  con_conaddr :: conaddr
  con_conid :: u16
  con_first :: "(byte \<times> byte list) option"

record udpgw_client =
  ug_udp_mtu :: int
  ug_max_connections :: int
  ug_udpgw_mtu :: int
  ug_pp_mtu :: int
  ug_objects :: "nat \<Rightarrow> connection option"
  ug_tree_by_conaddr :: "conaddr \<Rightarrow> nat option"
  ug_tree_by_conid :: "u16 \<Rightarrow> nat option"
  ug_connections_list :: "nat list"
  ug_num_connections :: int
  ug_next_conid :: int
  ug_keepalive_sending :: bool
  ug_have_server :: bool

text \<open>The calls the client makes: \<open>Buffer_packet p bs\<close> is a packet written through the
  \<open>BufferWriter\<close> of a connection, \<open>Received\<close> and \<open>Server_error\<close> are the user's
  handlers, \<open>Recv_done\<close> accepts a packet from the decoder, the others are the calls on the
  components named.\<close>

datatype udpgw_action =
  Buffer_packet nat "byte list"
| Received baddr baddr "byte list"
| Server_error
| Recv_done
| Keepalive_send "byte list"
| Recv_if_Init | Recv_if_Free
| Recv_decoder_Init | Recv_decoder_Free
| Send_sender_Init | Send_sender_Free
| Send_connector_Connect | Send_connector_Disconnect
| Connection_freed nat

section \<open>Comparators\<close>

definition uint16_comparator :: "u16 \<Rightarrow> u16 \<Rightarrow> int" where
  "uint16_comparator v1 v2 = B_COMPARE v1 v2"

definition conaddr_comparator :: "conaddr \<Rightarrow> conaddr \<Rightarrow> int" where
  "conaddr_comparator v1 v2 =
     (let r = BAddr_CompareOrder (ca_remote_addr v1) (ca_remote_addr v2) in
      if r \<noteq> 0 then r else BAddr_CompareOrder (ca_local_addr v1) (ca_local_addr v2))"

interpretation conids: comparator uint16_comparator
  unfolding uint16_comparator_def [abs_def] by (rule compare.comparator_axioms)

interpretation conaddrs: comparator conaddr_comparator
proof -
  have lex: "comparator (\<lambda>x y. let r = BAddr_CompareOrder (fst x) (fst y) in
      if r \<noteq> 0 then r else BAddr_CompareOrder (snd x) (snd y))"
    by (rule comparator_lex) (rule baddr.comparator_axioms)+
  let ?k = "\<lambda>c. (ca_remote_addr c, ca_local_addr c)"
  have k: "\<And>a b. conaddr_comparator a b = (\<lambda>x y. let r = BAddr_CompareOrder (fst x) (fst y) in
      if r \<noteq> 0 then r else BAddr_CompareOrder (snd x) (snd y)) (?k a) (?k b)"
    by (simp only: conaddr_comparator_def fst_conv snd_conv)
  have i: "\<And>a b :: conaddr. ?k a = ?k b \<longleftrightarrow> a = b" by (metis conaddr.equality old.unit.exhaust prod.inject)
  show "comparator conaddr_comparator"
    using comparator.cmp_eq [OF lex] comparator.cmp_sym [OF lex] comparator.cmp_trans [OF lex] i
    unfolding comparator_def k by metis
qed

section \<open>Operations\<close>

definition free_server :: "udpgw_action list" where
  "free_server = [Send_connector_Disconnect, Send_sender_Free, Recv_decoder_Free, Recv_if_Free]"

definition decoder_handler_error :: "udpgw_client \<Rightarrow> (udpgw_client \<times> udpgw_action list) option" where
  "decoder_handler_error c = do {
     assert_that (ug_have_server c);
     Some (c, [Server_error])
   }"

definition find_connection_by_conaddr :: "udpgw_client \<Rightarrow> conaddr \<Rightarrow> nat option" where
  "find_connection_by_conaddr c conaddr = ug_tree_by_conaddr c conaddr"

definition find_connection_by_conid :: "udpgw_client \<Rightarrow> u16 \<Rightarrow> nat option" where
  "find_connection_by_conid c conid = ug_tree_by_conid c conid"

text \<open>\<open>LinkedList1_Remove\<close> followed by \<open>LinkedList1_Append\<close>.\<close>

definition move_to_end :: "udpgw_client \<Rightarrow> nat \<Rightarrow> udpgw_client" where
  "move_to_end c p = c\<lparr>ug_connections_list := remove1 p (ug_connections_list c) @ [p]\<rparr>"

text \<open>The address of a packet: what is left of the data after it, if it is complete.\<close>

definition parse_addr :: "byte \<Rightarrow> byte list \<Rightarrow> (baddr \<times> byte list) option" where
  "parse_addr flags data =
     (if (flags AND UDPGW_CLIENT_FLAG_IPV6) \<noteq> 0 then
        if length data < sizeof_udpgw_addr_ipv6 then None
        else Some (BAddr_MakeIPv6 (seg 0 16 data) (unmem16 (seg 16 2 data)),
                   drop sizeof_udpgw_addr_ipv6 data)
      else
        if length data < sizeof_udpgw_addr_ipv4 then None
        else Some (BAddr_MakeIPv4 (unmem32 (seg 0 4 data)) (unmem16 (seg 4 2 data)),
                   drop sizeof_udpgw_addr_ipv4 data))"

definition recv_interface_handler_send ::
  "udpgw_client \<Rightarrow> byte list \<Rightarrow> (udpgw_client \<times> udpgw_action list) option" where
  "recv_interface_handler_send c data = do {
     assert_that (ug_have_server c);
     assert_that (int (length data) \<le> ug_udpgw_mtu c);
     if length data < sizeof_udpgw_header then Some (c, [Recv_done]) else do {
       let header = udpgw_header_of_bytes data;
       let data = drop sizeof_udpgw_header data;
       let flags = ltoh8 (uh_flags header);
       let conid = ltoh16 (uh_conid header);
       case parse_addr flags data of None \<Rightarrow> Some (c, [Recv_done])
       | Some (remote_addr, data) \<Rightarrow>
           if int (length data) > ug_udp_mtu c then Some (c, [Recv_done]) else
           case find_connection_by_conid c conid of None \<Rightarrow> Some (c, [Recv_done])
           | Some p \<Rightarrow> do {
               con \<leftarrow> ug_objects c p;
               if BAddr_CompareOrder (ca_remote_addr (con_conaddr con)) remote_addr \<noteq> 0
               then Some (c, [Recv_done])
               else Some (move_to_end c p,
                 [Recv_done,
                  Received (ca_local_addr (con_conaddr con)) (ca_remote_addr (con_conaddr con)) data])
             }
     }
   }"

text \<open>The packet \<open>o->keepalive_packet\<close> that \<open>UdpGwClient_Init\<close> builds, with its PacketProto
  header. The build defines \<open>PSIPHON\<close>, which turns the keepalives off.\<close>

definition keepalive_packet :: "byte list" where
  "keepalive_packet = mem16 (of_nat sizeof_udpgw_header) @
     udpgw_header_bytes \<lparr>uh_flags = UDPGW_CLIENT_FLAG_KEEPALIVE, uh_conid = 0\<rparr>"

definition send_monitor_handler :: "bool \<Rightarrow> udpgw_client \<Rightarrow> udpgw_client \<times> udpgw_action list" where
  "send_monitor_handler psiphon c =
     (if psiphon then (c, [])
      else if ug_keepalive_sending c then (c, [])
      else (c\<lparr>ug_keepalive_sending := True\<rparr>, [Keepalive_send keepalive_packet]))"

definition keepalive_if_handler_done :: "udpgw_client \<Rightarrow> udpgw_client option" where
  "keepalive_if_handler_done c = do {
     assert_that (ug_keepalive_sending c);
     Some (c\<lparr>ug_keepalive_sending := False\<rparr>)
   }"

definition conid_advance :: "udpgw_client \<Rightarrow> udpgw_client" where
  "conid_advance c =
     (if ug_next_conid c = ug_max_connections c - 1 then c\<lparr>ug_next_conid := 0\<rparr>
      else c\<lparr>ug_next_conid := ug_next_conid c + 1\<rparr>)"

partial_function (option) find_unused_loop :: "udpgw_client \<Rightarrow> (udpgw_client \<times> u16) option" where
  "find_unused_loop c =
     (if find_connection_by_conid c (word_of_int (ug_next_conid c)) = None
      then Some (c, word_of_int (ug_next_conid c))
      else find_unused_loop (conid_advance c))"

definition find_unused_conid :: "udpgw_client \<Rightarrow> (udpgw_client \<times> u16) option" where
  "find_unused_conid c = do {
     assert_that (ug_num_connections c < ug_max_connections c);
     find_unused_loop c
   }"

text \<open>\<open>BAVL_Insert\<close> in \<open>ASSERT_EXECUTE\<close>: the key must not be in the tree.\<close>

definition tree_insert :: "('k \<Rightarrow> nat option) \<Rightarrow> 'k \<Rightarrow> nat \<Rightarrow> ('k \<Rightarrow> nat option) option" where
  "tree_insert t k p = do { assert_that (t k = None); Some (t(k \<mapsto> p)) }"

text \<open>\<open>mem\<close> is the result of \<open>malloc\<close>, \<open>flow_ok\<close> that of \<open>PacketProtoFlow_Init\<close>.\<close>

definition connection_init ::
  "udpgw_client \<Rightarrow> conaddr \<Rightarrow> byte \<Rightarrow> byte list \<Rightarrow> nat option \<Rightarrow> bool \<Rightarrow> udpgw_client option" where
  "connection_init c conaddr flags data mem flow_ok = do {
     assert_that (ug_num_connections c < ug_max_connections c);
     assert_that (find_connection_by_conaddr c conaddr = None);
     assert_that (int (length data) \<le> ug_udp_mtu c);
     case mem of None \<Rightarrow> Some c
     | Some p \<Rightarrow> do {
         (c, conid) \<leftarrow> find_unused_conid c;
         let con = \<lparr>con_conaddr = conaddr, con_conid = conid, con_first = Some (flags, data)\<rparr>;
         if \<not> flow_ok then Some c else do {
           by_conaddr \<leftarrow> tree_insert (ug_tree_by_conaddr c) conaddr p;
           by_conid \<leftarrow> tree_insert (ug_tree_by_conid c) conid p;
           Some (c\<lparr>ug_objects := (ug_objects c)(p \<mapsto> con),
                   ug_tree_by_conaddr := by_conaddr,
                   ug_tree_by_conid := by_conid,
                   ug_connections_list := ug_connections_list c @ [p],
                   ug_num_connections := ug_num_connections c + 1\<rparr>)
         }
       }
   }"

definition connection_free :: "udpgw_client \<Rightarrow> nat \<Rightarrow> udpgw_client option" where
  "connection_free c p = do {
     con \<leftarrow> ug_objects c p;
     Some (c\<lparr>ug_num_connections := ug_num_connections c - 1,
             ug_connections_list := remove1 p (ug_connections_list c),
             ug_tree_by_conid := (ug_tree_by_conid c)(con_conid con := None),
             ug_tree_by_conaddr := (ug_tree_by_conaddr c)(con_conaddr con := None),
             ug_objects := (ug_objects c)(p := None)\<rparr>)
   }"

fun addr_bytes :: "baddr \<Rightarrow> byte list" where
  "addr_bytes (BADDR_IPV4 ip port) = udpgw_addr_ipv4_bytes ip port"
| "addr_bytes (BADDR_IPV6 ip port) = udpgw_addr_ipv6_bytes ip port"
| "addr_bytes BADDR_NONE = []"

text \<open>\<open>room\<close> is the result of \<open>BufferWriter_StartPacket\<close>.\<close>

definition connection_send ::
  "udpgw_client \<Rightarrow> nat \<Rightarrow> byte \<Rightarrow> byte list \<Rightarrow> bool \<Rightarrow> udpgw_action list option" where
  "connection_send c p flags data room = do {
     con \<leftarrow> ug_objects c p;
     assert_that (int (length data) \<le> ug_udp_mtu c);
     if \<not> room then Some [] else do {
       let remote = ca_remote_addr (con_conaddr con);
       let flags = (if baddr_type remote = BADDR_TYPE_IPV6 then flags OR UDPGW_CLIENT_FLAG_IPV6
                    else flags);
       let header = \<lparr>uh_flags = ltoh8 flags, uh_conid = ltoh16 (con_conid con)\<rparr>;
       let out = udpgw_header_bytes header @ addr_bytes remote @ data;
       assert_that (int (length out) \<le> ug_udpgw_mtu c);
       Some [Buffer_packet p out]
     }
   }"

text \<open>Running the first job takes it off the pending list. The bytes it sends are those
  \<open>first_data\<close> pointed at when the connection was made: the job is the last one set, and so the
  next one to run.\<close>

definition connection_first_job_handler ::
  "udpgw_client \<Rightarrow> nat \<Rightarrow> bool \<Rightarrow> (udpgw_client \<times> udpgw_action list) option" where
  "connection_first_job_handler c p room = do {
     con \<leftarrow> ug_objects c p;
     (first_flags, first_data) \<leftarrow> con_first con;
     let c = c\<lparr>ug_objects := (ug_objects c)(p \<mapsto> con\<lparr>con_first := None\<rparr>)\<rparr>;
     os \<leftarrow> connection_send c p (UDPGW_CLIENT_FLAG_REBIND OR first_flags) first_data room;
     Some (c, os)
   }"

definition reuse_connection :: "udpgw_client \<Rightarrow> conaddr \<Rightarrow> (udpgw_client \<times> nat) option" where
  "reuse_connection c conaddr = do {
     assert_that (find_connection_by_conaddr c conaddr = None);
     assert_that (ug_num_connections c > 0);
     p \<leftarrow> (case ug_connections_list c of [] \<Rightarrow> None | p # _ \<Rightarrow> Some p);
     con \<leftarrow> ug_objects c p;
     let tree = (ug_tree_by_conaddr c)(con_conaddr con := None);
     tree \<leftarrow> tree_insert tree conaddr p;
     Some (c\<lparr>ug_objects := (ug_objects c)(p \<mapsto> con\<lparr>con_conaddr := conaddr\<rparr>),
             ug_tree_by_conaddr := tree\<rparr>, p)
   }"

text \<open>\<open>queue_ok\<close> is the result of \<open>PacketPassFairQueue_Init\<close>. The outer option is the
  assertions, the inner one the return value 0.\<close>

definition UdpGwClient_Init :: "int \<Rightarrow> int \<Rightarrow> int \<Rightarrow> bool \<Rightarrow> udpgw_client option option" where
  "UdpGwClient_Init udp_mtu max_connections send_buffer_size queue_ok = do {
     assert_that (udp_mtu \<ge> 0);
     assert_that (udpgw_compute_mtu udp_mtu \<ge> 0);
     assert_that (udpgw_compute_mtu udp_mtu \<le> int PACKETPROTO_MAXPAYLOAD);
     assert_that (max_connections > 0);
     assert_that (send_buffer_size > 0);
     let max_connections = (if max_connections > 65535 + 1 then 65535 + 1 else max_connections);
     let udpgw_mtu = udpgw_compute_mtu udp_mtu;
     if \<not> queue_ok then Some None else
     Some (Some \<lparr>ug_udp_mtu = udp_mtu, ug_max_connections = max_connections,
       ug_udpgw_mtu = udpgw_mtu, ug_pp_mtu = udpgw_mtu + 2,
       ug_objects = (\<lambda>_. None), ug_tree_by_conaddr = (\<lambda>_. None), ug_tree_by_conid = (\<lambda>_. None),
       ug_connections_list = [], ug_num_connections = 0, ug_next_conid = 0,
       ug_keepalive_sending = False, ug_have_server = False\<rparr>)
   }"

function free_connections :: "udpgw_client \<Rightarrow> (udpgw_client \<times> udpgw_action list) option" where
  "free_connections c =
     (case ug_connections_list c of [] \<Rightarrow> Some (c, [])
      | p # ps \<Rightarrow>
          (case connection_free c p of None \<Rightarrow> None
           | Some c1 \<Rightarrow>
               (case free_connections c1 of None \<Rightarrow> None
                | Some (c2, os) \<Rightarrow> Some (c2, Connection_freed p # os))))"
  by pat_completeness auto
termination
  by (relation "measure (length \<circ> ug_connections_list)")
    (auto simp: connection_free_def bind_eq_Some_conv)

declare free_connections.simps [simp del]

definition UdpGwClient_Free :: "udpgw_client \<Rightarrow> udpgw_action list option" where
  "UdpGwClient_Free c = do {
     (c, os) \<leftarrow> free_connections c;
     Some (os @ (if ug_have_server c then free_server else []))
   }"

definition UdpGwClient_SubmitPacket ::
  "udpgw_client \<Rightarrow> baddr \<Rightarrow> baddr \<Rightarrow> bool \<Rightarrow> byte list \<Rightarrow> nat option \<Rightarrow> bool \<Rightarrow> bool \<Rightarrow>
   (udpgw_client \<times> udpgw_action list) option" where
  "UdpGwClient_SubmitPacket c local_addr remote_addr is_dns data mem flow_ok room = do {
     assert_that (baddr_type local_addr = BADDR_TYPE_IPV4 \<or> baddr_type local_addr = BADDR_TYPE_IPV6);
     assert_that (baddr_type remote_addr = BADDR_TYPE_IPV4 \<or> baddr_type remote_addr = BADDR_TYPE_IPV6);
     assert_that (int (length data) \<le> ug_udp_mtu c);
     let conaddr = \<lparr>ca_local_addr = local_addr, ca_remote_addr = remote_addr\<rparr>;
     let con = find_connection_by_conaddr c conaddr;
     let flags = (if is_dns then 0 OR UDPGW_CLIENT_FLAG_DNS else 0);
     (c, con, flags) \<leftarrow>
       (if con = None \<and> ug_num_connections c = ug_max_connections c then do {
          (c, p) \<leftarrow> reuse_connection c conaddr;
          Some (c, Some p, flags OR UDPGW_CLIENT_FLAG_REBIND)
        } else Some (c, con, flags));
     case con of
       None \<Rightarrow> do {
         c \<leftarrow> connection_init c conaddr flags data mem flow_ok;
         Some (c, [])
       }
     | Some p \<Rightarrow> do {
         let c = move_to_end c p;
         os \<leftarrow> connection_send c p flags data room;
         Some (c, os)
       }
   }"

text \<open>\<open>decoder_ok\<close> is the result of \<open>PacketProtoDecoder_Init\<close>; the flag returned is the
  return value.\<close>

definition UdpGwClient_ConnectServer ::
  "udpgw_client \<Rightarrow> bool \<Rightarrow> (udpgw_client \<times> udpgw_action list \<times> bool) option" where
  "UdpGwClient_ConnectServer c decoder_ok = do {
     assert_that (\<not> ug_have_server c);
     if \<not> decoder_ok then Some (c, [Recv_if_Init, Recv_if_Free], False) else
     Some (c\<lparr>ug_have_server := True\<rparr>,
       [Recv_if_Init, Recv_decoder_Init, Send_sender_Init, Send_connector_Connect], True)
   }"

definition UdpGwClient_DisconnectServer :: "udpgw_client \<Rightarrow> (udpgw_client \<times> udpgw_action list) option" where
  "UdpGwClient_DisconnectServer c = do {
     assert_that (ug_have_server c);
     Some (c\<lparr>ug_have_server := False\<rparr>, free_server)
   }"

end
