(* ===== verification/Udpgw_Table.thy ===== *)
theory Udpgw_Table
  imports Udpgw_Client
begin

text \<open>
  What the UDP gateway client promises: a table of at most \<open>max_connections\<close> associations
  between address pairs and connection ids, in least-recently-used order. The client of
  Udpgw_Client, with its heap, its two trees and its list, refines this table: on every sequence
  of events it makes the same calls, and none of its assertions fails.
\<close>

section \<open>The client between its neighbours\<close>

datatype ug_event =
  Submit baddr baddr bool "byte list" "nat option" bool bool
| First_job nat bool
| Recv "byte list"
| Decoder_error
| Connect bool
| Disconnect
| Send_idle bool
| Keepalive_done

definition ug_step :: "udpgw_client \<Rightarrow> ug_event \<Rightarrow> (udpgw_client \<times> udpgw_action list) option" where
  "ug_step c e = (case e of
     Submit l r dns data mem flow_ok room \<Rightarrow> UdpGwClient_SubmitPacket c l r dns data mem flow_ok room
   | First_job p room \<Rightarrow> connection_first_job_handler c p room
   | Recv data \<Rightarrow> recv_interface_handler_send c data
   | Decoder_error \<Rightarrow> decoder_handler_error c
   | Connect ok \<Rightarrow> do { (c, os, _) \<leftarrow> UdpGwClient_ConnectServer c ok; Some (c, os) }
   | Disconnect \<Rightarrow> UdpGwClient_DisconnectServer c
   | Send_idle psiphon \<Rightarrow> Some (send_monitor_handler psiphon c)
   | Keepalive_done \<Rightarrow> do { c \<leftarrow> keepalive_if_handler_done c; Some (c, []) })"

text \<open>The neighbours' side: \<open>malloc\<close> returns memory that is not in use, jobs run when they are
  pending, the decoder is there while the server is and delivers packets up to the MTU.\<close>

definition ug_contract :: "udpgw_client \<Rightarrow> ug_event \<Rightarrow> bool" where
  "ug_contract c e = (case e of
     Submit l r dns data mem flow_ok room \<Rightarrow>
       addr_ok l \<and> addr_ok r \<and> int (length data) \<le> ug_udp_mtu c \<and>
       (case mem of None \<Rightarrow> True | Some p \<Rightarrow> ug_objects c p = None)
   | First_job p room \<Rightarrow>
       (case ug_objects c p of None \<Rightarrow> False | Some con \<Rightarrow> con_first con \<noteq> None)
   | Recv data \<Rightarrow> ug_have_server c \<and> int (length data) \<le> ug_udpgw_mtu c
   | Decoder_error \<Rightarrow> ug_have_server c
   | Connect ok \<Rightarrow> \<not> ug_have_server c
   | Disconnect \<Rightarrow> ug_have_server c
   | Send_idle psiphon \<Rightarrow> True
   | Keepalive_done \<Rightarrow> ug_keepalive_sending c)"

section \<open>The table\<close>

record conn_table =
  ct_udp_mtu :: int
  ct_max :: int
  ct_entries :: "(nat \<times> connection) list"
  ct_next :: int
  ct_keepalive :: bool
  ct_server :: bool

definition udpgw_packet :: "connection \<Rightarrow> byte \<Rightarrow> byte list \<Rightarrow> byte list" where
  "udpgw_packet con flags data =
     (let r = ca_remote_addr (con_conaddr con) in
      (case r of BADDR_IPV6 _ _ \<Rightarrow> flags OR UDPGW_CLIENT_FLAG_IPV6 | _ \<Rightarrow> flags) #
      mem16 (con_conid con) @ addr_bytes r @ data)"

definition udpgw_parse :: "byte list \<Rightarrow> (byte \<times> u16 \<times> baddr \<times> byte list) option" where
  "udpgw_parse bs =
     (if length bs < 3 then None else
      case parse_addr (hd bs) (drop 3 bs) of None \<Rightarrow> None
      | Some (remote, data) \<Rightarrow> Some (hd bs, unmem16 (seg 1 2 bs), remote, data))"

definition ct_touch :: "nat \<times> connection \<Rightarrow> conn_table \<Rightarrow> conn_table" where
  "ct_touch e t = t\<lparr>ct_entries := filter (\<lambda>x. fst x \<noteq> fst e) (ct_entries t) @ [e]\<rparr>"

definition ct_send :: "nat \<times> connection \<Rightarrow> byte \<Rightarrow> byte list \<Rightarrow> bool \<Rightarrow> udpgw_action list" where
  "ct_send e flags data room =
     (if room then [Buffer_packet (fst e) (udpgw_packet (snd e) flags data)] else [])"

text \<open>The first id from \<open>next\<close> on, cyclically, that no connection has.\<close>

definition first_unused :: "int \<Rightarrow> int \<Rightarrow> (u16 \<Rightarrow> bool) \<Rightarrow> int option" where
  "first_unused max_con next used =
     find (\<lambda>i. \<not> used (word_of_int i)) (map (\<lambda>k. (next + int k) mod max_con) [0 ..< nat max_con])"

definition ct_submit ::
  "conn_table \<Rightarrow> conaddr \<Rightarrow> bool \<Rightarrow> byte list \<Rightarrow> nat option \<Rightarrow> bool \<Rightarrow> bool \<Rightarrow>
   (conn_table \<times> udpgw_action list) option" where
  "ct_submit t a dns data mem flow_ok room =
     (let flags = (if dns then UDPGW_CLIENT_FLAG_DNS else 0) in
      case find (\<lambda>e. con_conaddr (snd e) = a) (ct_entries t) of
        Some e \<Rightarrow> Some (ct_touch e t, ct_send e flags data room)
      | None \<Rightarrow>
          if int (length (ct_entries t)) = ct_max t then
            (case ct_entries t of [] \<Rightarrow> None
             | (p, con) # es \<Rightarrow>
                 let e = (p, con\<lparr>con_conaddr := a\<rparr>) in
                 Some (t\<lparr>ct_entries := es @ [e]\<rparr>,
                   ct_send e (flags OR UDPGW_CLIENT_FLAG_REBIND) data room))
          else
            (case mem of None \<Rightarrow> Some (t, [])
             | Some p \<Rightarrow>
                 (case first_unused (ct_max t) (ct_next t)
                     (\<lambda>k. \<exists>e \<in> set (ct_entries t). con_conid (snd e) = k) of
                    None \<Rightarrow> None
                  | Some i \<Rightarrow>
                      Some (t\<lparr>ct_next := i,
                        ct_entries := ct_entries t @
                          (if flow_ok then [(p, \<lparr>con_conaddr = a, con_conid = word_of_int i,
                             con_first = Some (flags, data)\<rparr>)] else [])\<rparr>, []))))"

definition ct_recv :: "conn_table \<Rightarrow> byte list \<Rightarrow> conn_table \<times> udpgw_action list" where
  "ct_recv t bs =
     (case udpgw_parse bs of None \<Rightarrow> (t, [Recv_done])
      | Some (flags, conid, remote, data) \<Rightarrow>
          (case find (\<lambda>e. con_conid (snd e) = conid \<and> ca_remote_addr (con_conaddr (snd e)) = remote)
                  (ct_entries t) of
             None \<Rightarrow> (t, [Recv_done])
           | Some e \<Rightarrow>
               if int (length data) > ct_udp_mtu t then (t, [Recv_done])
               else (ct_touch e t,
                 [Recv_done, Received (ca_local_addr (con_conaddr (snd e))) remote data])))"

definition ct_first :: "conn_table \<Rightarrow> nat \<Rightarrow> bool \<Rightarrow> (conn_table \<times> udpgw_action list) option" where
  "ct_first t p room =
     (case map_of (ct_entries t) p of None \<Rightarrow> None
      | Some con \<Rightarrow>
          (case con_first con of None \<Rightarrow> None
           | Some (flags, data) \<Rightarrow>
               Some (t\<lparr>ct_entries := map (\<lambda>e. if fst e = p then (p, con\<lparr>con_first := None\<rparr>) else e)
                       (ct_entries t)\<rparr>,
                     ct_send (p, con) (UDPGW_CLIENT_FLAG_REBIND OR flags) data room)))"

definition ct_step :: "conn_table \<Rightarrow> ug_event \<Rightarrow> (conn_table \<times> udpgw_action list) option" where
  "ct_step t e = (case e of
     Submit l r dns data mem flow_ok room \<Rightarrow>
       ct_submit t \<lparr>ca_local_addr = l, ca_remote_addr = r\<rparr> dns data mem flow_ok room
   | First_job p room \<Rightarrow> ct_first t p room
   | Recv data \<Rightarrow> Some (ct_recv t data)
   | Decoder_error \<Rightarrow> Some (t, [Server_error])
   | Connect ok \<Rightarrow>
       Some (if ok then (t\<lparr>ct_server := True\<rparr>,
               [Recv_if_Init, Recv_decoder_Init, Send_sender_Init, Send_connector_Connect])
             else (t, [Recv_if_Init, Recv_if_Free]))
   | Disconnect \<Rightarrow> Some (t\<lparr>ct_server := False\<rparr>, free_server)
   | Send_idle psiphon \<Rightarrow>
       Some (if psiphon \<or> ct_keepalive t then (t, [])
             else (t\<lparr>ct_keepalive := True\<rparr>, [Keepalive_send keepalive_packet]))
   | Keepalive_done \<Rightarrow> Some (t\<lparr>ct_keepalive := False\<rparr>, []))"

definition table_of :: "udpgw_client \<Rightarrow> conn_table" where
  "table_of c =
     \<lparr>ct_udp_mtu = ug_udp_mtu c, ct_max = ug_max_connections c,
      ct_entries = map (\<lambda>p. (p, the (ug_objects c p))) (ug_connections_list c),
      ct_next = ug_next_conid c, ct_keepalive = ug_keepalive_sending c, ct_server = ug_have_server c\<rparr>"

section \<open>Invariant\<close>

text \<open>A tree that indexes the objects of the heap by a key: each object is found by its own key
  and nothing else is found.\<close>

definition indexes :: "('c \<Rightarrow> 'k) \<Rightarrow> ('p \<Rightarrow> 'c option) \<Rightarrow> ('k \<Rightarrow> 'p option) \<Rightarrow> bool" where
  "indexes key objs t \<longleftrightarrow> (\<forall>k p. t k = Some p \<longleftrightarrow> (\<exists>x. objs p = Some x \<and> key x = k))"

lemma indexesD:
  assumes "indexes key objs t"
  shows "t k = Some p \<Longrightarrow> \<exists>x. objs p = Some x \<and> key x = k"
    "objs p = Some x \<Longrightarrow> t (key x) = Some p"
    "t k = None \<Longrightarrow> objs p = Some x \<Longrightarrow> key x \<noteq> k"
  using assms unfolding indexes_def by blast (metis assms indexes_def, metis assms indexes_def option.distinct(1))

lemma indexesI:
  assumes "\<And>p x. objs p = Some x \<Longrightarrow> t (key x) = Some p"
    and "\<And>k p. t k = Some p \<Longrightarrow> \<exists>x. objs p = Some x \<and> key x = k"
  shows "indexes key objs t"
  unfolding indexes_def using assms by metis

lemma indexes_empty [simp]: "indexes key (\<lambda>_. None) (\<lambda>_. None)"
  by (simp add: indexes_def)

lemma indexes_same:
  assumes "indexes key objs t" "objs p = Some x" "key y = key x"
  shows "indexes key (objs(p \<mapsto> y)) t"
proof (rule indexesI)
  show "t (key z) = Some q" if "(objs(p \<mapsto> y)) q = Some z" for q z
    using that indexesD(2) [OF assms(1)] assms(2,3) by (cases "q = p") auto
  show "\<exists>z. (objs(p \<mapsto> y)) q = Some z \<and> key z = k" if "t k = Some q" for k q
    using indexesD(1) [OF assms(1) that] assms(2,3) by (cases "q = p") auto
qed

lemma indexes_insert:
  assumes "indexes key objs t" "objs p = None" "t (key x) = None"
  shows "indexes key (objs(p \<mapsto> x)) (t(key x \<mapsto> p))"
proof (rule indexesI)
  show "(t(key x \<mapsto> p)) (key z) = Some q" if "(objs(p \<mapsto> x)) q = Some z" for q z
  proof (cases "q = p")
    case False
    then have "objs q = Some z" using that by simp
    then show ?thesis using indexesD(2,3) [OF assms(1)] assms(3) by auto
  qed (use that in simp)
  show "\<exists>z. (objs(p \<mapsto> x)) q = Some z \<and> key z = k" if "(t(key x \<mapsto> p)) k = Some q" for k q
    using that indexesD(1) [OF assms(1), of k q] assms(2) by (cases "k = key x") auto
qed

lemma indexes_delete:
  assumes "indexes key objs t" "objs p = Some x"
  shows "indexes key (objs(p := None)) (t(key x := None))"
proof (rule indexesI)
  have px: "t (key x) = Some p" by (rule indexesD(2) [OF assms])
  show "(t(key x := None)) (key z) = Some q" if "(objs(p := None)) q = Some z" for q z
  proof -
    have q: "q \<noteq> p" "objs q = Some z" using that by (auto split: if_splits)
    then have "t (key z) = Some q" by (intro indexesD(2) [OF assms(1)])
    then show ?thesis using px q by auto
  qed
  show "\<exists>z. (objs(p := None)) q = Some z \<and> key z = k" if "(t(key x := None)) k = Some q" for k q
    using that indexesD(1) [OF assms(1), of k q] assms(2) by (cases "k = key x") auto
qed

lemma indexes_update:
  assumes "indexes key objs t" "objs p = Some x" "t (key y) = None"
  shows "indexes key (objs(p \<mapsto> y)) (t(key x := None, key y \<mapsto> p))"
  using indexes_insert [OF indexes_delete [OF assms(1,2)], of p y] assms(3) by simp

definition con_ok :: "udpgw_client \<Rightarrow> connection \<Rightarrow> bool" where
  "con_ok c con \<longleftrightarrow> uint (con_conid con) < ug_max_connections c \<and>
     addr_ok (ca_local_addr (con_conaddr con)) \<and> addr_ok (ca_remote_addr (con_conaddr con)) \<and>
     (\<forall>f d. con_first con = Some (f, d) \<longrightarrow>
        int (length d) \<le> ug_udp_mtu c \<and> f AND UDPGW_CLIENT_FLAG_IPV6 = 0)"

definition ug_limits :: "udpgw_client \<Rightarrow> bool" where
  "ug_limits c \<longleftrightarrow> 0 < ug_max_connections c \<and> ug_max_connections c \<le> 65536 \<and>
     0 \<le> ug_next_conid c \<and> ug_next_conid c < ug_max_connections c \<and>
     ug_num_connections c = int (length (ug_connections_list c)) \<and>
     ug_num_connections c \<le> ug_max_connections c \<and>
     0 \<le> ug_udp_mtu c \<and> ug_udpgw_mtu c = ug_udp_mtu c + 21 \<and>
     ug_udpgw_mtu c \<le> int PACKETPROTO_MAXPAYLOAD"

definition ug_inv :: "udpgw_client \<Rightarrow> bool" where
  "ug_inv c \<longleftrightarrow> ug_limits c \<and> distinct (ug_connections_list c) \<and>
     set (ug_connections_list c) = dom (ug_objects c) \<and>
     indexes con_conaddr (ug_objects c) (ug_tree_by_conaddr c) \<and>
     indexes con_conid (ug_objects c) (ug_tree_by_conid c) \<and>
     (\<forall>p con. ug_objects c p = Some con \<longrightarrow> con_ok c con)"

lemma con_ok_update [simp]:
  "con_ok (c\<lparr>ug_connections_list := x\<rparr>) = con_ok c" "con_ok (c\<lparr>ug_objects := y\<rparr>) = con_ok c"
  "con_ok (c\<lparr>ug_tree_by_conaddr := t\<rparr>) = con_ok c" "con_ok (c\<lparr>ug_tree_by_conid := u\<rparr>) = con_ok c"
  "con_ok (c\<lparr>ug_num_connections := n\<rparr>) = con_ok c" "con_ok (c\<lparr>ug_next_conid := n\<rparr>) = con_ok c"
  "con_ok (c\<lparr>ug_keepalive_sending := b\<rparr>) = con_ok c" "con_ok (c\<lparr>ug_have_server := b\<rparr>) = con_ok c"
  by (simp_all add: con_ok_def fun_eq_iff)

lemma ug_invD:
  assumes "ug_inv c"
  shows "ug_limits c" "distinct (ug_connections_list c)"
    "p \<in> set (ug_connections_list c) \<longleftrightarrow> ug_objects c p \<noteq> None"
    "ug_tree_by_conaddr c a = Some p \<longleftrightarrow> (\<exists>con. ug_objects c p = Some con \<and> con_conaddr con = a)"
    "ug_tree_by_conid c k = Some p \<longleftrightarrow> (\<exists>con. ug_objects c p = Some con \<and> con_conid con = k)"
    "ug_objects c p = Some con \<Longrightarrow> con_ok c con"
    "indexes con_conaddr (ug_objects c) (ug_tree_by_conaddr c)"
    "indexes con_conid (ug_objects c) (ug_tree_by_conid c)"
  using assms unfolding ug_inv_def indexes_def by auto

lemma ug_inv_unique:
  assumes "ug_inv c" "ug_objects c p = Some con" "ug_objects c q = Some con'"
  shows "con_conaddr con = con_conaddr con' \<Longrightarrow> p = q" "con_conid con = con_conid con' \<Longrightarrow> p = q"
  using ug_invD(4,5) [OF assms(1)] assms(2,3) by (metis option.inject)+

lemma ug_inv_unused:
  assumes "ug_inv c"
  shows "ug_tree_by_conaddr c a = None \<longleftrightarrow> (\<forall>p con. ug_objects c p = Some con \<longrightarrow> con_conaddr con \<noteq> a)"
    "ug_tree_by_conid c k = None \<longleftrightarrow> (\<forall>p con. ug_objects c p = Some con \<longrightarrow> con_conid con \<noteq> k)"
  using ug_invD(4,5) [OF assms] by (metis not_Some_eq)+

section \<open>Choosing a connection id\<close>

lemma next_conid_advance:
  "0 \<le> ug_next_conid c \<Longrightarrow> ug_next_conid c < ug_max_connections c \<Longrightarrow>
   conid_advance c = c\<lparr>ug_next_conid := (ug_next_conid c + 1) mod ug_max_connections c\<rparr>"
  by (auto simp: conid_advance_def mod_pos_pos_trivial)

lemma find_unused_loop_finds:
  assumes "0 \<le> ug_next_conid c" "ug_next_conid c < ug_max_connections c"
    and "\<And>j. j < k \<Longrightarrow> ug_tree_by_conid c (word_of_int ((ug_next_conid c + int j) mod ug_max_connections c)) \<noteq> None"
    and "ug_tree_by_conid c (word_of_int ((ug_next_conid c + int k) mod ug_max_connections c)) = None"
  shows "find_unused_loop c =
    Some (c\<lparr>ug_next_conid := (ug_next_conid c + int k) mod ug_max_connections c\<rparr>,
          word_of_int ((ug_next_conid c + int k) mod ug_max_connections c))"
  using assms
proof (induction k arbitrary: c)
  case 0
  then show ?case
    by (subst find_unused_loop.simps) (simp add: find_connection_by_conid_def)
next
  case (Suc k)
  let ?n = "ug_next_conid c" and ?m = "ug_max_connections c"
  have used: "ug_tree_by_conid c (word_of_int ?n) \<noteq> None"
    using Suc.prems(3) [of 0] Suc.prems(1,2) by simp
  have shift: "((?n + 1) mod ?m + int j) mod ?m = (?n + int (Suc j)) mod ?m" for j
    by (simp only: mod_add_left_eq of_nat_Suc) (simp add: algebra_simps)
  have "find_unused_loop c = find_unused_loop (conid_advance c)"
    using used by (subst find_unused_loop.simps) (auto simp: find_connection_by_conid_def)
  moreover have "find_unused_loop (conid_advance c) =
      Some (c\<lparr>ug_next_conid := (?n + int (Suc k)) mod ?m\<rparr>, word_of_int ((?n + int (Suc k)) mod ?m))"
    using Suc.IH [of "c\<lparr>ug_next_conid := (?n + 1) mod ?m\<rparr>"] Suc.prems(1,2,4) Suc.prems(3) [of "Suc _"]
    by (simp add: next_conid_advance shift del: of_nat_Suc)
  ultimately show ?case by simp
qed

lemma find_unused_loop_first:
  assumes "0 \<le> ug_next_conid c" "ug_next_conid c < ug_max_connections c"
    and "first_unused (ug_max_connections c) (ug_next_conid c) (\<lambda>k. ug_tree_by_conid c k \<noteq> None) = Some i"
  shows "find_unused_loop c = Some (c\<lparr>ug_next_conid := i\<rparr>, word_of_int i)"
    "0 \<le> i" "i < ug_max_connections c" "ug_tree_by_conid c (word_of_int i) = None"
proof -
  obtain k where k: "k < nat (ug_max_connections c)"
    "i = (ug_next_conid c + int k) mod ug_max_connections c"
    "ug_tree_by_conid c (word_of_int i) = None"
    "\<And>j. j < k \<Longrightarrow> ug_tree_by_conid c (word_of_int ((ug_next_conid c + int j) mod ug_max_connections c)) \<noteq> None"
    using assms(3) by (fastforce simp: first_unused_def find_Some_iff)
  show "find_unused_loop c = Some (c\<lparr>ug_next_conid := i\<rparr>, word_of_int i)"
    using find_unused_loop_finds [of c k] assms(1,2) k by simp
  show "0 \<le> i" "i < ug_max_connections c" "ug_tree_by_conid c (word_of_int i) = None"
    using assms(1,2) k by simp_all
qed

lemma first_unused_exists:
  assumes inv: "ug_inv c" and room: "ug_num_connections c < ug_max_connections c"
  shows "\<exists>i. first_unused (ug_max_connections c) (ug_next_conid c) (\<lambda>k. ug_tree_by_conid c k \<noteq> None) = Some i"
proof (rule ccontr)
  let ?m = "ug_max_connections c" and ?n = "ug_next_conid c"
  let ?owner = "\<lambda>i :: int. the (ug_tree_by_conid c (word_of_int i))"
  note lim = ug_invD(1) [OF inv, unfolded ug_limits_def]
  assume "\<not> ?thesis"
  then have none: "\<And>k. k < nat ?m \<Longrightarrow> ug_tree_by_conid c (word_of_int ((?n + int k) mod ?m)) \<noteq> None"
    by (auto simp: first_unused_def find_None_iff)
  have used: "ug_tree_by_conid c (word_of_int i) \<noteq> None" if "i \<in> {0 ..< ?m}" for i
    using none [of "nat ((i - ?n) mod ?m)"] that lim by (simp add: mod_add_right_eq)
  have obj: "\<exists>con. ug_objects c (?owner i) = Some con \<and> con_conid con = word_of_int i"
    if "i \<in> {0 ..< ?m}" for i
    using used [OF that] ug_invD(5) [OF inv] by (metis option.collapse)
  have "inj_on ?owner {0 ..< ?m}"
  proof (rule inj_onI)
    fix i j assume ij: "i \<in> {0 ..< ?m}" "j \<in> {0 ..< ?m}" "?owner i = ?owner j"
    then have "(word_of_int i :: u16) = word_of_int j" using obj [of i] obj [of j] by auto
    then have "i mod 65536 = j mod 65536" by (simp add: word_of_int_eq_iff take_bit_eq_mod)
    then show "i = j" using ij lim by simp
  qed
  moreover have "?owner ` {0 ..< ?m} \<subseteq> set (ug_connections_list c)"
    using obj ug_invD(3) [OF inv] by fastforce
  ultimately have "card {0 ..< ?m} \<le> length (ug_connections_list c)"
    by (metis List.finite_set card_inj_on_le card_length order_trans)
  then show False using room lim by simp
qed

section \<open>Refinement\<close>

lemma entries_iff:
  "ug_inv c \<Longrightarrow> (p, con) \<in> set (ct_entries (table_of c)) \<longleftrightarrow> ug_objects c p = Some con"
  using ug_invD(3) [of c p] by (force simp: table_of_def)

lemma table_of_sel [simp]:
  "ct_udp_mtu (table_of c) = ug_udp_mtu c" "ct_max (table_of c) = ug_max_connections c"
  "ct_next (table_of c) = ug_next_conid c" "ct_keepalive (table_of c) = ug_keepalive_sending c"
  "ct_server (table_of c) = ug_have_server c"
  by (simp_all add: table_of_def)

lemma find_the_one:
  assumes "x \<in> set xs" "P x" "\<And>y. y \<in> set xs \<Longrightarrow> P y \<Longrightarrow> y = x"
  shows "find P xs = Some x"
proof -
  obtain y where y: "find P xs = Some y" using assms(1,2) by (metis find_None_iff option.exhaust)
  then have "y \<in> set xs" "P y" unfolding find_Some_iff by (metis nth_mem)+
  with assms(3) y show ?thesis by simp
qed

lemma find_by_conaddr:
  assumes "ug_inv c"
  shows "find (\<lambda>e. con_conaddr (snd e) = a) (ct_entries (table_of c)) =
    map_option (\<lambda>p. (p, the (ug_objects c p))) (ug_tree_by_conaddr c a)"
proof (cases "ug_tree_by_conaddr c a")
  case None
  then have "\<forall>e \<in> set (ct_entries (table_of c)). con_conaddr (snd e) \<noteq> a"
    using ug_inv_unused(1) [OF assms] entries_iff [OF assms] by fastforce
  then show ?thesis using None by (fastforce simp: find_None_iff)
next
  case (Some p)
  obtain con where con: "ug_objects c p = Some con" "con_conaddr con = a"
    using ug_invD(4) [OF assms, THEN iffD1, OF Some] by blast
  have one: "e = (p, con)" if "e \<in> set (ct_entries (table_of c))" "con_conaddr (snd e) = a" for e
    using ug_inv_unique(1) [OF assms con(1), of "fst e" "snd e"] entries_iff [OF assms, of "fst e" "snd e"]
      that con by (cases e) auto
  have "find (\<lambda>e. con_conaddr (snd e) = a) (ct_entries (table_of c)) = Some (p, con)"
    using con one entries_iff [OF assms] by (intro find_the_one) auto
  then show ?thesis using Some con by simp
qed

lemma find_by_conid:
  assumes "ug_inv c"
  shows "find (\<lambda>e. con_conid (snd e) = k \<and> ca_remote_addr (con_conaddr (snd e)) = r) (ct_entries (table_of c)) =
    (case ug_tree_by_conid c k of None \<Rightarrow> None
     | Some p \<Rightarrow> if ca_remote_addr (con_conaddr (the (ug_objects c p))) = r
                then Some (p, the (ug_objects c p)) else None)"
proof (cases "ug_tree_by_conid c k")
  case None
  then have "\<forall>e \<in> set (ct_entries (table_of c)). con_conid (snd e) \<noteq> k"
    using ug_inv_unused(2) [OF assms] entries_iff [OF assms] by fastforce
  then show ?thesis using None by (fastforce simp: find_None_iff)
next
  case (Some p)
  obtain con where con: "ug_objects c p = Some con" "con_conid con = k"
    using ug_invD(5) [OF assms, THEN iffD1, OF Some] by blast
  let ?P = "\<lambda>e. con_conid (snd e) = k \<and> ca_remote_addr (con_conaddr (snd e)) = r"
  have one: "e = (p, con)" if "e \<in> set (ct_entries (table_of c))" "con_conid (snd e) = k" for e
    using ug_inv_unique(2) [OF assms con(1), of "fst e" "snd e"] entries_iff [OF assms, of "fst e" "snd e"]
      that con by (cases e) auto
  show ?thesis
  proof (cases "ca_remote_addr (con_conaddr con) = r")
    case True
    then have "find ?P (ct_entries (table_of c)) = Some (p, con)"
      using con one entries_iff [OF assms] by (intro find_the_one) auto
    then show ?thesis using Some con True by simp
  next
    case False
    then have "find ?P (ct_entries (table_of c)) = None"
      using one by (fastforce simp: find_None_iff)
    then show ?thesis using Some con False by simp
  qed
qed

lemma addr_ok_type:
  "addr_ok a \<Longrightarrow> baddr_type a = BADDR_TYPE_IPV4 \<or> baddr_type a = BADDR_TYPE_IPV6"
  "addr_ok a \<Longrightarrow> length (addr_bytes a) \<le> 18"
  by (cases a; simp add: udpgw_addr_ipv4_bytes_def udpgw_addr_ipv6_bytes_def m16.length_enc m32.length_enc)+

lemma ltoh_host [simp]: "ltoh8 b = b" "ltoh16 w = w"
  by (simp_all add: ltoh8_def htol8_def ltoh16_def htol16_def)

lemma connection_send_ok:
  assumes "ug_limits c" "ug_objects c p = Some con" "addr_ok (ca_remote_addr (con_conaddr con))"
    and "int (length data) \<le> ug_udp_mtu c"
  shows "connection_send c p flags data room = Some (ct_send (p, con) flags data room)"
proof -
  let ?r = "ca_remote_addr (con_conaddr con)"
  have "int (3 + length (addr_bytes ?r) + length data) \<le> ug_udpgw_mtu c"
    using assms addr_ok_type(2) [OF assms(3)] by (simp add: ug_limits_def)
  moreover have "(if baddr_type ?r = BADDR_TYPE_IPV6 then flags OR UDPGW_CLIENT_FLAG_IPV6 else flags) =
      (case ?r of BADDR_IPV6 _ _ \<Rightarrow> flags OR UDPGW_CLIENT_FLAG_IPV6 | _ \<Rightarrow> flags)"
    by (cases ?r) (simp_all add: baddr_types)
  ultimately show ?thesis
    using assms by (simp add: connection_send_def ct_send_def udpgw_packet_def udpgw_header_bytes_def
        Let_def m16.length_enc bind_assert_True)
qed

lemma move_to_end_ok:
  assumes "ug_inv c" "ug_objects c p = Some con"
  shows "ug_inv (move_to_end c p)" "table_of (move_to_end c p) = ct_touch (p, con) (table_of c)"
proof -
  have p: "p \<in> set (ug_connections_list c)" "distinct (ug_connections_list c)"
    using ug_invD(2,3) [OF assms(1)] assms(2) by auto
  have rem: "remove1 p (ug_connections_list c) = filter (\<lambda>q. q \<noteq> p) (ug_connections_list c)"
    using p by (simp add: distinct_remove1_removeAll removeAll_filter_not_eq eq_commute)
  have "length (remove1 p (ug_connections_list c)) + 1 = length (ug_connections_list c)"
    using p by (simp add: length_remove1) (metis One_nat_def Suc_pred length_pos_if_in_set)
  then show "ug_inv (move_to_end c p)"
    using assms(1) p rem
    by (simp add: ug_inv_def move_to_end_def ug_limits_def) auto
  show "table_of (move_to_end c p) = ct_touch (p, con) (table_of c)"
    using assms(2) rem by (simp add: table_of_def move_to_end_def ct_touch_def filter_map o_def)
qed

text \<open>Rebinding the least recently used connection.\<close>

definition rebound :: "udpgw_client \<Rightarrow> nat \<Rightarrow> connection \<Rightarrow> conaddr \<Rightarrow> udpgw_client" where
  "rebound c p con a =
     c\<lparr>ug_objects := (ug_objects c)(p \<mapsto> con\<lparr>con_conaddr := a\<rparr>),
       ug_tree_by_conaddr := (ug_tree_by_conaddr c)(con_conaddr con := None, a \<mapsto> p)\<rparr>"

lemma rebound_inv:
  assumes inv: "ug_inv c" and free: "ug_tree_by_conaddr c a = None" and p: "ug_objects c p = Some con"
    and a: "addr_ok (ca_local_addr a)" "addr_ok (ca_remote_addr a)"
  shows "ug_inv (rebound c p con a)"
  unfolding ug_inv_def
proof (intro conjI allI impI)
  show "indexes con_conaddr (ug_objects (rebound c p con a)) (ug_tree_by_conaddr (rebound c p con a))"
    using indexes_update [OF ug_invD(7) [OF inv] p, of "con\<lparr>con_conaddr := a\<rparr>"] free
    by (simp add: rebound_def)
  show "indexes con_conid (ug_objects (rebound c p con a)) (ug_tree_by_conid (rebound c p con a))"
    using indexes_same [OF ug_invD(8) [OF inv] p, of "con\<lparr>con_conaddr := a\<rparr>"]
    by (simp add: rebound_def)
  show "ug_limits (rebound c p con a)" "distinct (ug_connections_list (rebound c p con a))"
    "set (ug_connections_list (rebound c p con a)) = dom (ug_objects (rebound c p con a))"
    using inv p by (auto simp: rebound_def ug_inv_def ug_limits_def)
  show "con_ok (rebound c p con a) con'" if "ug_objects (rebound c p con a) q = Some con'" for q con'
    using that ug_invD(6) [OF inv, of q] ug_invD(6) [OF inv p] a
    by (cases "q = p") (auto simp: rebound_def con_ok_def)
qed

lemma reuse_connection_ok:
  assumes inv: "ug_inv c" and free: "ug_tree_by_conaddr c a = None"
    and p: "ug_connections_list c = p # ps" "ug_objects c p = Some con"
  shows "reuse_connection c a = Some (rebound c p con a, p)"
proof -
  have "0 < ug_num_connections c" using ug_invD(1) [OF inv] p by (simp add: ug_limits_def)
  then show ?thesis
    using free p
    by (simp add: reuse_connection_def find_connection_by_conaddr_def tree_insert_def rebound_def Let_def
        bind_assert_True)
qed

text \<open>A new connection.\<close>

definition connected ::
  "udpgw_client \<Rightarrow> nat \<Rightarrow> connection \<Rightarrow> udpgw_client" where
  "connected c p con =
     c\<lparr>ug_objects := (ug_objects c)(p \<mapsto> con),
       ug_tree_by_conaddr := (ug_tree_by_conaddr c)(con_conaddr con \<mapsto> p),
       ug_tree_by_conid := (ug_tree_by_conid c)(con_conid con \<mapsto> p),
       ug_connections_list := ug_connections_list c @ [p],
       ug_num_connections := ug_num_connections c + 1\<rparr>"

lemma connected_inv:
  assumes inv: "ug_inv c" and new: "ug_objects c p = None"
    and free: "ug_tree_by_conaddr c (con_conaddr con) = None" "ug_tree_by_conid c (con_conid con) = None"
    and con: "con_ok c con" and room: "ug_num_connections c < ug_max_connections c"
  shows "ug_inv (connected c p con)"
  unfolding ug_inv_def
proof (intro conjI allI impI)
  show "indexes con_conaddr (ug_objects (connected c p con)) (ug_tree_by_conaddr (connected c p con))"
    using indexes_insert [OF ug_invD(7) [OF inv] new free(1)] by (simp add: connected_def)
  show "indexes con_conid (ug_objects (connected c p con)) (ug_tree_by_conid (connected c p con))"
    using indexes_insert [OF ug_invD(8) [OF inv] new free(2)] by (simp add: connected_def)
  show "ug_limits (connected c p con)" "distinct (ug_connections_list (connected c p con))"
    "set (ug_connections_list (connected c p con)) = dom (ug_objects (connected c p con))"
    using inv new room by (auto simp: connected_def ug_inv_def ug_limits_def)
  show "con_ok (connected c p con) con'" if "ug_objects (connected c p con) q = Some con'" for q con'
    using that ug_invD(6) [OF inv, of q] con by (cases "q = p") (auto simp: connected_def)
qed

lemma next_conid_inv:
  "ug_inv c \<Longrightarrow> 0 \<le> i \<Longrightarrow> i < ug_max_connections c \<Longrightarrow> ug_inv (c\<lparr>ug_next_conid := i\<rparr>)"
  by (simp add: ug_inv_def ug_limits_def)

lemma used_ids:
  assumes "ug_inv c"
  shows "(\<lambda>k. \<exists>e \<in> set (ct_entries (table_of c)). con_conid (snd e) = k) = (\<lambda>k. ug_tree_by_conid c k \<noteq> None)"
  using ug_inv_unused(2) [OF assms] entries_iff [OF assms] by (fastforce simp: fun_eq_iff)

text \<open>A submitted packet, by the three ways it can go.\<close>

lemma SubmitPacket_known:
  assumes inv: "ug_inv c" and ok: "addr_ok l" "addr_ok r" "int (length data) \<le> ug_udp_mtu c"
    and p: "ug_tree_by_conaddr c \<lparr>ca_local_addr = l, ca_remote_addr = r\<rparr> = Some p" "ug_objects c p = Some con"
  shows "UdpGwClient_SubmitPacket c l r dns data mem flow_ok room =
    Some (move_to_end c p, ct_send (p, con) (if dns then UDPGW_CLIENT_FLAG_DNS else 0) data room)"
proof -
  have "connection_send (move_to_end c p) p f data room = Some (ct_send (p, con) f data room)" for f
    using ug_invD(1) [OF move_to_end_ok(1) [OF inv p(2)]] ug_invD(6) [OF inv p(2)] ok p
    by (intro connection_send_ok) (simp_all add: move_to_end_def con_ok_def)
  then show ?thesis
    using ok addr_ok_type(1) [OF ok(1)] addr_ok_type(1) [OF ok(2)] p
    by (simp add: UdpGwClient_SubmitPacket_def find_connection_by_conaddr_def Let_def bind_assert_True)
qed

lemma SubmitPacket_rebind:
  assumes inv: "ug_inv c" and ok: "addr_ok l" "addr_ok r" "int (length data) \<le> ug_udp_mtu c"
    and free: "ug_tree_by_conaddr c \<lparr>ca_local_addr = l, ca_remote_addr = r\<rparr> = None"
    and full: "ug_num_connections c = ug_max_connections c"
    and p: "ug_connections_list c = p # ps" "ug_objects c p = Some con"
  defines "a \<equiv> \<lparr>ca_local_addr = l, ca_remote_addr = r\<rparr>"
  shows "UdpGwClient_SubmitPacket c l r dns data mem flow_ok room =
    Some (move_to_end (rebound c p con a) p,
      ct_send (p, con\<lparr>con_conaddr := a\<rparr>)
        ((if dns then UDPGW_CLIENT_FLAG_DNS else 0) OR UDPGW_CLIENT_FLAG_REBIND) data room)"
proof -
  have inv': "ug_inv (rebound c p con a)"
    using rebound_inv [OF inv _ p(2), of a] free ok by (simp add: a_def)
  have p': "ug_objects (rebound c p con a) p = Some (con\<lparr>con_conaddr := a\<rparr>)"
    by (simp add: rebound_def)
  have "connection_send (move_to_end (rebound c p con a) p) p f data room =
      Some (ct_send (p, con\<lparr>con_conaddr := a\<rparr>) f data room)" for f
    using ug_invD(1) [OF move_to_end_ok(1) [OF inv' p']] ok p'
    by (intro connection_send_ok) (simp_all add: move_to_end_def a_def rebound_def)
  then show ?thesis
    using ok addr_ok_type(1) [OF ok(1)] addr_ok_type(1) [OF ok(2)] free full
      reuse_connection_ok [OF inv _ p, of a]
    by (simp add: UdpGwClient_SubmitPacket_def find_connection_by_conaddr_def Let_def bind_assert_True a_def)
qed

lemma SubmitPacket_new:
  fixes dns :: bool
  assumes inv: "ug_inv c" and ok: "addr_ok l" "addr_ok r" "int (length data) \<le> ug_udp_mtu c"
    and free: "ug_tree_by_conaddr c \<lparr>ca_local_addr = l, ca_remote_addr = r\<rparr> = None"
    and room: "ug_num_connections c < ug_max_connections c"
    and new: "ug_objects c p = None"
    and i: "first_unused (ug_max_connections c) (ug_next_conid c) (\<lambda>k. ug_tree_by_conid c k \<noteq> None) = Some i"
  defines "con \<equiv> \<lparr>con_conaddr = \<lparr>ca_local_addr = l, ca_remote_addr = r\<rparr>, con_conid = word_of_int i,
      con_first = Some (if dns then UDPGW_CLIENT_FLAG_DNS else 0, data)\<rparr>"
  shows "UdpGwClient_SubmitPacket c l r dns data (Some p) flow_ok rm =
      Some (if flow_ok then connected (c\<lparr>ug_next_conid := i\<rparr>) p con else c\<lparr>ug_next_conid := i\<rparr>, [])"
    "ug_inv (c\<lparr>ug_next_conid := i\<rparr>)" "ug_inv (connected (c\<lparr>ug_next_conid := i\<rparr>) p con)"
proof -
  have lim: "0 \<le> ug_next_conid c" "ug_next_conid c < ug_max_connections c" "ug_max_connections c \<le> 65536"
    using ug_invD(1) [OF inv] by (simp_all add: ug_limits_def)
  note loop = find_unused_loop_first [OF lim(1,2) i]
  show inv': "ug_inv (c\<lparr>ug_next_conid := i\<rparr>)" using next_conid_inv [OF inv] loop by simp
  have "uint (word_of_int i :: u16) = i" using loop(2,3) lim(3) by (simp add: uint_word_of_int)
  then have "con_ok c con" using ok loop(3) by (simp add: con_ok_def con_def udpgw_flags)
  then show "ug_inv (connected (c\<lparr>ug_next_conid := i\<rparr>) p con)"
    using free room new loop(4) by (intro connected_inv [OF inv']) (simp_all add: con_def)
  have "find_unused_conid c = Some (c\<lparr>ug_next_conid := i\<rparr>, word_of_int i)"
    using room loop(1) by (simp add: find_unused_conid_def)
  then show "UdpGwClient_SubmitPacket c l r dns data (Some p) flow_ok rm =
      Some (if flow_ok then connected (c\<lparr>ug_next_conid := i\<rparr>) p con else c\<lparr>ug_next_conid := i\<rparr>, [])"
    using ok addr_ok_type(1) [OF ok(1)] addr_ok_type(1) [OF ok(2)] free room loop(4)
    by (simp add: UdpGwClient_SubmitPacket_def connection_init_def find_connection_by_conaddr_def
        tree_insert_def connected_def con_def Let_def bind_assert_True)
qed

lemma table_of_connected:
  "ug_inv c \<Longrightarrow> ug_objects c p = None \<Longrightarrow>
   table_of (connected c p con) = (table_of c)\<lparr>ct_entries := ct_entries (table_of c) @ [(p, con)]\<rparr>"
  using ug_invD(3) [of c] by (auto simp: table_of_def connected_def)

lemma table_of_rebound:
  assumes "ug_inv c" "ug_connections_list c = p # ps"
  shows "table_of (move_to_end (rebound c p con a) p) =
    (table_of c)\<lparr>ct_entries := tl (ct_entries (table_of c)) @ [(p, con\<lparr>con_conaddr := a\<rparr>)]\<rparr>"
  using ug_invD(2) [OF assms(1)] assms(2) by (auto simp: table_of_def move_to_end_def rebound_def)

lemma submit_refines:
  assumes inv: "ug_inv c" and ok: "ug_contract c (Submit l r dns data mem flow_ok room)"
  shows "\<exists>c' os. UdpGwClient_SubmitPacket c l r dns data mem flow_ok room = Some (c', os) \<and> ug_inv c' \<and>
    ct_submit (table_of c) \<lparr>ca_local_addr = l, ca_remote_addr = r\<rparr> dns data mem flow_ok room = Some (table_of c', os)"
    (is "\<exists>c' os. ?submit = _ \<and> _ \<and> ?spec = _")
proof -
  let ?a = "\<lparr>ca_local_addr = l, ca_remote_addr = r\<rparr>"
  have o: "addr_ok l" "addr_ok r" "int (length data) \<le> ug_udp_mtu c"
    "\<And>p. mem = Some p \<Longrightarrow> ug_objects c p = None"
    using ok by (auto simp: ug_contract_def)
  note lim = ug_invD(1) [OF inv, unfolded ug_limits_def]
  have len: "int (length (ct_entries (table_of c))) = ug_num_connections c"
    using lim by (simp add: table_of_def)
  note spec = ct_submit_def Let_def find_by_conaddr [OF inv] len
  show ?thesis
  proof (cases "ug_tree_by_conaddr c ?a")
    case (Some p)
    obtain con where con: "ug_objects c p = Some con" using indexesD(1) [OF ug_invD(7) [OF inv] Some] by blast
    show ?thesis
      using SubmitPacket_known [OF inv o(1-3) Some con] move_to_end_ok [OF inv con] Some con
      by (simp add: spec)
  next
    case free: None
    consider (full) "ug_num_connections c = ug_max_connections c"
      | (nomem) "ug_num_connections c < ug_max_connections c" "mem = None"
      | (new) p where "ug_num_connections c < ug_max_connections c" "mem = Some p"
      using lim by fastforce
    then show ?thesis
    proof cases
      case full
      then obtain p ps where ps: "ug_connections_list c = p # ps" using lim by (cases "ug_connections_list c") auto
      then obtain con where con: "ug_objects c p = Some con" using ug_invD(3) [OF inv, of p] by auto
      have "ug_inv (move_to_end (rebound c p con ?a) p)"
        using rebound_inv [OF inv free con] o by (intro move_to_end_ok(1)) (simp_all add: rebound_def)
      then show ?thesis
        using SubmitPacket_rebind [OF inv o(1-3) free full ps con] table_of_rebound [OF inv ps] free full ps con
        by (simp add: spec) (simp add: table_of_def Let_def)
    next
      case nomem
      then have "?submit = Some (c, [])"
        using o addr_ok_type(1) [OF o(1)] addr_ok_type(1) [OF o(2)] free
        by (simp add: UdpGwClient_SubmitPacket_def connection_init_def find_connection_by_conaddr_def
            Let_def bind_assert_True)
      then show ?thesis using inv free nomem by (simp add: spec)
    next
      case new
      obtain i where i: "first_unused (ug_max_connections c) (ug_next_conid c) (\<lambda>k. ug_tree_by_conid c k \<noteq> None) = Some i"
        using first_unused_exists [OF inv new(1)] by blast
      have t: "table_of (c\<lparr>ug_next_conid := i\<rparr>) = (table_of c)\<lparr>ct_next := i\<rparr>" by (simp add: table_of_def)
      note sub = SubmitPacket_new [OF inv o(1-3) free new(1) o(4) [OF new(2)] i]
      show ?thesis
        using sub free new i table_of_connected [OF sub(2), of p] o(4) [OF new(2)]
        by (simp add: spec used_ids [OF inv, unfolded Bex_def] t used_ids [OF inv])
    qed
  qed
qed

lemma parse_header:
  assumes "3 \<le> length bs"
  shows "udpgw_parse bs =
    (case parse_addr (uh_flags (udpgw_header_of_bytes bs)) (drop 3 bs) of None \<Rightarrow> None
     | Some (r, d) \<Rightarrow> Some (uh_flags (udpgw_header_of_bytes bs), uh_conid (udpgw_header_of_bytes bs), r, d))"
  using assms by (cases bs) (auto simp: udpgw_parse_def udpgw_header_of_bytes_def split: option.splits)

lemma recv_refines:
  assumes inv: "ug_inv c" and ok: "ug_contract c (Recv bs)"
  shows "\<exists>c' os. recv_interface_handler_send c bs = Some (c', os) \<and> ug_inv c' \<and>
    ct_recv (table_of c) bs = (table_of c', os)"
proof -
  have asrt: "ug_have_server c" "int (length bs) \<le> ug_udpgw_mtu c"
    using ok by (simp_all add: ug_contract_def)
  note defs = recv_interface_handler_send_def find_connection_by_conid_def Let_def bind_assert_True
  show ?thesis
  proof (cases "udpgw_parse bs")
    case None
    then have "recv_interface_handler_send c bs = Some (c, [Recv_done])"
      using asrt by (cases "length bs < 3") (auto simp: defs parse_header split: option.splits)
    then show ?thesis using inv None by (simp add: ct_recv_def)
  next
    case (Some x)
    obtain f k r d where x: "x = (f, k, r, d)" by (cases x)
    have bs: "\<not> length bs < 3" using Some by (auto simp: udpgw_parse_def)
    then have pa: "parse_addr (uh_flags (udpgw_header_of_bytes bs)) (drop 3 bs) = Some (r, d)"
      "uh_conid (udpgw_header_of_bytes bs) = k"
      using Some x by (auto simp: parse_header split: option.splits)
    have spec: "ct_recv (table_of c) bs =
        (case ug_tree_by_conid c k of None \<Rightarrow> (table_of c, [Recv_done])
         | Some p \<Rightarrow> let con = the (ug_objects c p) in
             if ca_remote_addr (con_conaddr con) = r \<and> int (length d) \<le> ug_udp_mtu c
             then (ct_touch (p, con) (table_of c), [Recv_done, Received (ca_local_addr (con_conaddr con)) r d])
             else (table_of c, [Recv_done]))"
      using Some x by (simp add: ct_recv_def find_by_conid [OF inv] Let_def split: option.split)
    show ?thesis
    proof (cases "ug_tree_by_conid c k")
      case None
      then show ?thesis using asrt bs pa inv by (simp add: defs spec)
    next
      case (Some p)
      obtain con where con: "ug_objects c p = Some con"
        using indexesD(1) [OF ug_invD(8) [OF inv] Some] by blast
      show ?thesis
        using asrt bs pa inv Some con move_to_end_ok [OF inv con]
        by (simp add: defs spec CompareOrder_eq)
    qed
  qed
qed

lemma first_job_refines:
  assumes inv: "ug_inv c" and ok: "ug_contract c (First_job p room)"
  shows "\<exists>c' os. connection_first_job_handler c p room = Some (c', os) \<and> ug_inv c' \<and>
    ct_first (table_of c) p room = Some (table_of c', os)"
proof -
  obtain con f d where con: "ug_objects c p = Some con" "con_first con = Some (f, d)"
    using ok by (auto simp: ug_contract_def split: option.splits)
  let ?con = "con\<lparr>con_first := None\<rparr>"
  let ?c = "c\<lparr>ug_objects := (ug_objects c)(p \<mapsto> ?con)\<rparr>"
  note con_ok = ug_invD(6) [OF inv con(1), unfolded con_ok_def]
  have inv': "ug_inv ?c"
    unfolding ug_inv_def
  proof (intro conjI allI impI)
    show "indexes con_conaddr (ug_objects ?c) (ug_tree_by_conaddr ?c)"
      using indexes_same [OF ug_invD(7) [OF inv] con(1), of ?con] by simp
    show "indexes con_conid (ug_objects ?c) (ug_tree_by_conid ?c)"
      using indexes_same [OF ug_invD(8) [OF inv] con(1), of ?con] by simp
    show "ug_limits ?c" "distinct (ug_connections_list ?c)" "set (ug_connections_list ?c) = dom (ug_objects ?c)"
      using inv con by (auto simp: ug_inv_def ug_limits_def)
    show "con_ok ?c con'" if "ug_objects ?c q = Some con'" for q con'
      using that ug_invD(6) [OF inv, of q] con_ok by (cases "q = p") (auto simp: con_ok_def)
  qed
  have "connection_send ?c p g d room = Some (ct_send (p, ?con) g d room)" for g
    using con_ok con ug_invD(1) [OF inv'] by (intro connection_send_ok) (auto simp: con_ok_def)
  moreover have "ct_send (p, ?con) g d room = ct_send (p, con) g d room" for g
    by (simp add: ct_send_def udpgw_packet_def)
  ultimately have "connection_first_job_handler c p room =
      Some (?c, ct_send (p, con) (UDPGW_CLIENT_FLAG_REBIND OR f) d room)"
    using con by (simp add: connection_first_job_handler_def)
  moreover have "map_of (ct_entries (table_of c)) p = Some con"
    using con ug_invD(3) [OF inv, of p] by (simp add: table_of_def map_of_map_restrict restrict_map_def)
  moreover have "ct_entries (table_of ?c) = map (\<lambda>e. if fst e = p then (p, ?con) else e) (ct_entries (table_of c))"
    by (simp add: table_of_def)
  ultimately show ?thesis
    using inv' con by (simp add: ct_first_def table_of_def)
qed

lemma ug_step_refines:
  assumes inv: "ug_inv c" and ok: "ug_contract c e"
  shows "\<exists>c' os. ug_step c e = Some (c', os) \<and> ug_inv c' \<and> ct_step (table_of c) e = Some (table_of c', os)"
proof (cases e)
  case (Submit l r dns data mem flow_ok room)
  then show ?thesis using submit_refines [OF inv] ok by (simp add: ug_step_def ct_step_def)
next
  case (First_job p room)
  then show ?thesis using first_job_refines [OF inv] ok by (simp add: ug_step_def ct_step_def)
next
  case (Recv bs)
  then show ?thesis using recv_refines [OF inv] ok by (auto simp add: ug_step_def ct_step_def)
next
  case (Send_idle psiphon)
  then show ?thesis
    using inv by (auto simp: ug_step_def ct_step_def send_monitor_handler_def table_of_def ug_inv_def ug_limits_def)
qed (use inv ok in \<open>auto simp: ug_step_def ct_step_def ug_contract_def decoder_handler_error_def
    UdpGwClient_ConnectServer_def UdpGwClient_DisconnectServer_def keepalive_if_handler_done_def
    table_of_def ug_inv_def ug_limits_def\<close>)

interpretation udpgw: refined_machine ug_step ug_contract ug_inv ct_step table_of
proof unfold_locales
  show "\<exists>c' os. ug_step c e = Some (c', os) \<and> ug_inv c'" if "ug_inv c" "ug_contract c e" for c e
    using ug_step_refines [OF that] by blast
  show "ct_step (table_of c) e = Some (table_of c', os)"
    if "ug_inv c" "ug_contract c e" "ug_step c e = Some (c', os)" for c e c' os
    using ug_step_refines [OF that(1,2)] that(3) by auto
qed

section \<open>Packets on the wire\<close>

lemma IPV6_flag_set: "(flags OR UDPGW_CLIENT_FLAG_IPV6) AND UDPGW_CLIENT_FLAG_IPV6 \<noteq> 0"
  by (simp add: bit.conj_disj_distrib2 UDPGW_CLIENT_FLAG_IPV6_def)

lemma parse_packet:
  assumes "addr_ok r" "r = ca_remote_addr (con_conaddr con)"
    and "baddr_type r = BADDR_TYPE_IPV4 \<Longrightarrow> flags AND UDPGW_CLIENT_FLAG_IPV6 = 0"
  shows "\<exists>f. udpgw_parse (udpgw_packet con flags data) = Some (f, con_conid con, r, data)"
proof (cases r)
  case (BADDR_IPV4 ip port)
  then show ?thesis
    using assms m32.length_enc [of ip] m16.length_enc [of port] m16.length_enc [of "con_conid con"]
    by (simp add: udpgw_packet_def udpgw_parse_def parse_addr_def udpgw_addr_ipv4_bytes_def seg_def
        m16.dec_enc m32.dec_enc BAddr_MakeIPv4_def baddr_types)
next
  case (BADDR_IPV6 ip port)
  then show ?thesis
    using assms IPV6_flag_set m16.length_enc [of port] m16.length_enc [of "con_conid con"]
    by (simp add: udpgw_packet_def udpgw_parse_def parse_addr_def udpgw_addr_ipv6_bytes_def seg_def
        m16.dec_enc BAddr_MakeIPv6_def)
qed (use assms in simp)

section \<open>From the initial state\<close>

lemma udpgw_init:
  assumes "UdpGwClient_Init udp_mtu maxc sbs True = Some (Some c)" "udp_mtu \<le> INT_MAX"
  shows "ug_inv c"
    "table_of c = \<lparr>ct_udp_mtu = udp_mtu, ct_max = min maxc 65536, ct_entries = [], ct_next = 0,
       ct_keepalive = False, ct_server = False\<rparr>"
  using assms udpgw_compute_mtu_value [OF assms(2)]
  by (auto simp: UdpGwClient_Init_def ug_inv_def ug_limits_def table_of_def Let_def split: if_splits)

lemmas ug_eval =
  UdpGwClient_Init_def udpgw_compute_mtu_value PACKETPROTO_MAXPAYLOAD_def ug_step_def ug_contract_def
  UdpGwClient_SubmitPacket_def connection_init_def connection_send_def connection_first_job_handler_def
  find_unused_conid_def find_unused_loop.simps reuse_connection_def move_to_end_def tree_insert_def
  find_connection_by_conaddr_def find_connection_by_conid_def recv_interface_handler_send_def
  UdpGwClient_ConnectServer_def parse_addr_def BAddr_MakeIPv4_def udpgw_header_of_bytes_def
  udpgw_header_bytes_def udpgw_addr_ipv4_bytes_def CompareOrder_eq baddr_types Let_def
  udpgw_flags seg_def mem16_def mem32_def byte_at_def unmem16_def unmem32_def put_byte_def

text \<open>C3. The client refines the connection table: started by \<open>UdpGwClient_Init\<close>, on every
  sequence of events that keeps to the contract no assertion fails, every loop ends, and the packets
  written, the datagrams delivered and the calls on the server's components are those of the
  least-recently-used table.\<close>

theorem udpgw_refines_table:
  assumes "UdpGwClient_Init udp_mtu maxc sbs True = Some (Some c)" "udp_mtu \<le> INT_MAX"
    and "admissible ug_contract ug_step c es"
  shows "\<exists>c' os. run ug_step c es = Some (c', os) \<and>
    run ct_step \<lparr>ct_udp_mtu = udp_mtu, ct_max = min maxc 65536, ct_entries = [], ct_next = 0,
       ct_keepalive = False, ct_server = False\<rparr> es = Some (table_of c', os)"
proof -
  note i = udpgw_init [OF assms(1,2)]
  obtain c' os where r: "run ug_step c es = Some (c', os)" using udpgw.run_safe [OF i(1) assms(3)] by blast
  from udpgw.run_simulates [OF i(1) assms(3) r] r i(2) show ?thesis by auto
qed

theorem udpgw_refines_table_witness:
  "\<exists>c c' os. UdpGwClient_Init 100 1 8 True = Some (Some c) \<and>
     run ug_step c [Submit (BADDR_IPV4 1 2) (BADDR_IPV4 3 4) True [7] (Some 5) True True, First_job 5 True,
       Submit (BADDR_IPV4 1 2) (BADDR_IPV4 3 5) False [8] None True True] = Some (c', os) \<and>
     os = [Buffer_packet 5 [6, 0, 0, 3, 0, 0, 0, 4, 0, 7], Buffer_packet 5 [2, 0, 0, 3, 0, 0, 0, 5, 0, 8]]"
proof -
  let ?c = "\<lparr>ug_udp_mtu = 100, ug_max_connections = 1, ug_udpgw_mtu = 121, ug_pp_mtu = 123,
       ug_objects = (\<lambda>_. None), ug_tree_by_conaddr = (\<lambda>_. None), ug_tree_by_conid = (\<lambda>_. None),
       ug_connections_list = [], ug_num_connections = 0, ug_next_conid = 0,
       ug_keepalive_sending = False, ug_have_server = False\<rparr>"
  let ?es = "[Submit (BADDR_IPV4 1 2) (BADDR_IPV4 3 4) True [7] (Some 5) True True, First_job 5 True,
       Submit (BADDR_IPV4 1 2) (BADDR_IPV4 3 5) False [8] None True True]"
  have i: "UdpGwClient_Init 100 1 8 True = Some (Some ?c)" by (simp add: ug_eval)
  have "admissible ug_contract ug_step ?c ?es" by (simp add: ug_eval)
  from udpgw_refines_table [OF i _ this] i show ?thesis by (auto simp: ug_eval)
qed

lemma udpgw_run_inv:
  assumes "UdpGwClient_Init udp_mtu maxc sbs True = Some (Some c)" "udp_mtu \<le> INT_MAX"
    and "admissible ug_contract ug_step c es" "run ug_step c es = Some (c', os)"
  shows "ug_inv c'"
  using udpgw.run_inv [OF udpgw_init(1) [OF assms(1,2)] assms(3,4)] .

lemma ct_step_mtu: "ct_step t e = Some (t', os) \<Longrightarrow> ct_udp_mtu t' = ct_udp_mtu t"
  by (cases e) (auto simp: ct_step_def ct_submit_def ct_first_def ct_recv_def ct_touch_def Let_def
      split: option.splits list.splits if_splits prod.splits)

lemma udpgw_run_mtu:
  assumes "UdpGwClient_Init udp_mtu maxc sbs True = Some (Some c)" "udp_mtu \<le> INT_MAX"
    and "admissible ug_contract ug_step c es" "run ug_step c es = Some (c', os)"
  shows "ug_udp_mtu c' = udp_mtu"
  using run_keeps [of ct_step ct_udp_mtu, OF ct_step_mtu udpgw.run_simulates
      [OF udpgw_init(1) [OF assms(1,2)] assms(3,4)]] udpgw_init(2) [OF assms(1,2)]
  by simp

text \<open>C19. After any such sequence the heap, the two trees and the list agree: every connection is
  found by its own address pair and by its own id and nothing else is found, the list holds every
  connection once, there are \<open>num_connections\<close> of them, at most \<open>max_connections\<close>, and each id
  is below that limit.\<close>

theorem udpgw_indexes_agree:
  assumes "UdpGwClient_Init udp_mtu maxc sbs True = Some (Some c)" "udp_mtu \<le> INT_MAX"
    and "admissible ug_contract ug_step c es" "run ug_step c es = Some (c', os)"
  shows "(\<forall>a p. find_connection_by_conaddr c' a = Some p \<longleftrightarrow>
        (\<exists>con. ug_objects c' p = Some con \<and> con_conaddr con = a)) \<and>
    (\<forall>k p. find_connection_by_conid c' k = Some p \<longleftrightarrow>
        (\<exists>con. ug_objects c' p = Some con \<and> con_conid con = k)) \<and>
    distinct (ug_connections_list c') \<and> set (ug_connections_list c') = dom (ug_objects c') \<and>
    ug_num_connections c' = int (length (ug_connections_list c')) \<and>
    ug_num_connections c' \<le> ug_max_connections c' \<and>
    (\<forall>p con. ug_objects c' p = Some con \<longrightarrow> uint (con_conid con) < ug_max_connections c')"
  using udpgw_run_inv [OF assms]
  unfolding find_connection_by_conaddr_def find_connection_by_conid_def ug_inv_def indexes_def
    ug_limits_def con_ok_def
  by blast

text \<open>A client with one connection, made by the run of the witnesses below.\<close>

definition sample_client :: udpgw_client where
  "sample_client = \<lparr>ug_udp_mtu = 100, ug_max_connections = 2, ug_udpgw_mtu = 121, ug_pp_mtu = 123,
     ug_objects = (\<lambda>_. None), ug_tree_by_conaddr = (\<lambda>_. None), ug_tree_by_conid = (\<lambda>_. None),
     ug_connections_list = [], ug_num_connections = 0, ug_next_conid = 0,
     ug_keepalive_sending = False, ug_have_server = False\<rparr>"

definition sample_con :: connection where
  "sample_con = \<lparr>con_conaddr = \<lparr>ca_local_addr = BADDR_IPV4 1 2, ca_remote_addr = BADDR_IPV4 3 4\<rparr>,
     con_conid = 0, con_first = Some (4, [7])\<rparr>"

definition sample_events :: "ug_event list" where
  "sample_events = [Connect True, Submit (BADDR_IPV4 1 2) (BADDR_IPV4 3 4) True [7] (Some 5) True True]"

definition sample_client' :: udpgw_client where
  "sample_client' = sample_client
     \<lparr>ug_objects := [5 \<mapsto> sample_con], ug_tree_by_conaddr := [con_conaddr sample_con \<mapsto> 5],
      ug_tree_by_conid := [0 \<mapsto> 5], ug_connections_list := [5], ug_num_connections := 1,
      ug_have_server := True\<rparr>"

lemma sample_run:
  "UdpGwClient_Init 100 2 8 True = Some (Some sample_client)"
  "admissible ug_contract ug_step sample_client sample_events"
  "run ug_step sample_client sample_events =
     Some (sample_client', [Recv_if_Init, Recv_decoder_Init, Send_sender_Init, Send_connector_Connect])"
  by (simp_all add: ug_eval sample_client_def sample_events_def sample_client'_def sample_con_def)

theorem udpgw_indexes_agree_witness:
  "find_connection_by_conid sample_client' 0 = Some 5 \<and>
   ug_num_connections sample_client' \<le> ug_max_connections sample_client' \<and>
   set (ug_connections_list sample_client') = dom (ug_objects sample_client')"
  using udpgw_indexes_agree [OF sample_run(1) _ sample_run(2,3)]
  by (simp add: find_connection_by_conid_def sample_client'_def)

text \<open>C20. \<open>find_unused_conid\<close> returns: while there are fewer connections than the limit, its
  loop ends, at the first id in cyclic order from \<open>next_conid\<close> that no connection has, and that id
  is within the limit.\<close>

theorem find_unused_conid_returns:
  assumes "UdpGwClient_Init udp_mtu maxc sbs True = Some (Some c)" "udp_mtu \<le> INT_MAX"
    and "admissible ug_contract ug_step c es" "run ug_step c es = Some (c', os)"
    and "ug_num_connections c' < ug_max_connections c'"
  shows "\<exists>i. first_unused (ug_max_connections c') (ug_next_conid c') (\<lambda>k. find_connection_by_conid c' k \<noteq> None) = Some i \<and>
    find_unused_conid c' = Some (c'\<lparr>ug_next_conid := i\<rparr>, word_of_int i) \<and>
    0 \<le> i \<and> i < ug_max_connections c' \<and> find_connection_by_conid c' (word_of_int i) = None"
proof -
  note inv = udpgw_run_inv [OF assms(1-4)]
  obtain i where i: "first_unused (ug_max_connections c') (ug_next_conid c') (\<lambda>k. ug_tree_by_conid c' k \<noteq> None) = Some i"
    using first_unused_exists [OF inv assms(5)] by blast
  have "0 \<le> ug_next_conid c'" "ug_next_conid c' < ug_max_connections c'"
    using ug_invD(1) [OF inv] by (simp_all add: ug_limits_def)
  note f = find_unused_loop_first [OF this i]
  show ?thesis
    using i f assms(5) by (intro exI [of _ i]) (simp add: find_unused_conid_def find_connection_by_conid_def)
qed

theorem find_unused_conid_returns_witness:
  "find_unused_conid sample_client' = Some (sample_client'\<lparr>ug_next_conid := 1\<rparr>, 1)"
proof -
  have "ug_num_connections sample_client' < ug_max_connections sample_client'"
    by (simp add: sample_client'_def sample_client_def)
  from find_unused_conid_returns [OF sample_run(1) _ sample_run(2,3) this]
  show ?thesis
    by (auto simp: first_unused_def find_connection_by_conid_def sample_client'_def sample_client_def
        numeral_2_eq_2 split: if_splits)
qed

text \<open>C21. A datagram reaches the right local address: a packet from the server that carries the id
  and the remote address of a live connection is delivered to that connection's local address with
  its payload unchanged.\<close>

theorem udpgw_reply_delivered:
  assumes "UdpGwClient_Init udp_mtu maxc sbs True = Some (Some c)" "udp_mtu \<le> INT_MAX"
    and "admissible ug_contract ug_step c es" "run ug_step c es = Some (c', os)"
    and "ug_objects c' p = Some con" "ug_have_server c'" "int (length data) \<le> udp_mtu"
    and "flags AND UDPGW_CLIENT_FLAG_IPV6 = 0"
  shows "\<exists>c''. recv_interface_handler_send c' (udpgw_packet con flags data) =
    Some (c'', [Recv_done, Received (ca_local_addr (con_conaddr con)) (ca_remote_addr (con_conaddr con)) data])"
proof -
  note inv = udpgw_run_inv [OF assms(1-4)]
  let ?r = "ca_remote_addr (con_conaddr con)" and ?bs = "udpgw_packet con flags data"
  have ok: "addr_ok ?r" using ug_invD(6) [OF inv assms(5)] by (simp add: con_ok_def)
  note mtu = udpgw_run_mtu [OF assms(1-4)]
  have "int (length ?bs) \<le> ug_udpgw_mtu c'"
    using ug_invD(1) [OF inv] addr_ok_type(2) [OF ok] assms(7) mtu
    by (simp add: ug_limits_def udpgw_packet_def Let_def m16.length_enc)
  then have "ug_contract c' (Recv ?bs)" using assms(6) by (simp add: ug_contract_def)
  from recv_refines [OF inv this] obtain c'' os' where
    r: "recv_interface_handler_send c' ?bs = Some (c'', os')" "ct_recv (table_of c') ?bs = (table_of c'', os')"
    by blast
  obtain f where "udpgw_parse ?bs = Some (f, con_conid con, ?r, data)"
    using parse_packet [OF ok refl assms(8)] by blast
  moreover have "ug_tree_by_conid c' (con_conid con) = Some p"
    using indexesD(2) [OF ug_invD(8) [OF inv] assms(5)] .
  ultimately have "os' = [Recv_done, Received (ca_local_addr (con_conaddr con)) ?r data]"
    using r(2) assms(5,7) mtu by (simp add: ct_recv_def find_by_conid [OF inv])
  with r(1) show ?thesis by blast
qed

theorem udpgw_reply_delivered_witness:
  "\<exists>c. recv_interface_handler_send sample_client' [0, 0, 0, 3, 0, 0, 0, 4, 0, 8, 9] =
    Some (c, [Recv_done, Received (BADDR_IPV4 1 2) (BADDR_IPV4 3 4) [8, 9]])"
proof -
  have "udpgw_packet sample_con 0 [8, 9] = [0, 0, 0, 3, 0, 0, 0, 4, 0, 8, 9]"
    by (simp add: udpgw_packet_def sample_con_def udpgw_addr_ipv4_bytes_def mem16_def mem32_def byte_at_def)
  with udpgw_reply_delivered [OF sample_run(1) _ sample_run(2,3), of 5 sample_con "[8, 9]" 0]
  show ?thesis by (simp add: sample_client'_def sample_con_def)
qed

text \<open>C22. And no other: whatever bytes the server sends, a delivery is for a live connection, from
  that connection's remote address to its local address, the packet carried its id and that remote
  address, and the payload is the packet's, no longer than the UDP MTU. A packet is accepted exactly once whether
  it is delivered or dropped.\<close>

theorem udpgw_no_misdelivery:
  assumes "UdpGwClient_Init udp_mtu maxc sbs True = Some (Some c)" "udp_mtu \<le> INT_MAX"
    and "admissible ug_contract ug_step c es" "run ug_step c es = Some (c', os)"
    and "ug_have_server c'" "int (length bs) \<le> ug_udpgw_mtu c'"
  shows "\<exists>c'' ds. recv_interface_handler_send c' bs = Some (c'', Recv_done # ds) \<and>
    (ds = [] \<or> (\<exists>p con flags data. ug_objects c' p = Some con \<and>
       ds = [Received (ca_local_addr (con_conaddr con)) (ca_remote_addr (con_conaddr con)) data] \<and>
       int (length data) \<le> udp_mtu \<and>
       udpgw_parse bs = Some (flags, con_conid con, ca_remote_addr (con_conaddr con), data)))"
proof -
  note inv = udpgw_run_inv [OF assms(1-4)] and mtu = udpgw_run_mtu [OF assms(1-4)]
  have "ug_contract c' (Recv bs)" using assms(5,6) by (simp add: ug_contract_def)
  from recv_refines [OF inv this] obtain c'' os' where
    r: "recv_interface_handler_send c' bs = Some (c'', os')" "ct_recv (table_of c') bs = (table_of c'', os')"
    by blast
  show ?thesis
  proof (cases "udpgw_parse bs")
    case None
    then show ?thesis using r by (auto simp: ct_recv_def)
  next
    case (Some x)
    obtain f k a d where x: "x = (f, k, a, d)" by (cases x)
    let ?es = "ct_entries (table_of c')"
    let ?hit = "\<lambda>e. con_conid (snd e) = k \<and> ca_remote_addr (con_conaddr (snd e)) = a"
    show ?thesis
    proof (cases "find ?hit ?es")
      case None
      then show ?thesis using r Some x by (auto simp: ct_recv_def)
    next
      case hit: (Some e)
      obtain p con where e: "e = (p, con)" by (cases e)
      have "e \<in> set ?es" "?hit e" using hit unfolding find_Some_iff by (metis nth_mem)+
      then have con: "ug_objects c' p = Some con" "con_conid con = k" "ca_remote_addr (con_conaddr con) = a"
        using entries_iff [OF inv] e by auto
      show ?thesis
      proof (cases "int (length d) \<le> udp_mtu")
        case True
        then have "os' = [Recv_done, Received (ca_local_addr (con_conaddr con)) a d]"
          using r(2) Some x hit e mtu by (simp add: ct_recv_def)
        then show ?thesis using True r(1) con Some x by blast
      qed (use r Some x hit mtu in \<open>simp add: ct_recv_def\<close>)
    qed
  qed
qed

theorem udpgw_no_misdelivery_witness:
  "\<exists>c ds. recv_interface_handler_send sample_client' [0, 0, 0, 3] = Some (c, Recv_done # ds) \<and> ds = []"
proof -
  have "udpgw_parse [0, 0, 0, 3] = None"
    by (simp add: udpgw_parse_def parse_addr_def)
  with udpgw_no_misdelivery [OF sample_run(1) _ sample_run(2,3), of "[0, 0, 0, 3]"]
  show ?thesis by (simp add: sample_client'_def sample_client_def)
qed

lemma packet_ok:
  assumes "ug_inv c" "ug_objects c p = Some con" "flags AND UDPGW_CLIENT_FLAG_IPV6 = 0"
    and "int (length data) \<le> ug_udp_mtu c"
  shows "\<exists>f. udpgw_parse (udpgw_packet con flags data) =
      Some (f, con_conid con, ca_remote_addr (con_conaddr con), data)"
    "length (udpgw_packet con flags data) \<le> PACKETPROTO_MAXPAYLOAD"
proof -
  have ok: "addr_ok (ca_remote_addr (con_conaddr con))"
    using ug_invD(6) [OF assms(1,2)] by (simp add: con_ok_def)
  show "\<exists>f. udpgw_parse (udpgw_packet con flags data) =
      Some (f, con_conid con, ca_remote_addr (con_conaddr con), data)"
    by (rule parse_packet [OF ok refl]) (rule assms(3))
  show "length (udpgw_packet con flags data) \<le> PACKETPROTO_MAXPAYLOAD"
    using ug_invD(1) [OF assms(1)] addr_ok_type(2) [OF ok] assms(4)
    by (simp add: ug_limits_def udpgw_packet_def Let_def m16.length_enc)
qed

lemma ct_send_packet:
  "Buffer_packet p bs \<in> set (ct_send e flags data room) \<longleftrightarrow>
   room \<and> p = fst e \<and> bs = udpgw_packet (snd e) flags data"
  by (auto simp: ct_send_def)

lemma submit_packet_written:
  assumes inv: "ug_inv c" and ok: "ug_contract c (Submit l r dns data mem flow_ok room)"
    and sub: "UdpGwClient_SubmitPacket c l r dns data mem flow_ok room = Some (c', os)"
    and p: "Buffer_packet p bs \<in> set os"
  shows "\<exists>con flags. ug_objects c' p = Some con \<and> con_conaddr con = \<lparr>ca_local_addr = l, ca_remote_addr = r\<rparr> \<and>
    bs = udpgw_packet con flags data \<and> flags AND UDPGW_CLIENT_FLAG_IPV6 = 0"
proof -
  let ?a = "\<lparr>ca_local_addr = l, ca_remote_addr = r\<rparr>"
  have o: "addr_ok l" "addr_ok r" "int (length data) \<le> ug_udp_mtu c" "\<And>q. mem = Some q \<Longrightarrow> ug_objects c q = None"
    using ok by (auto simp: ug_contract_def)
  show ?thesis
  proof (cases "ug_tree_by_conaddr c ?a")
    case (Some q)
    obtain con where con: "ug_objects c q = Some con" "con_conaddr con = ?a"
      using indexesD(1) [OF ug_invD(7) [OF inv] Some] by blast
    then show ?thesis
      using SubmitPacket_known [OF inv o(1-3) Some con(1), of dns mem flow_ok room] sub p
      by (auto simp: ct_send_packet move_to_end_def udpgw_flags)
  next
    case free: None
    note lim = ug_invD(1) [OF inv, unfolded ug_limits_def]
    show ?thesis
    proof (cases "ug_num_connections c = ug_max_connections c")
      case full: True
      then obtain q qs where qs: "ug_connections_list c = q # qs" using lim by (cases "ug_connections_list c") auto
      then obtain con where con: "ug_objects c q = Some con" using ug_invD(3) [OF inv, of q] by auto
      let ?f = "(if dns then UDPGW_CLIENT_FLAG_DNS else 0) OR UDPGW_CLIENT_FLAG_REBIND"
      have "p = q" "c' = move_to_end (rebound c q con ?a) q" "bs = udpgw_packet (con\<lparr>con_conaddr := ?a\<rparr>) ?f data"
        using SubmitPacket_rebind [OF inv o(1-3) free full qs con, of dns mem flow_ok room] sub p
        by (simp_all add: ct_send_packet)
      then show ?thesis
        by (intro exI [of _ "con\<lparr>con_conaddr := ?a\<rparr>"] exI [of _ ?f])
          (simp add: move_to_end_def rebound_def udpgw_flags)
    next
      case False
      then have "ct_submit (table_of c) ?a dns data mem flow_ok room = Some (table_of c', os)"
        using submit_refines [OF inv ok] sub by auto
      moreover have "int (length (ct_entries (table_of c))) \<noteq> ug_max_connections c"
        using False lim by (simp add: table_of_def)
      ultimately have "os = []"
        using free by (auto simp: ct_submit_def find_by_conaddr [OF inv] Let_def split: option.splits)
      then show ?thesis using p by simp
    qed
  qed
qed



lemma free_connections_all:
  assumes "ug_connections_list x = ps" "distinct ps" "\<And>p. p \<in> set ps \<Longrightarrow> ug_objects x p \<noteq> None"
  shows "\<exists>c''. free_connections x = Some (c'', map Connection_freed ps) \<and> ug_have_server c'' = ug_have_server x"
  using assms
proof (induction ps arbitrary: x)
  case (Cons p ps)
  then obtain con where con: "ug_objects x p = Some con" by fastforce
  then obtain x1 where x1: "connection_free x p = Some x1" "ug_connections_list x1 = ps"
    "ug_objects x1 = (ug_objects x)(p := None)" "ug_have_server x1 = ug_have_server x"
    using Cons.prems(1) by (simp add: connection_free_def)
  have "\<And>q. q \<in> set ps \<Longrightarrow> ug_objects x1 q \<noteq> None" using Cons.prems(2,3) x1(3) by auto
  then obtain c'' where "free_connections x1 = Some (c'', map Connection_freed ps)"
    "ug_have_server c'' = ug_have_server x1"
    using Cons.IH [of x1] Cons.prems(2) x1(2) by auto
  with x1 Cons.prems(1) show ?case by (simp add: free_connections.simps [of x])
qed (simp add: free_connections.simps)

lemma ug_inv_free:
  "ug_inv c \<Longrightarrow> UdpGwClient_Free c =
    Some (map Connection_freed (ug_connections_list c) @ (if ug_have_server c then free_server else []))"
  using ug_invD(2,3) [of c] free_connections_all [of c] by (fastforce simp: UdpGwClient_Free_def)

end
