(* ===== verification/Fair_Queue.thy ===== *)
theory Fair_Queue
  imports BAddr Bsize
begin

text \<open>
  PacketPassFairQueue (flow/PacketPassFairQueue.c): several packet flows share one output. Each flow
  has a virtual time that grows by the weight of what it sent; the queued flow with the least time is
  sent next. Times are 64-bit and are shifted down when one is about to overflow. A flow is named by
  its address. The tree of queued flows is its in-order sequence: insertion goes by the comparator, and
  the times of flows in the tree are changed in place.
\<close>

record flow =
  fl_time :: u64
  fl_is_queued :: bool
  fl_data :: "byte list"
  fl_handler_busy :: bool

text \<open>\<open>fq_output_busy\<close> is the state of the output interface: a send is in progress on it.\<close>

record fair_queue =
  fq_mtu :: int
  fq_use_cancel :: bool
  fq_packet_weight :: int
  fq_sending_flow :: "nat option"
  fq_sending_len :: int
  fq_previous_flow :: "nat option"
  fq_queued_tree :: "nat list"
  fq_flows_list :: "nat list"
  fq_freeing :: bool
  fq_schedule_job :: bool
  fq_flow :: "nat \<Rightarrow> flow option"
  fq_output_busy :: bool

text \<open>The calls made: a send on the output (with the flow it is for), the completion of a flow's
  packet, the flow's busy handler, a cancel request on the output.\<close>

datatype fq_action = Output_send nat "byte list" | Flow_done nat | Busy_handler nat | Output_cancel

definition FAIRQUEUE_MAX_TIME :: u64 where
  "FAIRQUEUE_MAX_TIME = - 1"

definition compare_flows :: "(nat \<Rightarrow> flow option) \<Rightarrow> nat \<Rightarrow> nat \<Rightarrow> int" where
  "compare_flows heap f1 f2 =
     (let cmp = B_COMPARE (fl_time (the (heap f1))) (fl_time (the (heap f2))) in
      if cmp \<noteq> 0 then cmp else B_COMPARE f1 f2)"

text \<open>\<open>PacketPassFairQueue__Tree_Insert\<close> and \<open>_GetFirst\<close>.\<close>

fun queued_insert :: "('a \<Rightarrow> 'a \<Rightarrow> int) \<Rightarrow> 'a \<Rightarrow> 'a list \<Rightarrow> 'a list option" where
  "queued_insert cmp x [] = Some [x]"
| "queued_insert cmp x (y # ys) =
     (if cmp x y = 0 then None
      else if cmp x y < 0 then Some (x # y # ys)
      else map_option ((#) y) (queued_insert cmp x ys))"

definition queued_first :: "fair_queue \<Rightarrow> nat option" where
  "queued_first m = (case fq_queued_tree m of [] \<Rightarrow> None | f # _ \<Rightarrow> Some f)"

definition get_current_time :: "fair_queue \<Rightarrow> u64 option" where
  "get_current_time m =
     (case fq_sending_flow m of Some f \<Rightarrow> do { fl \<leftarrow> fq_flow m f; Some (fl_time fl) }
      | None \<Rightarrow> do {
          first \<leftarrow> (case queued_first m of None \<Rightarrow> Some None
                   | Some f \<Rightarrow> do {
                       fl \<leftarrow> fq_flow m f;
                       assert_that (fl_is_queued fl);
                       Some (Some (fl_time fl))
                     });
          case fq_previous_flow m of None \<Rightarrow> Some (case first of None \<Rightarrow> 0 | Some t \<Rightarrow> t)
          | Some p \<Rightarrow> do {
              fl \<leftarrow> fq_flow m p;
              Some (case first of None \<Rightarrow> fl_time fl
                    | Some t \<Rightarrow> if fl_time fl < t then fl_time fl else t)
            }
        })"

definition subtract_flow :: "u64 \<Rightarrow> nat \<Rightarrow> nat \<Rightarrow> flow \<Rightarrow> flow option" where
  "subtract_flow subtract flow f fl =
     (if subtract > fl_time fl \<and> f \<noteq> flow then do {
        assert_that (\<not> fl_is_queued fl);
        Some (fl\<lparr>fl_time := 0\<rparr>)
      } else Some (fl\<lparr>fl_time := fl_time fl - subtract\<rparr>))"

primrec subtract_all :: "u64 \<Rightarrow> nat \<Rightarrow> nat list \<Rightarrow> (nat \<Rightarrow> flow option) \<Rightarrow> (nat \<Rightarrow> flow option) option" where
  "subtract_all subtract flow [] heap = Some heap"
| "subtract_all subtract flow (f # fs) heap = do {
     fl \<leftarrow> heap f;
     fl \<leftarrow> subtract_flow subtract flow f fl;
     subtract_all subtract flow fs (heap(f \<mapsto> fl))
   }"

definition increment_sent_flow :: "fair_queue \<Rightarrow> nat \<Rightarrow> u64 \<Rightarrow> fair_queue option" where
  "increment_sent_flow m flow amount = do {
     assert_that (amount \<le> FAIRQUEUE_MAX_TIME);
     fl \<leftarrow> fq_flow m flow;
     assert_that (\<not> fl_is_queued fl);
     assert_that (fq_sending_flow m = None);
     heap \<leftarrow> (if amount > FAIRQUEUE_MAX_TIME - fl_time fl then do {
         subtract \<leftarrow> (case queued_first m of None \<Rightarrow> Some (fl_time fl)
                     | Some f \<Rightarrow> do {
                         first \<leftarrow> fq_flow m f;
                         assert_that (fl_is_queued first);
                         Some (fl_time first)
                       });
         subtract_all subtract flow (fq_flows_list m) (fq_flow m)
       } else Some (fq_flow m));
     fl \<leftarrow> heap flow;
     Some (m\<lparr>fq_flow := heap(flow \<mapsto> fl\<lparr>fl_time := fl_time fl + amount\<rparr>)\<rparr>)
   }"

definition schedule :: "fair_queue \<Rightarrow> (fair_queue \<times> fq_action list) option" where
  "schedule m = do {
     assert_that (fq_sending_flow m = None);
     assert_that (fq_previous_flow m = None);
     assert_that (\<not> fq_freeing m);
     assert_that (fq_queued_tree m \<noteq> []);
     qflow \<leftarrow> queued_first m;
     fl \<leftarrow> fq_flow m qflow;
     assert_that (fl_is_queued fl);
     assert_that (int (length (fl_data fl)) \<le> fq_mtu m);
     assert_that (\<not> fq_output_busy m);
     Some (m\<lparr>fq_queued_tree := remove1 qflow (fq_queued_tree m),
             fq_flow := (fq_flow m)(qflow \<mapsto> fl\<lparr>fl_is_queued := False\<rparr>),
             fq_output_busy := True,
             fq_sending_flow := Some qflow,
             fq_sending_len := int (length (fl_data fl))\<rparr>,
           [Output_send qflow (fl_data fl)])
   }"

definition schedule_job_handler :: "fair_queue \<Rightarrow> (fair_queue \<times> fq_action list) option" where
  "schedule_job_handler m = do {
     assert_that (fq_sending_flow m = None);
     assert_that (\<not> fq_freeing m);
     let m = m\<lparr>fq_previous_flow := None\<rparr>;
     if fq_queued_tree m \<noteq> [] then schedule m else Some (m, [])
   }"

definition bmax_uint64 :: "u64 \<Rightarrow> u64 \<Rightarrow> u64" where
  "bmax_uint64 a b = (if a > b then a else b)"

definition fq_input_handler_send ::
  "fair_queue \<Rightarrow> nat \<Rightarrow> byte list \<Rightarrow> (fair_queue \<times> fq_action list) option" where
  "fq_input_handler_send m flow data = do {
     fl \<leftarrow> fq_flow m flow;
     assert_that (fq_sending_flow m \<noteq> Some flow);
     assert_that (\<not> fl_is_queued fl);
     assert_that (\<not> fq_freeing m);
     (m, fl) \<leftarrow>
       (if fq_previous_flow m = Some flow then Some (m\<lparr>fq_previous_flow := None\<rparr>, fl)
        else do {
          t \<leftarrow> get_current_time m;
          Some (m, fl\<lparr>fl_time := bmax_uint64 (fl_time fl) t\<rparr>)
        });
     let fl = fl\<lparr>fl_data := data\<rparr>;
     let heap = (fq_flow m)(flow \<mapsto> fl);
     tree \<leftarrow> queued_insert (compare_flows heap) flow (fq_queued_tree m);
     let m = m\<lparr>fq_queued_tree := tree,
               fq_flow := heap(flow \<mapsto> fl\<lparr>fl_is_queued := True\<rparr>)\<rparr>;
     if fq_sending_flow m = None \<and> \<not> fq_schedule_job m then schedule m else Some (m, [])
   }"

definition fq_output_handler_done :: "fair_queue \<Rightarrow> (fair_queue \<times> fq_action list) option" where
  "fq_output_handler_done m = do {
     flow \<leftarrow> fq_sending_flow m;
     assert_that (fq_previous_flow m = None);
     assert_that (\<not> fq_schedule_job m);
     assert_that (\<not> fq_freeing m);
     fl \<leftarrow> fq_flow m flow;
     assert_that (\<not> fl_is_queued fl);
     let m = m\<lparr>fq_sending_flow := None, fq_previous_flow := Some flow\<rparr>;
     m \<leftarrow> increment_sent_flow m flow (word_of_int (fq_packet_weight m) + word_of_int (fq_sending_len m));
     let m = m\<lparr>fq_schedule_job := True\<rparr>;
     fl \<leftarrow> fq_flow m flow;
     if fl_handler_busy fl
     then Some (m\<lparr>fq_flow := (fq_flow m)(flow \<mapsto> fl\<lparr>fl_handler_busy := False\<rparr>)\<rparr>,
            [Flow_done flow, Busy_handler flow])
     else Some (m, [Flow_done flow])
   }"

text \<open>\<open>mtu\<close> and \<open>has_cancel\<close> are the output interface's. The comparison is between an \<open>int\<close>
  and a 64-bit unsigned value, so it is made on the converted word.\<close>

definition PacketPassFairQueue_Init :: "int \<Rightarrow> bool \<Rightarrow> int \<Rightarrow> int \<Rightarrow> fair_queue option option" where
  "PacketPassFairQueue_Init mtu has_cancel use_cancel packet_weight = do {
     assert_that (packet_weight > 0);
     assert_that (use_cancel = 0 \<or> use_cancel = 1);
     assert_that (use_cancel = 0 \<or> has_cancel);
     if \<not> (word_of_int mtu \<le> FAIRQUEUE_MAX_TIME \<and>
            word_of_int packet_weight \<le> FAIRQUEUE_MAX_TIME - word_of_int mtu)
     then Some None
     else Some (Some \<lparr>fq_mtu = mtu, fq_use_cancel = (use_cancel = 1), fq_packet_weight = packet_weight,
       fq_sending_flow = None, fq_sending_len = 0, fq_previous_flow = None, fq_queued_tree = [],
       fq_flows_list = [], fq_freeing = False, fq_schedule_job = False, fq_flow = (\<lambda>_. None),
       fq_output_busy = False\<rparr>)
   }"

definition PacketPassFairQueue_Free :: "fair_queue \<Rightarrow> unit option" where
  "PacketPassFairQueue_Free m = do {
     assert_that (fq_flows_list m = []);
     assert_that (fq_queued_tree m = []);
     assert_that (fq_previous_flow m = None);
     assert_that (fq_sending_flow m = None)
   }"

definition PacketPassFairQueue_PrepareFree :: "fair_queue \<Rightarrow> fair_queue" where
  "PacketPassFairQueue_PrepareFree m = m\<lparr>fq_freeing := True\<rparr>"

definition PacketPassFairQueue_GetMTU :: "fair_queue \<Rightarrow> int" where
  "PacketPassFairQueue_GetMTU m = fq_mtu m"

definition PacketPassFairQueueFlow_Init :: "fair_queue \<Rightarrow> nat \<Rightarrow> fair_queue option" where
  "PacketPassFairQueueFlow_Init m flow = do {
     assert_that (\<not> fq_freeing m);
     Some (m\<lparr>fq_flow := (fq_flow m)(flow \<mapsto>
               \<lparr>fl_time = 0, fl_is_queued = False, fl_data = [], fl_handler_busy = False\<rparr>),
             fq_flows_list := fq_flows_list m @ [flow]\<rparr>)
   }"

definition PacketPassFairQueueFlow_Free :: "fair_queue \<Rightarrow> nat \<Rightarrow> fair_queue option" where
  "PacketPassFairQueueFlow_Free m flow = do {
     fl \<leftarrow> fq_flow m flow;
     assert_that (fq_freeing m \<or> fq_sending_flow m \<noteq> Some flow);
     let m = (if fq_sending_flow m = Some flow then m\<lparr>fq_sending_flow := None\<rparr> else m);
     let m = (if fq_previous_flow m = Some flow then m\<lparr>fq_previous_flow := None\<rparr> else m);
     let m = (if fl_is_queued fl then m\<lparr>fq_queued_tree := remove1 flow (fq_queued_tree m)\<rparr> else m);
     Some (m\<lparr>fq_flows_list := remove1 flow (fq_flows_list m), fq_flow := (fq_flow m)(flow := None)\<rparr>)
   }"

definition PacketPassFairQueueFlow_AssertFree :: "fair_queue \<Rightarrow> nat \<Rightarrow> unit option" where
  "PacketPassFairQueueFlow_AssertFree m flow = assert_that (fq_freeing m \<or> fq_sending_flow m \<noteq> Some flow)"

definition PacketPassFairQueueFlow_IsBusy :: "fair_queue \<Rightarrow> nat \<Rightarrow> bool option" where
  "PacketPassFairQueueFlow_IsBusy m flow = do {
     assert_that (\<not> fq_freeing m);
     Some (fq_sending_flow m = Some flow)
   }"

definition PacketPassFairQueueFlow_RequestCancel ::
  "fair_queue \<Rightarrow> nat \<Rightarrow> (fair_queue \<times> fq_action list) option" where
  "PacketPassFairQueueFlow_RequestCancel m flow = do {
     assert_that (fq_sending_flow m = Some flow);
     assert_that (fq_use_cancel m);
     assert_that (\<not> fq_freeing m);
     assert_that (\<not> fq_schedule_job m);
     Some (m, [Output_cancel])
   }"

definition PacketPassFairQueueFlow_SetBusyHandler :: "fair_queue \<Rightarrow> nat \<Rightarrow> bool \<Rightarrow> fair_queue option" where
  "PacketPassFairQueueFlow_SetBusyHandler m flow handler = do {
     assert_that (fq_sending_flow m = Some flow);
     assert_that (\<not> fq_freeing m);
     fl \<leftarrow> fq_flow m flow;
     Some (m\<lparr>fq_flow := (fq_flow m)(flow \<mapsto> fl\<lparr>fl_handler_busy := handler\<rparr>)\<rparr>)
   }"

section \<open>The queue between its flows and its output\<close>

datatype fq_event =
  Flow_send nat "byte list"
| Output_sent
| Schedule_job
| Flow_init nat
| Flow_free nat
| Prepare_free
| Request_cancel nat
| Set_busy_handler nat bool

definition fq_step :: "fair_queue \<Rightarrow> fq_event \<Rightarrow> (fair_queue \<times> fq_action list) option" where
  "fq_step m e = (case e of
     Flow_send f data \<Rightarrow> fq_input_handler_send m f data
   | Output_sent \<Rightarrow> fq_output_handler_done (m\<lparr>fq_output_busy := False\<rparr>)
   | Schedule_job \<Rightarrow> schedule_job_handler (m\<lparr>fq_schedule_job := False\<rparr>)
   | Flow_init f \<Rightarrow> do { m \<leftarrow> PacketPassFairQueueFlow_Init m f; Some (m, []) }
   | Flow_free f \<Rightarrow> do { m \<leftarrow> PacketPassFairQueueFlow_Free m f; Some (m, []) }
   | Prepare_free \<Rightarrow> Some (PacketPassFairQueue_PrepareFree m, [])
   | Request_cancel f \<Rightarrow> PacketPassFairQueueFlow_RequestCancel m f
   | Set_busy_handler f h \<Rightarrow> do { m \<leftarrow> PacketPassFairQueueFlow_SetBusyHandler m f h; Some (m, []) })"

text \<open>A flow sends only while it has no packet in the queue; after \<open>PrepareFree\<close> flows are only
  freed.\<close>

definition fq_contract :: "fair_queue \<Rightarrow> fq_event \<Rightarrow> bool" where
  "fq_contract m e = (case e of
     Flow_send f data \<Rightarrow> \<not> fq_freeing m \<and> fq_sending_flow m \<noteq> Some f \<and> int (length data) \<le> fq_mtu m \<and>
       (case fq_flow m f of None \<Rightarrow> False | Some fl \<Rightarrow> \<not> fl_is_queued fl)
   | Output_sent \<Rightarrow> \<not> fq_freeing m \<and> fq_output_busy m
   | Schedule_job \<Rightarrow> \<not> fq_freeing m \<and> fq_schedule_job m
   | Flow_init f \<Rightarrow> \<not> fq_freeing m \<and> fq_flow m f = None
   | Flow_free f \<Rightarrow> fq_flow m f \<noteq> None \<and> (fq_freeing m \<or> fq_sending_flow m \<noteq> Some f)
   | Prepare_free \<Rightarrow> True
   | Request_cancel f \<Rightarrow> \<not> fq_freeing m \<and> fq_sending_flow m = Some f \<and> fq_use_cancel m
   | Set_busy_handler f h \<Rightarrow> \<not> fq_freeing m \<and> fq_sending_flow m = Some f)"

section \<open>Order of the queued flows\<close>

definition vtime :: "(nat \<Rightarrow> flow option) \<Rightarrow> nat \<Rightarrow> nat" where
  "vtime heap f = unat (fl_time (the (heap f)))"

definition ahead :: "(nat \<Rightarrow> flow option) \<Rightarrow> nat \<Rightarrow> nat \<Rightarrow> bool" where
  "ahead heap a b \<longleftrightarrow> vtime heap a < vtime heap b \<or> vtime heap a = vtime heap b \<and> a < b"

lemma compare_flows_signs:
  "compare_flows heap a b = 0 \<longleftrightarrow> a = b" "compare_flows heap a b < 0 \<longleftrightarrow> ahead heap a b"
  by (auto simp: compare_flows_def ahead_def vtime_def Let_def B_COMPARE_def word_less_nat_alt)

lemma ahead_trans: "ahead heap a b \<Longrightarrow> ahead heap b c \<Longrightarrow> ahead heap a c"
  by (auto simp: ahead_def)

lemma ahead_total: "a \<noteq> b \<Longrightarrow> \<not> ahead heap a b \<Longrightarrow> ahead heap b a"
  by (auto simp: ahead_def)

lemma ahead_le: "ahead heap a b \<Longrightarrow> vtime heap a \<le> vtime heap b"
  by (auto simp: ahead_def)

lemma queued_insert_ok:
  assumes "x \<notin> set ys" "sorted_wrt (ahead heap) ys"
  shows "\<exists>zs. queued_insert (compare_flows heap) x ys = Some zs \<and> set zs = insert x (set ys) \<and>
    sorted_wrt (ahead heap) zs \<and> distinct zs = distinct ys"
  using assms
proof (induction ys)
  case (Cons y ys)
  then have "x \<noteq> y" by auto
  show ?case
  proof (cases "ahead heap x y")
    case True
    then show ?thesis
      using Cons.prems \<open>x \<noteq> y\<close> by (auto simp: compare_flows_signs intro: ahead_trans)
  next
    case False
    obtain zs where zs: "queued_insert (compare_flows heap) x ys = Some zs" "set zs = insert x (set ys)"
      "sorted_wrt (ahead heap) zs" "distinct zs = distinct ys"
      using Cons by auto
    then show ?thesis
      using False Cons.prems \<open>x \<noteq> y\<close> ahead_total by (auto simp: compare_flows_signs)
  qed
qed simp

lemma sorted_wrt_first:
  "sorted_wrt (ahead heap) (f # fs) \<Longrightarrow> q \<in> set (f # fs) \<Longrightarrow> vtime heap f \<le> vtime heap q"
  by (auto intro: ahead_le)

text \<open>The heap with new times.\<close>

definition retime :: "(nat \<Rightarrow> u64) \<Rightarrow> (nat \<Rightarrow> flow option) \<Rightarrow> nat \<Rightarrow> flow option" where
  "retime tm heap f = map_option (fl_time_update (\<lambda>_. tm f)) (heap f)"

lemma vtime_retime: "heap f \<noteq> None \<Longrightarrow> vtime (retime tm heap) f = unat (tm f)"
  by (auto simp: vtime_def retime_def)

lemma sorted_shift:
  assumes "sorted_wrt (ahead heap) fs" "\<And>f. f \<in> set fs \<Longrightarrow> k \<le> vtime heap f"
    and "\<And>f. f \<in> set fs \<Longrightarrow> vtime heap' f = vtime heap f - k"
  shows "sorted_wrt (ahead heap') fs"
  using assms(1)
proof (rule sorted_wrt_mono_rel [rotated])
  fix x y assume "x \<in> set fs" "y \<in> set fs" "ahead heap x y"
  then show "ahead heap' x y" using assms(2) [of x] assms(2) [of y] assms(3) by (auto simp: ahead_def)
qed

lemma subtract_all_ok:
  assumes "distinct fs" "\<And>f. f \<in> set fs \<Longrightarrow> \<exists>fl. heap f = Some fl \<and>
      (fl_is_queued fl \<longrightarrow> f = flow \<or> sub \<le> fl_time fl)"
  shows "subtract_all sub flow fs heap =
    Some (\<lambda>f. if f \<in> set fs
       then map_option (\<lambda>fl. fl\<lparr>fl_time := if sub > fl_time fl \<and> f \<noteq> flow then 0 else fl_time fl - sub\<rparr>) (heap f)
       else heap f)"
  using assms
proof (induction fs arbitrary: heap)
  case (Cons f fs)
  obtain fl where fl: "heap f = Some fl" "fl_is_queued fl \<longrightarrow> f = flow \<or> sub \<le> fl_time fl"
    using Cons.prems(2) [of f] by auto
  let ?fl = "fl\<lparr>fl_time := if sub > fl_time fl \<and> f \<noteq> flow then 0 else fl_time fl - sub\<rparr>"
  have "subtract_flow sub flow f fl = Some ?fl"
    using fl(2) by (auto simp: subtract_flow_def not_less assert_that_def)
  moreover have "subtract_all sub flow fs (heap(f \<mapsto> ?fl)) =
    Some (\<lambda>g. if g \<in> set fs
       then map_option (\<lambda>fl. fl\<lparr>fl_time := if sub > fl_time fl \<and> g \<noteq> flow then 0 else fl_time fl - sub\<rparr>)
         ((heap(f \<mapsto> ?fl)) g)
       else (heap(f \<mapsto> ?fl)) g)"
    using Cons.prems by (intro Cons.IH) auto
  ultimately show ?case
    using fl Cons.prems(1) by (auto simp: fun_eq_iff)
qed simp

text \<open>When the time of the flow that was just sent would overflow, every time is shifted down by the
  least queued time; the one of the sent flow goes below zero and comes back.\<close>

lemma unat_wrap_back:
  fixes t sub a :: u64
  assumes "unat sub \<le> unat t + unat a" "unat t \<le> unat sub"
  shows "unat (t - sub + a) = unat t + unat a - unat sub"
proof -
  have "t - sub + a = of_nat (unat t + unat a - unat sub)"
    using assms(1) by (simp add: of_nat_diff)
  moreover have "unat t + unat a - unat sub < 18446744073709551616"
    using assms(2) unat_u64_less [of a] by linarith
  ultimately show ?thesis by (simp only:) (simp add: unat_of_nat_small)
qed

lemma increment_ok:
  assumes list: "distinct (fq_flows_list m)" "set (fq_flows_list m) = dom (fq_flow m)"
    and tree: "\<And>q. q \<in> set (fq_queued_tree m) \<longleftrightarrow> (\<exists>fl. fq_flow m q = Some fl \<and> fl_is_queued fl)"
      "sorted_wrt (ahead (fq_flow m)) (fq_queued_tree m)"
    and flow: "fq_flow m flow = Some fl" "\<not> fl_is_queued fl" "fq_sending_flow m = None"
    and least: "\<And>q. q \<in> set (fq_queued_tree m) \<Longrightarrow> vtime (fq_flow m) flow \<le> vtime (fq_flow m) q"
  shows "\<exists>tm k. increment_sent_flow m flow amount = Some (m\<lparr>fq_flow := retime tm (fq_flow m)\<rparr>) \<and>
    k \<le> vtime (fq_flow m) flow + unat amount \<and>
    unat (tm flow) = vtime (fq_flow m) flow + unat amount - k \<and>
    (\<forall>q \<in> set (fq_queued_tree m). k \<le> vtime (fq_flow m) q \<and> unat (tm q) = vtime (fq_flow m) q - k)"
proof (cases "amount > FAIRQUEUE_MAX_TIME - fl_time fl")
  case False
  let ?tm = "\<lambda>f. if f = flow then fl_time fl + amount else fl_time (the (fq_flow m f))"
  have "unat (fl_time fl + amount) = unat (fl_time fl) + unat amount"
    using False bsize_add_ovf [of "fl_time fl" amount]
    by (simp add: FAIRQUEUE_MAX_TIME_def unat_word_ariths)
  moreover have "(fq_flow m)(flow \<mapsto> fl\<lparr>fl_time := fl_time fl + amount\<rparr>) = retime ?tm (fq_flow m)"
    using flow by (auto simp: fun_eq_iff retime_def map_option_case split: option.split)
  moreover have "q \<noteq> flow" if "q \<in> set (fq_queued_tree m)" for q using that tree(1) flow by auto
  ultimately show ?thesis
    using False flow
    by (intro exI [of _ ?tm] exI [of _ 0])
      (auto simp: increment_sent_flow_def vtime_def bind_assert_True FAIRQUEUE_MAX_TIME_def)
next
  case True
  define sub where "sub = (case fq_queued_tree m of [] \<Rightarrow> fl_time fl | f # _ \<Rightarrow> fl_time (the (fq_flow m f)))"
  have ovf: "2 ^ 64 \<le> unat (fl_time fl) + unat amount"
    using True bsize_add_ovf [of "fl_time fl" amount] by (simp add: FAIRQUEUE_MAX_TIME_def)
  have sub_le: "unat sub \<le> vtime (fq_flow m) q" if "q \<in> set (fq_queued_tree m)" for q
    using that tree(2) sorted_wrt_first by (cases "fq_queued_tree m") (auto simp: sub_def vtime_def)
  have sub_ge: "unat (fl_time fl) \<le> unat sub"
    using least flow by (cases "fq_queued_tree m") (auto simp: sub_def vtime_def)
  let ?tm = "\<lambda>f. if f = flow then fl_time fl - sub + amount
    else if sub > fl_time (the (fq_flow m f)) then 0 else fl_time (the (fq_flow m f)) - sub"
  have first: "(case queued_first m of None \<Rightarrow> Some (fl_time fl)
       | Some f \<Rightarrow> do { first \<leftarrow> fq_flow m f; assert_that (fl_is_queued first); Some (fl_time first) }) = Some sub"
    using tree(1) [of "hd (fq_queued_tree m)"]
    by (cases "fq_queued_tree m") (auto simp: queued_first_def sub_def)
  have q: "q \<noteq> flow \<and> \<not> sub > fl_time (the (fq_flow m q))" if "q \<in> set (fq_queued_tree m)" for q
    using that tree(1) flow sub_le [OF that] by (auto simp: vtime_def word_less_nat_alt)
  have "subtract_all sub flow (fq_flows_list m) (fq_flow m) =
      Some (\<lambda>f. if f \<in> set (fq_flows_list m)
       then map_option (\<lambda>fl. fl\<lparr>fl_time := if sub > fl_time fl \<and> f \<noteq> flow then 0 else fl_time fl - sub\<rparr>) (fq_flow m f)
       else fq_flow m f)"
    using list tree(1) q by (intro subtract_all_ok) (fastforce simp: not_less)+
  moreover have "(\<lambda>f. if f \<in> set (fq_flows_list m)
       then map_option (\<lambda>fl. fl\<lparr>fl_time := if sub > fl_time fl \<and> f \<noteq> flow then 0 else fl_time fl - sub\<rparr>) (fq_flow m f)
       else fq_flow m f)(flow \<mapsto> fl\<lparr>fl_time := fl_time fl - sub + amount\<rparr>) = retime ?tm (fq_flow m)"
    using flow list(2) by (auto simp: fun_eq_iff retime_def dom_def map_option_case split: option.split)
  ultimately have "increment_sent_flow m flow amount = Some (m\<lparr>fq_flow := retime ?tm (fq_flow m)\<rparr>)"
    using True flow first list(2)
    by (simp add: increment_sent_flow_def bind_assert_True FAIRQUEUE_MAX_TIME_def dom_def)
  moreover have "unat (fl_time fl - sub + amount) = unat (fl_time fl) + unat amount - unat sub"
    using ovf sub_ge unat_u64_less [of sub] by (intro unat_wrap_back) simp_all
  ultimately show ?thesis
    using flow q sub_le ovf unat_u64_less [of sub]
    by (intro exI [of _ ?tm] exI [of _ "unat sub"]) (auto simp: vtime_def unat_sub word_le_nat_alt word_less_nat_alt not_less)
qed

section \<open>Invariant\<close>

definition fq_limits :: "fair_queue \<Rightarrow> bool" where
  "fq_limits m \<longleftrightarrow> 0 \<le> fq_mtu m \<and> fq_mtu m \<le> INT_MAX \<and> 0 < fq_packet_weight m \<and> fq_packet_weight m \<le> INT_MAX"

definition fq_heap_ok :: "fair_queue \<Rightarrow> bool" where
  "fq_heap_ok m \<longleftrightarrow> distinct (fq_flows_list m) \<and> set (fq_flows_list m) = dom (fq_flow m) \<and>
     distinct (fq_queued_tree m) \<and>
     (\<forall>q. q \<in> set (fq_queued_tree m) \<longleftrightarrow> (\<exists>fl. fq_flow m q = Some fl \<and> fl_is_queued fl)) \<and>
     sorted_wrt (ahead (fq_flow m)) (fq_queued_tree m) \<and>
     (\<forall>q fl. fq_flow m q = Some fl \<and> fl_is_queued fl \<longrightarrow> int (length (fl_data fl)) \<le> fq_mtu m)"

definition fq_mode_ok :: "fair_queue \<Rightarrow> bool" where
  "fq_mode_ok m \<longleftrightarrow>
     (\<forall>f. fq_sending_flow m = Some f \<longrightarrow>
        (\<exists>fl. fq_flow m f = Some fl \<and> \<not> fl_is_queued fl) \<and>
        (\<forall>q \<in> set (fq_queued_tree m). vtime (fq_flow m) f \<le> vtime (fq_flow m) q) \<and>
        fq_previous_flow m = None \<and> \<not> fq_schedule_job m \<and>
        0 \<le> fq_sending_len m \<and> fq_sending_len m \<le> fq_mtu m) \<and>
     (\<forall>f. fq_previous_flow m = Some f \<longrightarrow>
        fq_schedule_job m \<and> (\<exists>fl. fq_flow m f = Some fl \<and> \<not> fl_is_queued fl)) \<and>
     (\<not> fq_freeing m \<longrightarrow> fq_output_busy m = (fq_sending_flow m \<noteq> None)) \<and>
     (\<not> fq_freeing m \<and> fq_sending_flow m = None \<and> \<not> fq_schedule_job m \<longrightarrow> fq_queued_tree m = [])"

definition fq_inv :: "fair_queue \<Rightarrow> bool" where
  "fq_inv m \<longleftrightarrow> fq_limits m \<and> fq_heap_ok m \<and> fq_mode_ok m"

lemma fq_heap_ok_update [simp]:
  "fq_heap_ok (m\<lparr>fq_schedule_job := b\<rparr>) = fq_heap_ok m"
  "fq_heap_ok (m\<lparr>fq_previous_flow := f\<rparr>) = fq_heap_ok m"
  "fq_heap_ok (m\<lparr>fq_sending_flow := f\<rparr>) = fq_heap_ok m"
  "fq_heap_ok (m\<lparr>fq_output_busy := b\<rparr>) = fq_heap_ok m"
  "fq_heap_ok (m\<lparr>fq_freeing := b\<rparr>) = fq_heap_ok m"
  by (simp_all add: fq_heap_ok_def)

lemma fq_heapD:
  assumes "fq_heap_ok m"
  shows "distinct (fq_flows_list m)" "set (fq_flows_list m) = dom (fq_flow m)" "distinct (fq_queued_tree m)"
    "sorted_wrt (ahead (fq_flow m)) (fq_queued_tree m)"
    "q \<in> set (fq_queued_tree m) \<longleftrightarrow> (\<exists>fl. fq_flow m q = Some fl \<and> fl_is_queued fl)"
    "fq_flow m q = Some fl \<Longrightarrow> fl_is_queued fl = (q \<in> set (fq_queued_tree m))"
    "fq_flow m q = Some fl \<Longrightarrow> fl_is_queued fl \<Longrightarrow> int (length (fl_data fl)) \<le> fq_mtu m"
  using assms unfolding fq_heap_ok_def by (blast, blast, blast, blast, blast, fastforce, blast)

lemma fq_heapI:
  assumes "distinct (fq_flows_list m)" "set (fq_flows_list m) = dom (fq_flow m)" "distinct (fq_queued_tree m)"
    and "sorted_wrt (ahead (fq_flow m)) (fq_queued_tree m)"
    and "\<And>q. q \<in> set (fq_queued_tree m) \<longleftrightarrow> (\<exists>fl. fq_flow m q = Some fl \<and> fl_is_queued fl)"
    and "\<And>q fl. fq_flow m q = Some fl \<Longrightarrow> fl_is_queued fl \<Longrightarrow> int (length (fl_data fl)) \<le> fq_mtu m"
  shows "fq_heap_ok m"
  using assms unfolding fq_heap_ok_def by blast

lemma vtime_upd:
  "vtime (heap(f \<mapsto> fl)) q = (if q = f then unat (fl_time fl) else vtime heap q)"
  by (simp add: vtime_def)

lemma ahead_cong: "vtime h a = vtime h' a \<Longrightarrow> vtime h b = vtime h' b \<Longrightarrow> ahead h a b = ahead h' a b"
  by (simp add: ahead_def)

lemma sorted_cong:
  "(\<And>q. q \<in> set fs \<Longrightarrow> vtime h' q = vtime h q) \<Longrightarrow> sorted_wrt (ahead h) fs \<Longrightarrow> sorted_wrt (ahead h') fs"
  by (rule sorted_shift [of h fs 0]) simp_all

definition scheduled :: "fair_queue \<Rightarrow> nat \<Rightarrow> flow \<Rightarrow> nat list \<Rightarrow> fair_queue" where
  "scheduled m f fl fs = m\<lparr>fq_queued_tree := fs, fq_flow := (fq_flow m)(f \<mapsto> fl\<lparr>fl_is_queued := False\<rparr>),
     fq_output_busy := True, fq_sending_flow := Some f, fq_sending_len := int (length (fl_data fl))\<rparr>"

lemma schedule_ok:
  assumes "fq_heap_ok m" "fq_queued_tree m = f # fs" "fq_flow m f = Some fl"
    and "fq_sending_flow m = None" "fq_previous_flow m = None" "\<not> fq_freeing m" "\<not> fq_output_busy m"
  shows "schedule m = Some (scheduled m f fl fs, [Output_send f (fl_data fl)])"
    "fq_heap_ok (scheduled m f fl fs)" "\<not> fq_schedule_job m \<Longrightarrow> fq_mode_ok (scheduled m f fl fs)"
proof -
  have fl: "fl_is_queued fl" "int (length (fl_data fl)) \<le> fq_mtu m"
    using fq_heapD(6,7) [OF assms(1,3)] assms(2) by simp_all
  have times: "vtime (fq_flow (scheduled m f fl fs)) q = vtime (fq_flow m) q" for q
    using assms(3) by (simp add: scheduled_def vtime_upd) (simp add: vtime_def)
  show "schedule m = Some (scheduled m f fl fs, [Output_send f (fl_data fl)])"
    using assms fl by (simp add: schedule_def queued_first_def scheduled_def bind_assert_True)
  show "fq_heap_ok (scheduled m f fl fs)"
  proof (rule fq_heapI)
    show "sorted_wrt (ahead (fq_flow (scheduled m f fl fs))) (fq_queued_tree (scheduled m f fl fs))"
      using fq_heapD(4) [OF assms(1)] assms(2) by (intro sorted_cong [OF times]) (simp add: scheduled_def)
    show "q \<in> set (fq_queued_tree (scheduled m f fl fs)) \<longleftrightarrow>
        (\<exists>fl'. fq_flow (scheduled m f fl fs) q = Some fl' \<and> fl_is_queued fl')" for q
      using fq_heapD(3,5) [OF assms(1)] assms(2) by (cases "q = f") (auto simp: scheduled_def)
    show "int (length (fl_data fl')) \<le> fq_mtu (scheduled m f fl fs)"
      if "fq_flow (scheduled m f fl fs) q = Some fl'" "fl_is_queued fl'" for q fl'
      using fq_heapD(7) [OF assms(1)] that by (cases "q = f") (auto simp: scheduled_def)
  qed (use fq_heapD(1-3) [OF assms(1)] assms(2,3) in \<open>auto simp: scheduled_def\<close>)
  show "fq_mode_ok (scheduled m f fl fs)" if "\<not> fq_schedule_job m"
  proof -
    have "vtime (fq_flow m) f \<le> vtime (fq_flow m) q" if "q \<in> set fs" for q
      using sorted_wrt_first [of "fq_flow m" f fs q] assms(1,2) that by (simp add: fq_heap_ok_def)
    then have "\<forall>q \<in> set fs. vtime (fq_flow (scheduled m f fl fs)) f \<le> vtime (fq_flow (scheduled m f fl fs)) q"
      by (simp add: times)
    then show ?thesis using assms(5) fl that by (auto simp: fq_mode_ok_def scheduled_def)
  qed
qed

lemma schedule_job_ok:
  assumes inv: "fq_inv m" and ok: "fq_contract m Schedule_job"
  shows "\<exists>m' os. fq_step m Schedule_job = Some (m', os) \<and> fq_inv m'"
proof -
  let ?m = "m\<lparr>fq_schedule_job := False, fq_previous_flow := None\<rparr>"
  have m: "\<not> fq_freeing m" "fq_schedule_job m" using ok by (simp_all add: fq_contract_def)
  then have s: "fq_sending_flow m = None" "\<not> fq_output_busy m" using inv by (auto simp: fq_inv_def fq_mode_ok_def)
  have heap: "fq_heap_ok ?m" using inv by (simp add: fq_inv_def)
  show ?thesis
  proof (cases "fq_queued_tree m")
    case Nil
    then have "fq_step m Schedule_job = Some (?m, [])"
      using m s by (simp add: fq_step_def schedule_job_handler_def bind_assert_True)
    moreover have "fq_inv ?m" using inv heap s Nil by (auto simp: fq_inv_def fq_mode_ok_def fq_limits_def)
    ultimately show ?thesis by blast
  next
    case (Cons f fs)
    then obtain fl where fl: "fq_flow ?m f = Some fl" using fq_heapD(5) [OF heap, of f] by auto
    note sch = schedule_ok [of ?m f fs fl, OF heap _ fl]
    have "fq_step m Schedule_job = Some (scheduled ?m f fl fs, [Output_send f (fl_data fl)])"
      using sch(1) Cons m s by (simp add: fq_step_def schedule_job_handler_def bind_assert_True)
    moreover have "fq_inv (scheduled ?m f fl fs)"
      using sch(2,3) inv Cons m s by (simp add: fq_inv_def fq_limits_def) (simp add: scheduled_def)
    ultimately show ?thesis by blast
  qed
qed

text \<open>A send completes: the flow's time grows, all times may be shifted.\<close>

definition completed :: "fair_queue \<Rightarrow> nat \<Rightarrow> flow \<Rightarrow> (nat \<Rightarrow> u64) \<Rightarrow> fair_queue" where
  "completed m f fl tm = m\<lparr>fq_output_busy := False, fq_sending_flow := None, fq_previous_flow := Some f,
     fq_schedule_job := True,
     fq_flow := (retime tm (fq_flow m))(f \<mapsto> fl\<lparr>fl_time := tm f, fl_handler_busy := False\<rparr>)\<rparr>"

definition packet_cost :: "fair_queue \<Rightarrow> nat" where
  "packet_cost m = nat (fq_packet_weight m + fq_sending_len m)"

lemma fq_sendingD:
  assumes "fq_inv m" "fq_sending_flow m = Some f"
  shows "\<exists>fl. fq_flow m f = Some fl \<and> \<not> fl_is_queued fl"
    "q \<in> set (fq_queued_tree m) \<Longrightarrow> vtime (fq_flow m) f \<le> vtime (fq_flow m) q"
    "fq_previous_flow m = None" "\<not> fq_schedule_job m" "0 \<le> fq_sending_len m" "fq_sending_len m \<le> fq_mtu m"
  using assms unfolding fq_inv_def fq_mode_ok_def by blast+

lemma output_sent_ok:
  assumes inv: "fq_inv m" and ok: "fq_contract m Output_sent"
  shows "\<exists>f fl tm k os. fq_sending_flow m = Some f \<and> fq_flow m f = Some fl \<and>
    fq_step m Output_sent = Some (completed m f fl tm, Flow_done f # os) \<and>
    k \<le> vtime (fq_flow m) f + packet_cost m \<and>
    unat (tm f) = vtime (fq_flow m) f + packet_cost m - k \<and>
    (\<forall>q \<in> set (fq_queued_tree m). k \<le> vtime (fq_flow m) q \<and> unat (tm q) = vtime (fq_flow m) q - k)"
proof -
  have heap: "fq_heap_ok m" and lim: "fq_limits m" using inv by (simp_all add: fq_inv_def)
  have "\<not> fq_freeing m" "fq_sending_flow m \<noteq> None"
    using inv ok by (auto simp: fq_contract_def fq_inv_def fq_mode_ok_def)
  then obtain f where snd: "\<not> fq_freeing m" "fq_sending_flow m = Some f" by auto
  obtain fl where fl: "fq_flow m f = Some fl" "\<not> fl_is_queued fl" using fq_sendingD(1) [OF inv snd(2)] by blast
  note f = snd fl fq_sendingD(2-6) [OF inv snd(2)]
  let ?a = "word_of_int (fq_packet_weight m) + word_of_int (fq_sending_len m) :: u64"
  let ?m = "m\<lparr>fq_output_busy := False, fq_sending_flow := None, fq_previous_flow := Some f\<rparr>"
  have "?a = word_of_int (fq_packet_weight m + fq_sending_len m)" by simp
  then have cost: "unat ?a = packet_cost m"
    using lim f(8,9) by (simp add: packet_cost_def fq_limits_def unat_eq_nat_uint uint_word_of_int_eq
        take_bit_int_eq_self del: of_int_add)
  have "\<exists>tm k. increment_sent_flow ?m f ?a = Some (?m\<lparr>fq_flow := retime tm (fq_flow ?m)\<rparr>) \<and>
    k \<le> vtime (fq_flow ?m) f + unat ?a \<and> unat (tm f) = vtime (fq_flow ?m) f + unat ?a - k \<and>
    (\<forall>q \<in> set (fq_queued_tree ?m). k \<le> vtime (fq_flow ?m) q \<and> unat (tm q) = vtime (fq_flow ?m) q - k)"
    using fq_heapD(1,2,4,5) [OF heap] f by (intro increment_ok [of ?m f fl]) simp_all
  then obtain tm k where tm: "increment_sent_flow ?m f ?a = Some (?m\<lparr>fq_flow := retime tm (fq_flow m)\<rparr>)"
    "k \<le> vtime (fq_flow m) f + packet_cost m" "unat (tm f) = vtime (fq_flow m) f + packet_cost m - k"
    "\<forall>q \<in> set (fq_queued_tree m). k \<le> vtime (fq_flow m) q \<and> unat (tm q) = vtime (fq_flow m) q - k"
    unfolding cost by auto
  have "fl_handler_busy fl \<or> (retime tm (fq_flow m))(f \<mapsto> fl\<lparr>fl_time := tm f, fl_handler_busy := False\<rparr>) = retime tm (fq_flow m)"
    using f(3) by (cases fl) (auto simp: fun_eq_iff retime_def)
  then have "\<exists>os. fq_step m Output_sent = Some (completed m f fl tm, Flow_done f # os)"
    using f tm(1)
    by (auto simp: fq_step_def fq_output_handler_done_def bind_assert_True completed_def retime_def Let_def)
  with f tm show ?thesis by blast
qed

lemma completed_inv:
  assumes inv: "fq_inv m" and f: "fq_sending_flow m = Some f" "fq_flow m f = Some fl"
    and tm: "\<forall>q \<in> set (fq_queued_tree m). k \<le> vtime (fq_flow m) q \<and> unat (tm q) = vtime (fq_flow m) q - k"
  shows "fq_inv (completed m f fl tm)"
proof -
  have heap: "fq_heap_ok m" using inv by (simp add: fq_inv_def)
  have nq: "\<not> fl_is_queued fl" "f \<notin> set (fq_queued_tree m)"
    using inv f fq_heapD(6) [OF heap f(2)] by (auto simp: fq_inv_def fq_mode_ok_def)
  let ?m = "completed m f fl tm"
  have flows: "fq_flow ?m q = (if q = f then Some (fl\<lparr>fl_time := tm f, fl_handler_busy := False\<rparr>)
      else map_option (fl_time_update (\<lambda>_. tm q)) (fq_flow m q))" for q
    by (simp add: completed_def retime_def)
  have "fq_heap_ok ?m"
  proof (rule fq_heapI)
    have times: "vtime (fq_flow ?m) q = vtime (fq_flow m) q - k" if "q \<in> set (fq_queued_tree m)" for q
      using that tm nq fq_heapD(5) [OF heap, of q] by (auto simp: vtime_def flows)
    have "sorted_wrt (ahead (fq_flow ?m)) (fq_queued_tree m)"
      using tm times by (intro sorted_shift [OF fq_heapD(4) [OF heap], of k]) simp_all
    then show "sorted_wrt (ahead (fq_flow ?m)) (fq_queued_tree ?m)" by (simp add: completed_def)
    show "q \<in> set (fq_queued_tree ?m) \<longleftrightarrow> (\<exists>fl'. fq_flow ?m q = Some fl' \<and> fl_is_queued fl')" for q
    proof -
      have "q \<in> set (fq_queued_tree ?m) \<longleftrightarrow> q \<in> set (fq_queued_tree m)" by (simp add: completed_def)
      then show ?thesis using fq_heapD(5) [OF heap, of q] nq by (auto simp: flows)
    qed
    show "int (length (fl_data fl')) \<le> fq_mtu ?m" if "fq_flow ?m q = Some fl'" "fl_is_queued fl'" for q fl'
    proof -
      have "fq_mtu ?m = fq_mtu m" by (simp add: completed_def)
      then show ?thesis using that fq_heapD(7) [OF heap, of q] nq by (auto simp: flows split: if_splits)
    qed
    show "set (fq_flows_list ?m) = dom (fq_flow ?m)"
      using fq_heapD(2) [OF heap] f(2) by (auto simp: flows dom_def) (auto simp: completed_def)
  qed (use fq_heapD(1,3) [OF heap] in \<open>simp_all add: completed_def\<close>)
  then show ?thesis
    using inv nq by (auto simp: fq_inv_def fq_limits_def fq_mode_ok_def completed_def)
qed

text \<open>A flow sends a packet.\<close>

lemma fq_previousD:
  assumes "fq_inv m" "fq_previous_flow m = Some f"
  shows "fq_schedule_job m" "\<exists>fl. fq_flow m f = Some fl \<and> \<not> fl_is_queued fl" "fq_sending_flow m = None"
  using assms unfolding fq_inv_def fq_mode_ok_def by (blast, blast, metis not_None_eq option.distinct(1))

lemma get_current_time_ok:
  assumes inv: "fq_inv m"
  shows "\<exists>t. get_current_time m = Some t \<and>
    (\<forall>g. fq_sending_flow m = Some g \<longrightarrow> vtime (fq_flow m) g = unat t)"
proof (cases "fq_sending_flow m")
  case (Some g)
  obtain fl where "fq_flow m g = Some fl" using fq_sendingD(1) [OF inv Some] by blast
  then show ?thesis using Some by (simp add: get_current_time_def vtime_def)
next
  case None
  have heap: "fq_heap_ok m" using inv by (simp add: fq_inv_def)
  have first: "\<exists>fl. fq_flow m f = Some fl \<and> fl_is_queued fl" if "queued_first m = Some f" for f
    using that fq_heapD(5) [OF heap, of f] by (auto simp: queued_first_def split: list.splits)
  have prev: "\<exists>fl. fq_flow m f = Some fl" if "fq_previous_flow m = Some f" for f
    using fq_previousD(2) [OF inv that] by blast
  show ?thesis
    using None first prev by (fastforce simp: get_current_time_def split: option.split)
qed

definition enqueued :: "fair_queue \<Rightarrow> nat \<Rightarrow> flow \<Rightarrow> u64 \<Rightarrow> byte list \<Rightarrow> nat list \<Rightarrow> fair_queue" where
  "enqueued m f fl t data fs =
     m\<lparr>fq_previous_flow := (if fq_previous_flow m = Some f then None else fq_previous_flow m),
       fq_queued_tree := fs,
       fq_flow := (fq_flow m)(f \<mapsto> fl\<lparr>fl_time := t, fl_data := data, fl_is_queued := True\<rparr>)\<rparr>"

lemma enqueued_heap:
  assumes heap: "fq_heap_ok m" and f: "fq_flow m f = Some fl" "\<not> fl_is_queued fl" and len: "int (length data) \<le> fq_mtu m"
  shows "\<exists>fs. queued_insert (compare_flows ((fq_flow m)(f \<mapsto> fl\<lparr>fl_time := t, fl_data := data\<rparr>))) f (fq_queued_tree m) = Some fs \<and>
    set fs = insert f (set (fq_queued_tree m)) \<and> fq_heap_ok (enqueued m f fl t data fs)"
proof -
  let ?h = "(fq_flow m)(f \<mapsto> fl\<lparr>fl_time := t, fl_data := data\<rparr>)"
  have fresh: "f \<notin> set (fq_queued_tree m)" using fq_heapD(6) [OF heap f(1)] f(2) by simp
  have "sorted_wrt (ahead ?h) (fq_queued_tree m)"
    using fresh by (intro sorted_cong [OF _ fq_heapD(4) [OF heap]]) (auto simp: vtime_upd)
  then obtain fs where fs: "queued_insert (compare_flows ?h) f (fq_queued_tree m) = Some fs"
    "set fs = insert f (set (fq_queued_tree m))" "sorted_wrt (ahead ?h) fs" "distinct fs"
    using queued_insert_ok [OF fresh] fq_heapD(3) [OF heap] by blast
  have "fq_heap_ok (enqueued m f fl t data fs)"
  proof (rule fq_heapI)
    have "sorted_wrt (ahead (fq_flow (enqueued m f fl t data fs))) fs"
      using fs(3) by (rule sorted_cong [rotated]) (simp add: vtime_upd enqueued_def)
    then show "sorted_wrt (ahead (fq_flow (enqueued m f fl t data fs))) (fq_queued_tree (enqueued m f fl t data fs))"
      by (simp add: enqueued_def)
    show "q \<in> set (fq_queued_tree (enqueued m f fl t data fs)) \<longleftrightarrow>
        (\<exists>fl'. fq_flow (enqueued m f fl t data fs) q = Some fl' \<and> fl_is_queued fl')" for q
      using fs(2) fq_heapD(5) [OF heap, of q] by (auto simp: enqueued_def)
    show "int (length (fl_data fl')) \<le> fq_mtu (enqueued m f fl t data fs)"
      if "fq_flow (enqueued m f fl t data fs) q = Some fl'" "fl_is_queued fl'" for q fl'
      using that len fq_heapD(7) [OF heap, of q] by (cases "q = f") (auto simp: enqueued_def)
  qed (use fq_heapD(1,2) [OF heap] f fs(4) in \<open>auto simp: enqueued_def\<close>)
  with fs(1,2) show ?thesis by blast
qed

lemma flow_send_ok:
  assumes inv: "fq_inv m" and ok: "fq_contract m (Flow_send f data)"
  shows "\<exists>fl t fs os. fq_flow m f = Some fl \<and> set fs = insert f (set (fq_queued_tree m)) \<and>
    (fq_previous_flow m = Some f \<longrightarrow> t = fl_time fl) \<and>
    ((fq_step m (Flow_send f data) = Some (enqueued m f fl t data fs, os) \<and> fq_inv (enqueued m f fl t data fs)) \<or>
     (fq_queued_tree m = [] \<and> fq_previous_flow m = None \<and>
      fq_step m (Flow_send f data) = Some (scheduled (enqueued m f fl t data [f]) f (fl\<lparr>fl_time := t, fl_data := data, fl_is_queued := True\<rparr>) [], os) \<and>
      fq_inv (scheduled (enqueued m f fl t data [f]) f (fl\<lparr>fl_time := t, fl_data := data, fl_is_queued := True\<rparr>) [])))"
proof -
  have heap: "fq_heap_ok m" and lim: "fq_limits m" using inv by (simp_all add: fq_inv_def)
  obtain fl where fl: "fq_flow m f = Some fl" "\<not> fl_is_queued fl" "\<not> fq_freeing m" "fq_sending_flow m \<noteq> Some f"
    "int (length data) \<le> fq_mtu m"
    using ok by (auto simp: fq_contract_def split: option.splits)
  obtain ct where ct: "get_current_time m = Some ct" "\<And>g. fq_sending_flow m = Some g \<Longrightarrow> vtime (fq_flow m) g = unat ct"
    using get_current_time_ok [OF inv] by blast
  define t where "t = (if fq_previous_flow m = Some f then fl_time fl else bmax_uint64 (fl_time fl) ct)"
  obtain fs where fs: "queued_insert (compare_flows ((fq_flow m)(f \<mapsto> fl\<lparr>fl_time := t, fl_data := data\<rparr>))) f (fq_queued_tree m) = Some fs"
    "set fs = insert f (set (fq_queued_tree m))" "fq_heap_ok (enqueued m f fl t data fs)"
    using enqueued_heap [OF heap fl(1,2,5)] by blast
  let ?m = "enqueued m f fl t data fs"
  have step: "fq_step m (Flow_send f data) =
      (if fq_sending_flow m = None \<and> \<not> fq_schedule_job m then schedule ?m else Some (?m, []))"
    using fl ct(1) fs(1)
    by (cases "fq_previous_flow m = Some f")
      (simp_all add: fq_step_def fq_input_handler_send_def bind_assert_True Let_def enqueued_def t_def)
  show ?thesis
  proof (cases "fq_sending_flow m = None \<and> \<not> fq_schedule_job m")
    case True
    then have idle: "fq_queued_tree m = []" "\<not> fq_output_busy m" "fq_previous_flow m = None"
      using inv fl(3) fq_previousD(1) [OF inv] by (auto simp: fq_inv_def fq_mode_ok_def)
    then have one: "fs = [f]" using fs(1) by simp
    let ?fl = "fl\<lparr>fl_time := t, fl_data := data, fl_is_queued := True\<rparr>"
    have sch: "schedule ?m = Some (scheduled ?m f ?fl [], [Output_send f data])"
      "fq_heap_ok (scheduled ?m f ?fl [])" "fq_mode_ok (scheduled ?m f ?fl [])"
      using schedule_ok [OF fs(3), of f "[]" ?fl] True idle fl one by (simp_all add: enqueued_def)
    have "fq_inv (scheduled ?m f ?fl [])"
      using sch(2,3) lim by (simp add: fq_inv_def) (simp add: fq_limits_def scheduled_def enqueued_def)
    then show ?thesis
      using sch(1) step True idle one fl(1)
      by (intro exI [of _ fl] exI [of _ t] exI [of _ fs] exI [of _ "[Output_send f data]"]) simp
  next
    case False
    have "fq_mode_ok ?m"
    proof (cases "fq_sending_flow m")
      case (Some g)
      have "g \<noteq> f" using Some fl(4) by auto
      have "vtime (fq_flow m) g \<le> unat t"
        using ct(2) [OF Some] fq_sendingD(3) [OF inv Some] by (auto simp: t_def bmax_uint64_def word_less_nat_alt)
      then have "vtime (fq_flow ?m) g \<le> vtime (fq_flow ?m) q" if "q \<in> set fs" for q
        using that fs(2) fq_sendingD(2) [OF inv Some, of q] \<open>g \<noteq> f\<close> by (auto simp: enqueued_def vtime_upd)
      then show ?thesis
        using inv Some fl(3) \<open>g \<noteq> f\<close> fq_sendingD [OF inv Some] by (auto simp: fq_inv_def fq_mode_ok_def enqueued_def)
    next
      case None
      then show ?thesis using inv False by (auto simp: fq_inv_def fq_mode_ok_def enqueued_def)
    qed
    then have "fq_inv ?m" using fs(3) lim by (simp add: fq_inv_def) (simp add: fq_limits_def enqueued_def)
    moreover have "fq_step m (Flow_send f data) = Some (?m, [])" using step False by simp
    ultimately show ?thesis
      using fl(1) fs(2) by (intro exI [of _ fl] exI [of _ t] exI [of _ fs] exI [of _ "[]"]) (simp add: t_def)
  qed
qed

text \<open>A flow is freed.\<close>

definition released :: "fair_queue \<Rightarrow> nat \<Rightarrow> fair_queue" where
  "released m f =
     m\<lparr>fq_sending_flow := (if fq_sending_flow m = Some f then None else fq_sending_flow m),
       fq_previous_flow := (if fq_previous_flow m = Some f then None else fq_previous_flow m),
       fq_queued_tree := filter (\<lambda>q. q \<noteq> f) (fq_queued_tree m),
       fq_flows_list := filter (\<lambda>q. q \<noteq> f) (fq_flows_list m), fq_flow := (fq_flow m)(f := None)\<rparr>"

lemma flow_free_ok:
  assumes inv: "fq_inv m" and ok: "fq_contract m (Flow_free f)"
  shows "fq_step m (Flow_free f) = Some (released m f, [])" "fq_inv (released m f)"
proof -
  have heap: "fq_heap_ok m" using inv by (simp add: fq_inv_def)
  obtain fl where f: "fq_flow m f = Some fl" "fq_freeing m \<or> fq_sending_flow m \<noteq> Some f"
    using ok by (auto simp: fq_contract_def)
  have del: "distinct xs \<Longrightarrow> remove1 f xs = filter (\<lambda>q. q \<noteq> f) xs" for xs
    by (simp add: distinct_remove1_removeAll removeAll_filter_not_eq eq_commute)
  have "filter (\<lambda>q. q \<noteq> f) (fq_queued_tree m) = fq_queued_tree m" if "\<not> fl_is_queued fl"
    using fq_heapD(6) [OF heap f(1)] that by (auto simp: filter_id_conv)
  then show "fq_step m (Flow_free f) = Some (released m f, [])"
    using f del [OF fq_heapD(1) [OF heap]] del [OF fq_heapD(3) [OF heap]]
    by (auto simp: fq_step_def PacketPassFairQueueFlow_Free_def released_def Let_def bind_assert_True)
  have times: "vtime (fq_flow (released m f)) q = vtime (fq_flow m) q" if "q \<noteq> f" for q
    using that by (simp add: released_def vtime_def)
  have "fq_heap_ok (released m f)"
  proof (rule fq_heapI)
    have "sorted_wrt (ahead (fq_flow (released m f))) (filter (\<lambda>q. q \<noteq> f) (fq_queued_tree m))"
      by (rule sorted_cong [OF _ sorted_wrt_filter [OF fq_heapD(4) [OF heap]]]) (simp add: times)
    then show "sorted_wrt (ahead (fq_flow (released m f))) (fq_queued_tree (released m f))"
      by (simp add: released_def)
    show "q \<in> set (fq_queued_tree (released m f)) \<longleftrightarrow>
        (\<exists>fl'. fq_flow (released m f) q = Some fl' \<and> fl_is_queued fl')" for q
      using fq_heapD(5) [OF heap, of q] by (auto simp: released_def)
    show "int (length (fl_data fl')) \<le> fq_mtu (released m f)"
      if "fq_flow (released m f) q = Some fl'" "fl_is_queued fl'" for q fl'
      using that fq_heapD(7) [OF heap, of q] by (cases "q = f") (auto simp: released_def)
  qed (use fq_heapD(1-3) [OF heap] in \<open>auto simp: released_def\<close>)
  moreover have "fq_mode_ok (released m f)"
  proof (cases "fq_sending_flow (released m f)")
    case (Some g)
    then have g: "fq_sending_flow m = Some g" "g \<noteq> f" by (auto simp: released_def split: if_splits)
    then have "vtime (fq_flow (released m f)) g \<le> vtime (fq_flow (released m f)) q"
      if "q \<in> set (fq_queued_tree (released m f))" for q
      using that fq_sendingD(2) [OF inv g(1), of q] times by (auto simp: released_def)
    then show ?thesis
      using Some g fq_sendingD [OF inv g(1)] inv by (auto simp: fq_mode_ok_def fq_inv_def) (auto simp: released_def)
  next
    case None
    then show ?thesis
      using inv f(2) by (auto simp: fq_mode_ok_def fq_inv_def released_def split: if_splits)
  qed
  ultimately show "fq_inv (released m f)"
    using inv by (simp add: fq_inv_def) (simp add: fq_limits_def released_def)
qed

lemma flow_init_ok:
  assumes inv: "fq_inv m" and ok: "fq_contract m (Flow_init f)"
  shows "\<exists>m'. fq_step m (Flow_init f) = Some (m', []) \<and> fq_inv m' \<and>
    (\<forall>q. fq_flow m q \<noteq> None \<longrightarrow> fq_flow m' q = fq_flow m q)"
proof -
  have heap: "fq_heap_ok m" using inv by (simp add: fq_inv_def)
  have f: "fq_flow m f = None" "\<not> fq_freeing m" using ok by (simp_all add: fq_contract_def)
  define m' where "m' = m\<lparr>fq_flow := (fq_flow m)(f \<mapsto>
      \<lparr>fl_time = 0, fl_is_queued = False, fl_data = [], fl_handler_busy = False\<rparr>),
      fq_flows_list := fq_flows_list m @ [f]\<rparr>"
  have nq: "f \<notin> set (fq_queued_tree m)" using fq_heapD(5) [OF heap, of f] f by simp
  have times: "vtime (fq_flow m') q = vtime (fq_flow m) q" if "q \<noteq> f" for q
    using that by (simp add: m'_def vtime_def)
  have tree: "fq_queued_tree m' = fq_queued_tree m" by (simp add: m'_def)
  have "fq_heap_ok m'"
  proof (rule fq_heapI)
    show "sorted_wrt (ahead (fq_flow m')) (fq_queued_tree m')"
      unfolding tree using nq by (intro sorted_cong [OF _ fq_heapD(4) [OF heap]]) (metis times)
    show "q \<in> set (fq_queued_tree m') \<longleftrightarrow> (\<exists>fl'. fq_flow m' q = Some fl' \<and> fl_is_queued fl')" for q
      unfolding tree using fq_heapD(5) [OF heap, of q] nq by (auto simp: m'_def)
    show "int (length (fl_data fl')) \<le> fq_mtu m'" if "fq_flow m' q = Some fl'" "fl_is_queued fl'" for q fl'
      using that fq_heapD(7) [OF heap, of q] by (cases "q = f") (auto simp: m'_def)
  qed (use fq_heapD(1-3) [OF heap] f in \<open>auto simp: m'_def\<close>)
  moreover have "fq_mode_ok m'"
  proof (cases "fq_sending_flow m")
    case (Some g)
    then have "g \<noteq> f" using fq_sendingD(1) [OF inv Some] f by auto
    then have "vtime (fq_flow m') g \<le> vtime (fq_flow m') q" if "q \<in> set (fq_queued_tree m)" for q
      using that fq_sendingD(2) [OF inv Some, of q] nq by (metis times)
    then show ?thesis
      using Some \<open>g \<noteq> f\<close> fq_sendingD [OF inv Some] inv by (auto simp: fq_mode_ok_def fq_inv_def m'_def)
  next
    case None
    then show ?thesis using inv f by (auto simp: fq_mode_ok_def fq_inv_def m'_def)
  qed
  ultimately have "fq_inv m'" using inv by (simp add: fq_inv_def) (simp add: fq_limits_def m'_def)
  moreover have "fq_step m (Flow_init f) = Some (m', [])"
    using f by (simp add: fq_step_def PacketPassFairQueueFlow_Init_def m'_def bind_assert_True)
  moreover have "\<forall>q. fq_flow m q \<noteq> None \<longrightarrow> fq_flow m' q = fq_flow m q" using f by (auto simp: m'_def)
  ultimately show ?thesis by blast
qed

lemma busy_handler_inv:
  assumes inv: "fq_inv m" and f: "fq_flow m f = Some fl"
  shows "fq_inv (m\<lparr>fq_flow := (fq_flow m)(f \<mapsto> fl\<lparr>fl_handler_busy := h\<rparr>)\<rparr>)" (is "fq_inv ?m")
proof -
  have heap: "fq_heap_ok m" using inv by (simp add: fq_inv_def)
  have times: "vtime (fq_flow ?m) q = vtime (fq_flow m) q" for q using f by (simp add: vtime_def)
  have "fq_heap_ok ?m"
  proof (rule fq_heapI)
    show "sorted_wrt (ahead (fq_flow ?m)) (fq_queued_tree ?m)"
      using fq_heapD(4) [OF heap] by (intro sorted_cong [OF times]) simp
    show "q \<in> set (fq_queued_tree ?m) \<longleftrightarrow> (\<exists>fl'. fq_flow ?m q = Some fl' \<and> fl_is_queued fl')" for q
      using fq_heapD(5) [OF heap, of q] f by auto
    show "int (length (fl_data fl')) \<le> fq_mtu ?m" if "fq_flow ?m q = Some fl'" "fl_is_queued fl'" for q fl'
      using that fq_heapD(7) [OF heap, of q] f by (cases "q = f") auto
  qed (use fq_heapD(1-3) [OF heap] f in auto)
  moreover have "fq_mode_ok ?m"
    using inv f times by (auto simp: fq_inv_def fq_mode_ok_def)
  ultimately show ?thesis using inv by (simp add: fq_inv_def fq_limits_def)
qed

interpretation fair: safe_machine fq_step fq_contract fq_inv
proof
  fix m e assume inv: "fq_inv m" and ok: "fq_contract m e"
  show "\<exists>m' os. fq_step m e = Some (m', os) \<and> fq_inv m'"
  proof (cases e)
    case (Flow_send f data)
    then show ?thesis using flow_send_ok [OF inv] ok by blast
  next
    case Output_sent
    then obtain f fl tm k os where f: "fq_sending_flow m = Some f" "fq_flow m f = Some fl"
      "fq_step m Output_sent = Some (completed m f fl tm, Flow_done f # os)"
      "\<forall>q \<in> set (fq_queued_tree m). k \<le> vtime (fq_flow m) q \<and> unat (tm q) = vtime (fq_flow m) q - k"
      using output_sent_ok [OF inv] ok by blast
    then show ?thesis using Output_sent completed_inv [OF inv f(1,2,4)] by blast
  next
    case Schedule_job
    then show ?thesis using schedule_job_ok [OF inv] ok by blast
  next
    case (Flow_init f)
    then show ?thesis using flow_init_ok [OF inv] ok by blast
  next
    case (Flow_free f)
    then show ?thesis using flow_free_ok [OF inv] ok by blast
  next
    case (Set_busy_handler f h)
    then have f: "fq_sending_flow m = Some f" "\<not> fq_freeing m" using ok by (simp_all add: fq_contract_def)
    obtain fl where fl: "fq_flow m f = Some fl" using fq_sendingD(1) [OF inv f(1)] by blast
    then show ?thesis
      using Set_busy_handler f busy_handler_inv [OF inv fl, of h]
      by (simp add: fq_step_def PacketPassFairQueueFlow_SetBusyHandler_def bind_assert_True)
  next
    case (Request_cancel f)
    then show ?thesis
      using ok inv fq_sendingD(4) [OF inv, of f]
      by (simp add: fq_step_def PacketPassFairQueueFlow_RequestCancel_def fq_contract_def bind_assert_True)
  next
    case Prepare_free
    then show ?thesis
      using inv by (auto simp: fq_step_def PacketPassFairQueue_PrepareFree_def fq_inv_def fq_limits_def fq_mode_ok_def)
  qed
qed

section \<open>Fairness\<close>

text \<open>A flow is backlogged while its packet is queued, being sent, or was the last one sent and the
  schedule job has yet to run: the time in which it may hand over its next packet.\<close>

definition backlogged :: "fair_queue \<Rightarrow> nat \<Rightarrow> bool" where
  "backlogged m f \<longleftrightarrow> fq_sending_flow m = Some f \<or> fq_previous_flow m = Some f \<or> f \<in> set (fq_queued_tree m)"

definition served :: "nat \<Rightarrow> fair_queue \<Rightarrow> fq_event \<Rightarrow> nat" where
  "served f m e = (if e = Output_sent \<and> fq_sending_flow m = Some f then packet_cost m else 0)"

definition lead :: "fair_queue \<Rightarrow> nat \<Rightarrow> nat \<Rightarrow> int" where
  "lead m i j = int (vtime (fq_flow m) i) - int (vtime (fq_flow m) j)"

lemma backlogged_flow: "fq_inv m \<Longrightarrow> backlogged m f \<Longrightarrow> fq_flow m f \<noteq> None"
  using fq_sendingD(1) fq_previousD(2) fq_heapD(5) by (fastforce simp: backlogged_def fq_inv_def)

lemma vtime_kept:
  assumes inv: "fq_inv m" and ok: "fq_contract m e" and step: "fq_step m e = Some (m', os)"
    and e: "e \<noteq> Output_sent" and q: "backlogged m q" "backlogged m' q"
  shows "vtime (fq_flow m') q = vtime (fq_flow m) q"
proof (cases e)
  case (Flow_send f data)
  obtain fl t fs os' where f: "fq_flow m f = Some fl" "fq_previous_flow m = Some f \<longrightarrow> t = fl_time fl"
    and m': "m' = enqueued m f fl t data fs \<or>
      m' = scheduled (enqueued m f fl t data [f]) f (fl\<lparr>fl_time := t, fl_data := data, fl_is_queued := True\<rparr>) []"
    using flow_send_ok [OF inv, of f data] ok step Flow_send by auto
  have "vtime (fq_flow m') p = (if p = f then unat t else vtime (fq_flow m) p)" for p
    using m' by (auto simp: scheduled_def enqueued_def vtime_def)
  moreover have "fq_previous_flow m = Some f" if "q = f"
    using q(1) ok that f(1) Flow_send fq_heapD(6) [of m f fl] inv
    by (auto simp: backlogged_def fq_contract_def fq_inv_def)
  ultimately show ?thesis using f by (auto simp: vtime_def)
next
  case Schedule_job
  then show ?thesis
    using step
    by (auto simp: fq_step_def schedule_job_handler_def schedule_def Let_def bind_eq_Some_conv vtime_def
        split: if_splits)
next
  case (Flow_init f)
  then show ?thesis
    using flow_init_ok [OF inv, of f] ok step backlogged_flow [OF inv q(1)] by (auto simp: vtime_def)
next
  case (Flow_free f)
  then have "m' = released m f" using flow_free_ok(1) [OF inv] ok step by simp
  moreover have "q \<noteq> f" using q(2) calculation by (auto simp: backlogged_def released_def split: if_splits)
  ultimately show ?thesis by (simp add: released_def vtime_def)
next
  case (Set_busy_handler f h)
  then show ?thesis
    using step by (auto simp: fq_step_def PacketPassFairQueueFlow_SetBusyHandler_def bind_eq_Some_conv vtime_def)
qed (use step e in \<open>auto simp: fq_step_def PacketPassFairQueue_PrepareFree_def
    PacketPassFairQueueFlow_RequestCancel_def\<close>)


lemma lead_step:
  assumes inv: "fq_inv m" and ok: "fq_contract m e" and step: "fq_step m e = Some (m', os)"
    and i: "backlogged m i" "backlogged m' i" and j: "backlogged m j" "backlogged m' j" and "i \<noteq> j"
  shows "lead m' i j = lead m i j + int (served i m e) - int (served j m e)"
    "0 < served i m e \<Longrightarrow> lead m i j \<le> 0"
proof -
  have "lead m' i j = lead m i j + int (served i m e) - int (served j m e) \<and> (0 < served i m e \<longrightarrow> lead m i j \<le> 0)"
  proof (cases "e = Output_sent")
    case True
    then obtain f fl tm k os' where f: "fq_sending_flow m = Some f" "fq_flow m f = Some fl"
      "fq_step m Output_sent = Some (completed m f fl tm, Flow_done f # os')"
      "k \<le> vtime (fq_flow m) f + packet_cost m" "unat (tm f) = vtime (fq_flow m) f + packet_cost m - k"
      "\<forall>q \<in> set (fq_queued_tree m). k \<le> vtime (fq_flow m) q \<and> unat (tm q) = vtime (fq_flow m) q - k"
      using output_sent_ok [OF inv] ok by blast
    have m': "m' = completed m f fl tm" using step f(3) True by simp
    have sent: "int (vtime (fq_flow m') f) = int (vtime (fq_flow m) f) + int (packet_cost m) - int k"
    proof -
      have "vtime (fq_flow m') f = unat (tm f)" by (simp add: m' completed_def vtime_def)
      then show ?thesis using f(4,5) by (simp add: of_nat_diff)
    qed
    have rest: "int (vtime (fq_flow m') q) = int (vtime (fq_flow m) q) - int k"
      "vtime (fq_flow m) f \<le> vtime (fq_flow m) q" if "backlogged m q" "q \<noteq> f" for q
    proof -
      have q: "q \<in> set (fq_queued_tree m)"
        using that f(1) fq_sendingD(3) [OF inv f(1)] by (auto simp: backlogged_def)
      have "vtime (fq_flow m') q = unat (tm q)"
        using that(2) backlogged_flow [OF inv that(1)] by (auto simp: m' completed_def vtime_def retime_def)
      then show "int (vtime (fq_flow m') q) = int (vtime (fq_flow m) q) - int k"
        using f(6) q by (simp add: of_nat_diff)
      show "vtime (fq_flow m) f \<le> vtime (fq_flow m) q" by (rule fq_sendingD(2) [OF inv f(1) q])
    qed
    show ?thesis
      using sent rest [OF i(1)] rest [OF j(1)] f(1) True \<open>i \<noteq> j\<close>
      by (cases "i = f"; cases "j = f") (auto simp: lead_def served_def)
  next
    case False
    then show ?thesis
      using vtime_kept [OF inv ok step False i] vtime_kept [OF inv ok step False j]
      by (simp add: lead_def served_def)
  qed
  then show "lead m' i j = lead m i j + int (served i m e) - int (served j m e)"
    "0 < served i m e \<Longrightarrow> lead m i j \<le> 0" by blast+
qed

lemma served_bound: "fq_inv m \<Longrightarrow> int (served i m e) \<le> fq_mtu m + fq_packet_weight m"
  using fq_sendingD(5,6) [of m i] by (auto simp: served_def packet_cost_def fq_inv_def fq_limits_def)

lemma fq_step_limits:
  assumes inv: "fq_inv m" and ok: "fq_contract m e" and step: "fq_step m e = Some (m', os)"
  shows "fq_mtu m' = fq_mtu m \<and> fq_packet_weight m' = fq_packet_weight m"
proof (cases e)
  case (Flow_send f data)
  obtain fl t fs where "m' = enqueued m f fl t data fs \<or>
      m' = scheduled (enqueued m f fl t data [f]) f (fl\<lparr>fl_time := t, fl_data := data, fl_is_queued := True\<rparr>) []"
    using flow_send_ok [OF inv, of f data] ok step Flow_send by auto
  then show ?thesis by (auto simp: scheduled_def enqueued_def)
next
  case Output_sent
  obtain f fl tm k os' where "fq_step m Output_sent = Some (completed m f fl tm, Flow_done f # os')"
    using output_sent_ok [OF inv] ok Output_sent by blast
  then show ?thesis using step Output_sent by (auto simp: completed_def)
next
  case (Flow_free f)
  then show ?thesis using flow_free_ok(1) [OF inv] ok step by (auto simp: released_def)
next
  case Schedule_job
  then show ?thesis
    using step by (auto simp: fq_step_def schedule_job_handler_def schedule_def Let_def bind_eq_Some_conv split: if_splits)
qed (use step in \<open>auto simp: fq_step_def PacketPassFairQueue_PrepareFree_def PacketPassFairQueueFlow_Init_def
    PacketPassFairQueueFlow_RequestCancel_def PacketPassFairQueueFlow_SetBusyHandler_def bind_eq_Some_conv\<close>)

text \<open>Two flows stay backlogged during a run; what a flow is served during a run.\<close>

fun both_backlogged :: "nat \<Rightarrow> nat \<Rightarrow> fair_queue \<Rightarrow> fq_event list \<Rightarrow> bool" where
  "both_backlogged i j m [] = (backlogged m i \<and> backlogged m j)"
| "both_backlogged i j m (e # es) = (backlogged m i \<and> backlogged m j \<and>
     (case fq_step m e of None \<Rightarrow> False | Some (m1, _) \<Rightarrow> both_backlogged i j m1 es))"

fun service :: "nat \<Rightarrow> fair_queue \<Rightarrow> fq_event list \<Rightarrow> nat" where
  "service i m [] = 0"
| "service i m (e # es) = served i m e +
     (case fq_step m e of None \<Rightarrow> 0 | Some (m1, _) \<Rightarrow> service i m1 es)"

lemma both_backlogged_now: "both_backlogged i j m es \<Longrightarrow> backlogged m i \<and> backlogged m j"
  by (cases es) auto

lemma lead_run:
  assumes "fq_inv m" "admissible fq_contract fq_step m es" "both_backlogged i j m es" "i \<noteq> j"
    and "run fq_step m es = Some (m', os)"
  shows "lead m' i j = lead m i j + int (service i m es) - int (service j m es) \<and>
    lead m' i j \<le> max (lead m i j) (fq_mtu m + fq_packet_weight m)"
  using assms
proof (induction es arbitrary: m os)
  case (Cons e es)
  obtain m1 o1 o2 where m1: "fq_step m e = Some (m1, o1)" "run fq_step m1 es = Some (m', o2)"
    using Cons.prems(5) by (auto split: option.splits)
  have ok: "fq_contract m e" "admissible fq_contract fq_step m1 es" using Cons.prems(2) m1 by simp_all
  have inv1: "fq_inv m1" using fair.step_safe [OF Cons.prems(1) ok(1)] m1(1) by auto
  have b: "both_backlogged i j m1 es" "backlogged m i" "backlogged m j" using Cons.prems(3) m1 by simp_all
  have b1: "backlogged m1 i" "backlogged m1 j" using both_backlogged_now [OF b(1)] by simp_all
  note l = lead_step [OF Cons.prems(1) ok(1) m1(1) b(2) b1(1) b(3) b1(2) Cons.prems(4)]
  have "lead m1 i j \<le> max (lead m i j) (fq_mtu m + fq_packet_weight m)"
    using l served_bound [OF Cons.prems(1), of i e] by (cases "served i m e = 0") auto
  moreover have "fq_mtu m1 = fq_mtu m" "fq_packet_weight m1 = fq_packet_weight m"
    using fq_step_limits [OF Cons.prems(1) ok(1) m1(1)] by simp_all
  ultimately show ?case
    using Cons.IH [OF inv1 ok(2) b(1) Cons.prems(4) m1(2)] l(1) m1(1) by auto
qed simp

lemma fq_init_inv:
  assumes "PacketPassFairQueue_Init mtu has_cancel use_cancel packet_weight = Some (Some m)"
    and "0 \<le> mtu" "mtu \<le> INT_MAX" "packet_weight \<le> INT_MAX"
  shows "fq_inv m" "fq_mtu m = mtu" "fq_packet_weight m = packet_weight"
  using assms
  by (auto simp: PacketPassFairQueue_Init_def fq_inv_def fq_limits_def fq_heap_ok_def fq_mode_ok_def split: if_splits)

lemma FAIRQUEUE_MAX_TIME_num: "FAIRQUEUE_MAX_TIME = 18446744073709551615"
  by (simp add: FAIRQUEUE_MAX_TIME_def)

lemmas fq_eval =
  PacketPassFairQueue_Init_def fq_step_def fq_contract_def fq_input_handler_send_def
  fq_output_handler_done_def schedule_job_handler_def schedule_def increment_sent_flow_def
  PacketPassFairQueueFlow_Init_def get_current_time_def queued_first_def compare_flows_def B_COMPARE_def
  bmax_uint64_def FAIRQUEUE_MAX_TIME_num Let_def

text \<open>C6. On every sequence of events that keeps to the contract no assertion of the queue fails, and
  the queue is work-conserving: unless it is being freed, whenever a packet is queued the output is busy
  or the schedule job is pending. The packet being sent is that of a flow whose time is no greater than
  that of any queued flow, and the tree of queued flows stays in order although times change in place.\<close>

theorem fair_queue_safe:
  assumes "PacketPassFairQueue_Init mtu has_cancel use_cancel packet_weight = Some (Some m)"
    and "0 \<le> mtu" "mtu \<le> INT_MAX" "packet_weight \<le> INT_MAX"
    and "admissible fq_contract fq_step m es"
  shows "\<exists>m' os. run fq_step m es = Some (m', os) \<and>
    sorted_wrt (\<lambda>a b. compare_flows (fq_flow m') a b < 0) (fq_queued_tree m') \<and>
    (\<forall>f. f \<in> set (fq_queued_tree m') \<longleftrightarrow> (\<exists>fl. fq_flow m' f = Some fl \<and> fl_is_queued fl)) \<and>
    (\<forall>f q. fq_sending_flow m' = Some f \<and> q \<in> set (fq_queued_tree m') \<longrightarrow>
       fl_time (the (fq_flow m' f)) \<le> fl_time (the (fq_flow m' q))) \<and>
    (\<not> fq_freeing m' \<and> fq_queued_tree m' \<noteq> [] \<longrightarrow> fq_output_busy m' \<or> fq_schedule_job m')"
proof -
  obtain m' os where r: "run fq_step m es = Some (m', os)" and inv: "fq_inv m'"
    using fair.run_safe [OF fq_init_inv(1) [OF assms(1-4)] assms(5)] by blast
  have heap: "fq_heap_ok m'" using inv by (simp add: fq_inv_def)
  have "sorted_wrt (\<lambda>a b. compare_flows (fq_flow m') a b < 0) (fq_queued_tree m')"
    using fq_heapD(4) [OF heap] by (simp add: compare_flows_signs)
  moreover have "\<not> fq_freeing m' \<and> fq_queued_tree m' \<noteq> [] \<longrightarrow> fq_output_busy m' \<or> fq_schedule_job m'"
    using inv by (auto simp: fq_inv_def fq_mode_ok_def)
  ultimately show ?thesis
    using r fq_heapD(5) [OF heap] fq_sendingD(2) [OF inv] by (auto simp: vtime_def word_le_nat_alt)
qed

definition sample_queue :: fair_queue where
  "sample_queue = \<lparr>fq_mtu = 10, fq_use_cancel = False, fq_packet_weight = 1, fq_sending_flow = None,
     fq_sending_len = 0, fq_previous_flow = None, fq_queued_tree = [], fq_flows_list = [],
     fq_freeing = False, fq_schedule_job = False, fq_flow = (\<lambda>_. None), fq_output_busy = False\<rparr>"

definition sample_backlog :: "fq_event list" where
  "sample_backlog = [Flow_init 1, Flow_init 2, Flow_send 1 [7], Flow_send 2 [8, 9]]"

lemma sample_queue_init: "PacketPassFairQueue_Init 10 False 0 1 = Some (Some sample_queue)"
  by (simp add: fq_eval sample_queue_def)

theorem fair_queue_safe_witness:
  "\<exists>m os. run fq_step sample_queue (sample_backlog @ [Output_sent]) = Some (m, os) \<and>
     fq_queued_tree m = [2] \<and> fq_schedule_job m"
proof -
  have "admissible fq_contract fq_step sample_queue (sample_backlog @ [Output_sent])"
    by (simp add: fq_eval sample_queue_def sample_backlog_def)
  from fair_queue_safe [OF sample_queue_init _ _ _ this] show ?thesis
    by (auto simp: fq_eval sample_queue_def sample_backlog_def)
qed

text \<open>C5. The queue is fair: while two flows both stay backlogged, the one is never served more than
  the other plus one maximal packet, beyond what the difference of their times at the start makes up
  for. Service counts the bytes sent and the weight of each packet. This holds across the shift of all
  times that avoids their overflow.\<close>

theorem fair_queue_fair:
  assumes "PacketPassFairQueue_Init mtu has_cancel use_cancel packet_weight = Some (Some m)"
    and "0 \<le> mtu" "mtu \<le> INT_MAX" "packet_weight \<le> INT_MAX"
    and "admissible fq_contract fq_step m es" "run fq_step m es = Some (m1, os1)"
    and "admissible fq_contract fq_step m1 fs" "both_backlogged i j m1 fs" "i \<noteq> j"
  shows "int (service i m1 fs) - int (service j m1 fs) \<le> max 0 (mtu + packet_weight - lead m1 i j)"
proof -
  note i = fq_init_inv [OF assms(1-4)]
  have inv: "fq_inv m1" by (rule fair.run_inv [OF i(1) assms(5,6)])
  have lims: "fq_mtu m1 = mtu \<and> fq_packet_weight m1 = packet_weight"
    using assms(5,6) i
  proof (induction es arbitrary: m os1)
    case (Cons e es)
    then show ?case using fair.step_safe [of m e] fq_step_limits [of m e]
      by (fastforce split: option.splits)
  qed simp
  obtain m2 os2 where "run fq_step m1 fs = Some (m2, os2)" using fair.run_safe [OF inv assms(7)] by blast
  from lead_run [OF inv assms(7,8,9) this] lims show ?thesis by auto
qed

theorem fair_queue_fair_witness:
  "\<exists>m os. run fq_step sample_queue sample_backlog = Some (m, os) \<and>
     int (service 2 m [Output_sent, Flow_send 1 [7], Schedule_job, Output_sent]) -
     int (service 1 m [Output_sent, Flow_send 1 [7], Schedule_job, Output_sent]) \<le> 11"
proof -
  have ok: "admissible fq_contract fq_step sample_queue sample_backlog"
    by (simp add: fq_eval sample_queue_def sample_backlog_def)
  obtain m os where m: "run fq_step sample_queue sample_backlog = Some (m, os)"
    by (simp add: fq_eval sample_queue_def sample_backlog_def)
  then have "admissible fq_contract fq_step m [Output_sent, Flow_send 1 [7], Schedule_job, Output_sent]"
    "both_backlogged 2 1 m [Output_sent, Flow_send 1 [7], Schedule_job, Output_sent]" "lead m 2 1 = 0"
    by (auto simp: fq_eval sample_queue_def sample_backlog_def backlogged_def lead_def vtime_def)
  from fair_queue_fair [OF sample_queue_init _ _ _ ok m this(1,2)] this(3) m show ?thesis by auto
qed

end
