(* ===== verification/Socks_Proto.thy ===== *)
theory Socks_Proto
  imports BAddr Bsize
begin

text \<open>
  The SOCKS 5 messages of misc/socks_proto.h and the authentication methods of
  socksclient/BSocksClient.h.
\<close>

definition SOCKS_VERSION :: byte where "SOCKS_VERSION = 0x05"
definition SOCKS_METHOD_NO_AUTHENTICATION_REQUIRED :: int where "SOCKS_METHOD_NO_AUTHENTICATION_REQUIRED = 0x00"
definition SOCKS_METHOD_USERNAME_PASSWORD :: int where "SOCKS_METHOD_USERNAME_PASSWORD = 0x02"
definition SOCKS_CMD_CONNECT :: byte where "SOCKS_CMD_CONNECT = 0x01"
definition SOCKS_ATYP_IPV4 :: byte where "SOCKS_ATYP_IPV4 = 0x01"
definition SOCKS_ATYP_IPV6 :: byte where "SOCKS_ATYP_IPV6 = 0x04"
definition SOCKS_REP_SUCCEEDED :: byte where "SOCKS_REP_SUCCEEDED = 0x00"

lemmas socks_consts =
  SOCKS_VERSION_def SOCKS_METHOD_NO_AUTHENTICATION_REQUIRED_def SOCKS_METHOD_USERNAME_PASSWORD_def
  SOCKS_CMD_CONNECT_def SOCKS_ATYP_IPV4_def SOCKS_ATYP_IPV6_def SOCKS_REP_SUCCEEDED_def

text \<open>The packed structs, as their bytes.\<close>

definition socks_client_hello_header :: "byte \<Rightarrow> byte \<Rightarrow> byte list" where
  "socks_client_hello_header ver nmethods = [ver, nmethods]"

definition socks_request_header :: "byte \<Rightarrow> byte \<Rightarrow> byte \<Rightarrow> byte \<Rightarrow> byte list" where
  "socks_request_header ver cmd rsv atyp = [ver, cmd, rsv, atyp]"

definition socks_addr_ipv4 :: "u32 \<Rightarrow> u16 \<Rightarrow> byte list" where
  "socks_addr_ipv4 addr port = mem32 addr @ mem16 port"

definition socks_addr_ipv6 :: "byte list \<Rightarrow> u16 \<Rightarrow> byte list" where
  "socks_addr_ipv6 addr port = addr @ mem16 port"

abbreviation (input) sizeof_socks_client_hello_header :: nat where "sizeof_socks_client_hello_header \<equiv> 2"
abbreviation (input) sizeof_socks_client_hello_method :: nat where "sizeof_socks_client_hello_method \<equiv> 1"
abbreviation (input) sizeof_socks_server_hello :: nat where "sizeof_socks_server_hello \<equiv> 2"
abbreviation (input) sizeof_socks_request_header :: nat where "sizeof_socks_request_header \<equiv> 4"
abbreviation (input) sizeof_socks_reply_header :: nat where "sizeof_socks_reply_header \<equiv> 4"
abbreviation (input) sizeof_socks_addr_ipv4 :: nat where "sizeof_socks_addr_ipv4 \<equiv> 6"
abbreviation (input) sizeof_socks_addr_ipv6 :: nat where "sizeof_socks_addr_ipv6 \<equiv> 18"

text \<open>\<open>struct BSocksClient_auth_info\<close>: the union has one member, the user name and the password
  with their lengths, which is only read for the type of that method; \<open>BSocksClient_auth_none\<close>
  leaves it unset.\<close>

record auth_info =
  auth_type :: int
  username :: "byte list"
  password :: "byte list"

definition BSocksClient_auth_none :: auth_info where
  "BSocksClient_auth_none =
     \<lparr>auth_type = SOCKS_METHOD_NO_AUTHENTICATION_REQUIRED, username = [], password = []\<rparr>"

definition BSocksClient_auth_password :: "byte list \<Rightarrow> byte list \<Rightarrow> auth_info" where
  "BSocksClient_auth_password user pass =
     \<lparr>auth_type = SOCKS_METHOD_USERNAME_PASSWORD, username = user, password = pass\<rparr>"

end
