(* ===== verification/Socks_Client.thy ===== *)
theory Socks_Client
  imports Socks_Proto
begin

text \<open>
  The SOCKS 5 client, socksclient/BSocksClient.c. The state names what is set up (the connection
  and which I/O on it), the message buffer and the receive in progress. Events are the calls the
  connector, the connection and the control I/O make; what \<open>BConnection_Init\<close> and \<open>BRealloc\<close>
  answer are part of the event in which they are asked. \<open>BRealloc\<close> keeps the old bytes; the new
  ones are whatever the argument says.
\<close>

datatype socks_state =
  STATE_CONNECTING | STATE_SENDING_HELLO | STATE_SENT_HELLO | STATE_SENDING_PASSWORD
| STATE_SENT_PASSWORD | STATE_SENDING_REQUEST | STATE_SENT_REQUEST | STATE_RECEIVED_REPLY_HEADER | STATE_UP

datatype socks_io = No_io | Control_io | Up_io

datatype socks_event = BSOCKSCLIENT_EVENT_ERROR | BSOCKSCLIENT_EVENT_UP | BSOCKSCLIENT_EVENT_ERROR_CLOSED

record socks_client =
  sc_auth_info :: "auth_info list"
  sc_dest_addr :: baddr
  sc_state :: socks_state
  sc_buffer :: "byte list option"
  sc_recv_dest :: nat
  sc_recv_len :: int
  sc_recv_total :: int
  sc_connection :: bool
  sc_io :: socks_io
  sc_sending :: bool
  sc_receiving :: "(nat \<times> nat) option"
  sc_reported :: bool

datatype socks_action = Control_send "byte list" | Handler socks_event

type_synonym fresh_bytes = "nat \<Rightarrow> byte"

definition report_error :: "socks_client \<Rightarrow> socks_event \<Rightarrow> (socks_client \<times> socks_action list) option" where
  "report_error c error = do {
     assert_that (\<not> sc_reported c);
     Some (c\<lparr>sc_reported := True\<rparr>, [Handler error])
   }"

definition init_control_io :: "socks_client \<Rightarrow> socks_client option" where
  "init_control_io c = do {
     assert_that (sc_connection c \<and> sc_io c = No_io);
     Some (c\<lparr>sc_io := Control_io, sc_sending := False, sc_receiving := None\<rparr>)
   }"

definition free_control_io :: "socks_client \<Rightarrow> socks_client option" where
  "free_control_io c = do {
     assert_that (sc_io c = Control_io);
     Some (c\<lparr>sc_io := No_io, sc_sending := False, sc_receiving := None\<rparr>)
   }"

definition init_up_io :: "socks_client \<Rightarrow> socks_client option" where
  "init_up_io c = do {
     assert_that (sc_connection c \<and> sc_io c = No_io);
     Some (c\<lparr>sc_io := Up_io\<rparr>)
   }"

definition free_up_io :: "socks_client \<Rightarrow> socks_client option" where
  "free_up_io c = do {
     assert_that (sc_io c = Up_io);
     Some (c\<lparr>sc_io := No_io\<rparr>)
   }"

text \<open>\<open>BRealloc(o->buffer, n)\<close>, when it succeeds.\<close>

definition resized :: "byte list option \<Rightarrow> nat \<Rightarrow> fresh_bytes \<Rightarrow> byte list" where
  "resized old n g =
     (case old of None \<Rightarrow> map g [0 ..< n]
      | Some bs \<Rightarrow> map (\<lambda>i. if i < length bs then bs ! i else g i) [0 ..< n])"

definition reserve_buffer :: "socks_client \<Rightarrow> bsize \<Rightarrow> fresh_bytes option \<Rightarrow> socks_client option" where
  "reserve_buffer c sz alloc =
     (if is_overflow sz then None
      else case alloc of None \<Rightarrow> None
      | Some g \<Rightarrow> Some (c\<lparr>sc_buffer := Some (resized (sc_buffer c) (unat (bs_value sz)) g)\<rparr>))"

text \<open>\<open>StreamRecvInterface_Receiver_Recv\<close> and \<open>PacketPassInterface_Sender_Send\<close> on the control
  I/O.\<close>

definition do_receive :: "socks_client \<Rightarrow> socks_client option" where
  "do_receive c = do {
     assert_that (sc_recv_len c < sc_recv_total c);
     assert_that (sc_io c = Control_io);
     assert_that (sc_receiving c = None);
     Some (c\<lparr>sc_receiving := Some (sc_recv_dest c + nat (sc_recv_len c), nat (sc_recv_total c - sc_recv_len c))\<rparr>)
   }"

definition start_receive :: "socks_client \<Rightarrow> nat \<Rightarrow> int \<Rightarrow> socks_client option" where
  "start_receive c dest tot = do {
     assert_that (tot > 0);
     do_receive (c\<lparr>sc_recv_dest := dest, sc_recv_len := 0, sc_recv_total := tot\<rparr>)
   }"

definition control_send :: "socks_client \<Rightarrow> nat \<Rightarrow> (socks_client \<times> socks_action list) option" where
  "control_send c len = do {
     buffer \<leftarrow> sc_buffer c;
     assert_that (sc_io c = Control_io);
     assert_that (\<not> sc_sending c);
     assert_that (int len \<le> INT_MAX \<and> len \<le> length buffer);
     Some (c\<lparr>sc_sending := True\<rparr>, [Control_send (take len buffer)])
   }"

text \<open>Writing into the buffer.\<close>

definition put_buffer :: "socks_client \<Rightarrow> nat \<Rightarrow> byte list \<Rightarrow> socks_client option" where
  "put_buffer c off bs = do {
     buffer \<leftarrow> sc_buffer c;
     assert_that (off + length bs \<le> length buffer);
     Some (c\<lparr>sc_buffer := Some (blit off bs buffer)\<rparr>)
   }"

primrec write_methods :: "socks_client \<Rightarrow> nat \<Rightarrow> auth_info list \<Rightarrow> socks_client option" where
  "write_methods c i [] = Some c"
| "write_methods c i (ai # ais) = do {
     c \<leftarrow> put_buffer c (sizeof_socks_client_hello_header + i * sizeof_socks_client_hello_method)
            [hton8 (word_of_int (auth_type ai))];
     write_methods c (i + 1) ais
   }"

text \<open>The way out of \<open>connector_handler\<close> at \<open>fail1\<close>.\<close>

definition connector_fail1 :: "socks_client \<Rightarrow> (socks_client \<times> socks_action list) option" where
  "connector_fail1 c = do {
     c \<leftarrow> free_control_io c;
     report_error (c\<lparr>sc_connection := False\<rparr>) BSOCKSCLIENT_EVENT_ERROR
   }"

definition connector_handler ::
  "socks_client \<Rightarrow> bool \<Rightarrow> bool \<Rightarrow> fresh_bytes option \<Rightarrow> (socks_client \<times> socks_action list) option" where
  "connector_handler c is_error con_ok alloc = do {
     assert_that (sc_state c = STATE_CONNECTING);
     if is_error then report_error c BSOCKSCLIENT_EVENT_ERROR else
     if \<not> con_ok then report_error c BSOCKSCLIENT_EVENT_ERROR else do {
       c \<leftarrow> init_control_io (c\<lparr>sc_connection := True\<rparr>);
       let num_auth_info = length (sc_auth_info c);
       if num_auth_info = 0 \<or> num_auth_info > 255 then connector_fail1 c else do {
         let sz = bsize_add (bsize_fromsize (of_nat sizeof_socks_client_hello_header))
                    (bsize_mul (bsize_fromsize (of_nat num_auth_info))
                      (bsize_fromsize (of_nat sizeof_socks_client_hello_method)));
         case reserve_buffer c sz alloc of None \<Rightarrow> connector_fail1 c
         | Some c \<Rightarrow> do {
             c \<leftarrow> put_buffer c 0 (socks_client_hello_header (hton8 SOCKS_VERSION) (hton8 (of_nat num_auth_info)));
             c \<leftarrow> write_methods c 0 (sc_auth_info c);
             (c, os) \<leftarrow> control_send c (unat (bs_value sz));
             Some (c\<lparr>sc_state := STATE_SENDING_HELLO\<rparr>, os)
           }
       }
     }
   }"

text \<open>\<open>closed\<close>: the event is \<open>BCONNECTION_EVENT_RECVCLOSED\<close>.\<close>

definition connection_handler :: "socks_client \<Rightarrow> bool \<Rightarrow> (socks_client \<times> socks_action list) option" where
  "connection_handler c closed = do {
     assert_that (sc_state c \<noteq> STATE_CONNECTING);
     if sc_state c = STATE_UP \<and> closed
     then report_error c BSOCKSCLIENT_EVENT_ERROR_CLOSED
     else report_error c BSOCKSCLIENT_EVENT_ERROR
   }"

definition auth_finished ::
  "socks_client \<Rightarrow> fresh_bytes option \<Rightarrow> (socks_client \<times> socks_action list) option" where
  "auth_finished c alloc = do {
     let sz = bsize_fromsize (of_nat sizeof_socks_request_header);
     let sz = (case sc_dest_addr c of
                 BADDR_IPV4 _ _ \<Rightarrow> bsize_add sz (bsize_fromsize (of_nat sizeof_socks_addr_ipv4))
               | BADDR_IPV6 _ _ \<Rightarrow> bsize_add sz (bsize_fromsize (of_nat sizeof_socks_addr_ipv6))
               | BADDR_NONE \<Rightarrow> sz);
     case reserve_buffer c sz alloc of None \<Rightarrow> report_error c BSOCKSCLIENT_EVENT_ERROR
     | Some c \<Rightarrow> do {
         (atyp, addr) \<leftarrow> (case sc_dest_addr c of
             BADDR_IPV4 ip port \<Rightarrow> Some (hton8 SOCKS_ATYP_IPV4, socks_addr_ipv4 ip port)
           | BADDR_IPV6 ip port \<Rightarrow> Some (hton8 SOCKS_ATYP_IPV6, socks_addr_ipv6 ip port)
           | BADDR_NONE \<Rightarrow> None);
         c \<leftarrow> put_buffer c sizeof_socks_request_header addr;
         c \<leftarrow> put_buffer c 0 (socks_request_header (hton8 SOCKS_VERSION) (hton8 SOCKS_CMD_CONNECT) (hton8 0) atyp);
         (c, os) \<leftarrow> control_send c (unat (bs_value sz));
         Some (c\<lparr>sc_state := STATE_SENDING_REQUEST\<rparr>, os)
       }
   }"

text \<open>The cases of \<open>recv_handler_done\<close>, by the state.\<close>

definition send_password ::
  "socks_client \<Rightarrow> byte list \<Rightarrow> byte list \<Rightarrow> fresh_bytes option \<Rightarrow> (socks_client \<times> socks_action list) option" where
  "send_password c user pass alloc =
     (if length user = 0 \<or> length user > 255 \<or> length pass = 0 \<or> length pass > 255
      then report_error c BSOCKSCLIENT_EVENT_ERROR
      else do {
        let sz = bsize_fromsize (of_nat (1 + 1 + length user + 1 + length pass));
        case reserve_buffer c sz alloc of None \<Rightarrow> report_error c BSOCKSCLIENT_EVENT_ERROR
        | Some c \<Rightarrow> do {
            c \<leftarrow> put_buffer c 0 [1];
            c \<leftarrow> put_buffer c 1 [of_nat (length user)];
            c \<leftarrow> put_buffer c 2 user;
            c \<leftarrow> put_buffer c (2 + length user) [of_nat (length pass)];
            c \<leftarrow> put_buffer c (3 + length user) pass;
            (c, os) \<leftarrow> control_send c (unat (bs_value sz));
            Some (c\<lparr>sc_state := STATE_SENDING_PASSWORD\<rparr>, os)
          }
      })"

definition received_hello ::
  "socks_client \<Rightarrow> byte list \<Rightarrow> fresh_bytes option \<Rightarrow> (socks_client \<times> socks_action list) option" where
  "received_hello c buffer alloc = do {
     assert_that (sizeof_socks_server_hello \<le> length buffer);
     let ver = buffer ! 0;
     let method = buffer ! 1;
     if ntoh8 ver \<noteq> SOCKS_VERSION then report_error c BSOCKSCLIENT_EVENT_ERROR else
     case find (\<lambda>ai. auth_type ai = uint (ntoh8 method)) (sc_auth_info c) of
       None \<Rightarrow> report_error c BSOCKSCLIENT_EVENT_ERROR
     | Some ai \<Rightarrow>
         if auth_type ai = SOCKS_METHOD_NO_AUTHENTICATION_REQUIRED then auth_finished c alloc
         else if auth_type ai = SOCKS_METHOD_USERNAME_PASSWORD
         then send_password c (username ai) (password ai) alloc
         else None
   }"

definition received_reply_header ::
  "socks_client \<Rightarrow> byte list \<Rightarrow> (socks_client \<times> socks_action list) option" where
  "received_reply_header c buffer = do {
     assert_that (sizeof_socks_reply_header \<le> length buffer);
     let ver = buffer ! 0;
     let rep = buffer ! 1;
     let atyp = buffer ! 3;
     if ntoh8 ver \<noteq> SOCKS_VERSION then report_error c BSOCKSCLIENT_EVENT_ERROR else
     if ntoh8 rep \<noteq> SOCKS_REP_SUCCEEDED then report_error c BSOCKSCLIENT_EVENT_ERROR else
     let addr_len = (if ntoh8 atyp = SOCKS_ATYP_IPV4 then Some sizeof_socks_addr_ipv4
                     else if ntoh8 atyp = SOCKS_ATYP_IPV6 then Some sizeof_socks_addr_ipv6
                     else None) in
     case addr_len of None \<Rightarrow> report_error c BSOCKSCLIENT_EVENT_ERROR
     | Some n \<Rightarrow> do {
         c \<leftarrow> start_receive c sizeof_socks_reply_header (int n);
         Some (c\<lparr>sc_state := STATE_RECEIVED_REPLY_HEADER\<rparr>, [])
       }
   }"

definition received_password_reply ::
  "socks_client \<Rightarrow> byte list \<Rightarrow> fresh_bytes option \<Rightarrow> (socks_client \<times> socks_action list) option" where
  "received_password_reply c buffer alloc = do {
     assert_that (2 \<le> length buffer);
     if buffer ! 0 \<noteq> 1 then report_error c BSOCKSCLIENT_EVENT_ERROR else
     if buffer ! 1 \<noteq> 0 then report_error c BSOCKSCLIENT_EVENT_ERROR else
     auth_finished c alloc
   }"

definition received_reply_rest :: "socks_client \<Rightarrow> (socks_client \<times> socks_action list) option" where
  "received_reply_rest c = do {
     c \<leftarrow> free_control_io (c\<lparr>sc_buffer := None\<rparr>);
     c \<leftarrow> init_up_io c;
     Some (c\<lparr>sc_state := STATE_UP\<rparr>, [Handler BSOCKSCLIENT_EVENT_UP])
   }"

definition recv_handler_done ::
  "socks_client \<Rightarrow> int \<Rightarrow> fresh_bytes option \<Rightarrow> (socks_client \<times> socks_action list) option" where
  "recv_handler_done c data_len alloc = do {
     assert_that (data_len \<ge> 0);
     assert_that (data_len \<le> sc_recv_total c - sc_recv_len c);
     let c = c\<lparr>sc_recv_len := sc_recv_len c + data_len\<rparr>;
     if sc_recv_len c < sc_recv_total c then do { c \<leftarrow> do_receive c; Some (c, []) } else do {
       buffer \<leftarrow> sc_buffer c;
       case sc_state c of
         STATE_SENT_HELLO \<Rightarrow> received_hello c buffer alloc
       | STATE_SENT_REQUEST \<Rightarrow> received_reply_header c buffer
       | STATE_SENT_PASSWORD \<Rightarrow> received_password_reply c buffer alloc
       | STATE_RECEIVED_REPLY_HEADER \<Rightarrow> received_reply_rest c
       | _ \<Rightarrow> None
     }
   }"

definition send_handler_done ::
  "socks_client \<Rightarrow> fresh_bytes option \<Rightarrow> (socks_client \<times> socks_action list) option" where
  "send_handler_done c alloc = do {
     assert_that (sc_buffer c \<noteq> None);
     case sc_state c of
       STATE_SENDING_HELLO \<Rightarrow> do {
         let sz = bsize_fromsize (of_nat sizeof_socks_server_hello);
         case reserve_buffer c sz alloc of None \<Rightarrow> report_error c BSOCKSCLIENT_EVENT_ERROR
         | Some c \<Rightarrow> do {
             c \<leftarrow> start_receive c 0 (uint (bs_value sz));
             Some (c\<lparr>sc_state := STATE_SENT_HELLO\<rparr>, [])
           }
       }
     | STATE_SENDING_REQUEST \<Rightarrow> do {
         let sz = bsize_add (bsize_fromsize (of_nat sizeof_socks_reply_header))
                    (bsize_max (bsize_fromsize (of_nat sizeof_socks_addr_ipv4))
                      (bsize_fromsize (of_nat sizeof_socks_addr_ipv6)));
         case reserve_buffer c sz alloc of None \<Rightarrow> report_error c BSOCKSCLIENT_EVENT_ERROR
         | Some c \<Rightarrow> do {
             c \<leftarrow> start_receive c 0 (int sizeof_socks_reply_header);
             Some (c\<lparr>sc_state := STATE_SENT_REQUEST\<rparr>, [])
           }
       }
     | STATE_SENDING_PASSWORD \<Rightarrow> do {
         let sz = bsize_fromsize 2;
         case reserve_buffer c sz alloc of None \<Rightarrow> report_error c BSOCKSCLIENT_EVENT_ERROR
         | Some c \<Rightarrow> do {
             c \<leftarrow> start_receive c 0 (uint (bs_value sz));
             Some (c\<lparr>sc_state := STATE_SENT_PASSWORD\<rparr>, [])
           }
       }
     | _ \<Rightarrow> None
   }"

text \<open>\<open>connector_ok\<close> is the result of \<open>BConnector_Init\<close>.\<close>

definition BSocksClient_Init ::
  "baddr \<Rightarrow> auth_info list \<Rightarrow> baddr \<Rightarrow> bool \<Rightarrow> socks_client option option" where
  "BSocksClient_Init server_addr auth_info dest_addr connector_ok = do {
     assert_that (\<not> BAddr_IsInvalid server_addr);
     assert_that (baddr_type dest_addr = BADDR_TYPE_IPV4 \<or> baddr_type dest_addr = BADDR_TYPE_IPV6);
     assert_that (\<forall>ai \<in> set auth_info. auth_type ai = SOCKS_METHOD_NO_AUTHENTICATION_REQUIRED \<or>
                                  auth_type ai = SOCKS_METHOD_USERNAME_PASSWORD);
     if \<not> connector_ok then Some None else
     Some (Some \<lparr>sc_auth_info = auth_info, sc_dest_addr = dest_addr, sc_state = STATE_CONNECTING,
       sc_buffer = None, sc_recv_dest = 0, sc_recv_len = 0, sc_recv_total = 0,
       sc_connection = False, sc_io = No_io, sc_sending = False, sc_receiving = None, sc_reported = False\<rparr>)
   }"

definition BSocksClient_Free :: "socks_client \<Rightarrow> socks_client option" where
  "BSocksClient_Free c = do {
     c \<leftarrow> (if sc_state c \<noteq> STATE_CONNECTING then do {
             c \<leftarrow> (if sc_state c = STATE_UP then free_up_io c else free_control_io c);
             assert_that (sc_connection c);
             Some (c\<lparr>sc_connection := False\<rparr>)
           } else Some c);
     Some (c\<lparr>sc_buffer := None\<rparr>)
   }"

definition BSocksClient_GetSendInterface :: "socks_client \<Rightarrow> unit option" where
  "BSocksClient_GetSendInterface c = assert_that (sc_state c = STATE_UP)"

definition BSocksClient_GetRecvInterface :: "socks_client \<Rightarrow> unit option" where
  "BSocksClient_GetRecvInterface c = assert_that (sc_state c = STATE_UP)"

end
