(* ===== verification/Socks_Dialogue.thy ===== *)
theory Socks_Dialogue
  imports Socks_Client
begin

text \<open>
  The SOCKS client against the protocol: what a complete, successful handshake is, and that the
  client is up exactly when the server's bytes, in whatever pieces they arrive, are one.
\<close>

section \<open>The client between its neighbours\<close>

datatype socks_in =
  Connector_done bool bool "fresh_bytes option"
| Connection_event bool
| Control_recv "byte list" "fresh_bytes option"
| Control_sent "fresh_bytes option"

definition sc_step :: "socks_client \<Rightarrow> socks_in \<Rightarrow> (socks_client \<times> socks_action list) option" where
  "sc_step c e = (case e of
     Connector_done is_error con_ok alloc \<Rightarrow> connector_handler c is_error con_ok alloc
   | Connection_event closed \<Rightarrow> connection_handler c closed
   | Control_recv data alloc \<Rightarrow> do {
       (off, len) \<leftarrow> sc_receiving c;
       c \<leftarrow> put_buffer (c\<lparr>sc_receiving := None\<rparr>) off data;
       recv_handler_done c (int (length data)) alloc
     }
   | Control_sent alloc \<Rightarrow> send_handler_done (c\<lparr>sc_sending := False\<rparr>) alloc)"

text \<open>After an error has been reported the client is freed and gets no more events.\<close>

definition sc_contract :: "socks_client \<Rightarrow> socks_in \<Rightarrow> bool" where
  "sc_contract c e = (\<not> sc_reported c \<and> (case e of
     Connector_done is_error con_ok alloc \<Rightarrow> sc_state c = STATE_CONNECTING
   | Connection_event closed \<Rightarrow> sc_state c \<noteq> STATE_CONNECTING
   | Control_recv data alloc \<Rightarrow>
       (case sc_receiving c of None \<Rightarrow> False | Some (off, len) \<Rightarrow> 0 < length data \<and> length data \<le> len)
   | Control_sent alloc \<Rightarrow> sc_sending c))"

fun rx_of :: "socks_in \<Rightarrow> byte list" where
  "rx_of (Control_recv data alloc) = data"
| "rx_of _ = []"

fun tx_of :: "socks_action \<Rightarrow> byte list list" where
  "tx_of (Control_send bs) = [bs]"
| "tx_of _ = []"

text \<open>What the client received and sent in a run.\<close>

definition received :: "socks_in list \<Rightarrow> byte list" where
  "received es = concat (map rx_of es)"

definition sent :: "socks_action list \<Rightarrow> byte list list" where
  "sent os = concat (map tx_of os)"

text \<open>A failure of the environment: no connection, no memory, or the connection broke.\<close>

fun env_failure :: "socks_in \<Rightarrow> bool" where
  "env_failure (Connector_done is_error con_ok alloc) = (is_error \<or> \<not> con_ok \<or> alloc = None)"
| "env_failure (Connection_event closed) = True"
| "env_failure (Control_recv data alloc) = (alloc = None)"
| "env_failure (Control_sent alloc) = (alloc = None)"

section \<open>The handshake\<close>

definition hello_msg :: "auth_info list \<Rightarrow> byte list" where
  "hello_msg auths = [5, of_nat (length auths)] @ map (\<lambda>ai. word_of_int (auth_type ai)) auths"

definition password_msg :: "auth_info \<Rightarrow> byte list" where
  "password_msg ai = [1, of_nat (length (username ai))] @ username ai @
     [of_nat (length (password ai))] @ password ai"

fun request_msg :: "baddr \<Rightarrow> byte list" where
  "request_msg (BADDR_IPV4 ip port) = [5, 1, 0, 1] @ mem32 ip @ mem16 port"
| "request_msg (BADDR_IPV6 ip port) = [5, 1, 0, 4] @ ip @ mem16 port"
| "request_msg BADDR_NONE = []"

definition password_fits :: "auth_info \<Rightarrow> bool" where
  "password_fits ai \<longleftrightarrow> 0 < length (username ai) \<and> length (username ai) \<le> 255 \<and>
     0 < length (password ai) \<and> length (password ai) \<le> 255"

definition chosen :: "auth_info list \<Rightarrow> int \<Rightarrow> auth_info option" where
  "chosen auths t = find (\<lambda>ai. auth_type ai = t) auths"

text \<open>The server's and the client's part of a successful authentication, and of a successful
  handshake.\<close>

inductive auth_dialogue :: "auth_info list \<Rightarrow> byte list \<Rightarrow> byte list list \<Rightarrow> bool" for auths where
  no_auth: "chosen auths 0 \<noteq> None \<Longrightarrow> auth_dialogue auths [5, 0] [hello_msg auths]"
| password_auth: "chosen auths 2 = Some ai \<Longrightarrow> password_fits ai \<Longrightarrow>
     auth_dialogue auths [5, 2, 1, 0] [hello_msg auths, password_msg ai]"

inductive handshake :: "auth_info list \<Rightarrow> baddr \<Rightarrow> byte list \<Rightarrow> byte list list \<Rightarrow> bool" for auths dest where
  ipv4_reply: "auth_dialogue auths arx atx \<Longrightarrow> length addr = 6 \<Longrightarrow>
     handshake auths dest (arx @ [5, 0, rsv, 1] @ addr) (atx @ [request_msg dest])"
| ipv6_reply: "auth_dialogue auths arx atx \<Longrightarrow> length addr = 18 \<Longrightarrow>
     handshake auths dest (arx @ [5, 0, rsv, 4] @ addr) (atx @ [request_msg dest])"

text \<open>Bytes that no continuation makes a handshake.\<close>

definition hopeless :: "auth_info list \<Rightarrow> baddr \<Rightarrow> byte list \<Rightarrow> bool" where
  "hopeless auths dest rx \<longleftrightarrow> (\<forall>ys tx. \<not> handshake auths dest (rx @ ys) tx)"

section \<open>Building the messages\<close>

lemma blit_next:
  "off + length xs + length ys \<le> length arr \<Longrightarrow>
   blit (off + length xs) ys (blit off xs arr) = blit off (xs @ ys) arr"
  by (simp add: blit_def ac_simps)

lemma blit_all: "length bs = length arr \<Longrightarrow> blit 0 bs arr = bs"
  by (simp add: blit_def)

lemma length_resized [simp]: "length (resized old n g) = n"
  by (simp add: resized_def split: option.split)

lemma write_methods_ok:
  assumes "sc_buffer c = Some b" "2 + i + length ais \<le> length b"
  shows "write_methods c i ais =
    Some (c\<lparr>sc_buffer := Some (blit (2 + i) (map (\<lambda>ai. word_of_int (auth_type ai)) ais) b)\<rparr>)"
  using assms
proof (induction ais arbitrary: c i b)
  case Nil
  then show ?case by (simp add: blit_def)
next
  case (Cons ai ais)
  then show ?case
    using blit_next [of "2 + i" "[word_of_int (auth_type ai)]" "map (\<lambda>ai. word_of_int (auth_type ai)) ais" b]
    by (simp add: put_buffer_def hton8_def)
qed

lemma reserve_ok:
  assumes "bs_denotes sz n" "n < 2 ^ 64"
  shows "reserve_buffer c sz (Some g) = Some (c\<lparr>sc_buffer := Some (resized (sc_buffer c) n g)\<rparr>)"
    "unat (bs_value sz) = n"
  using assms by (simp_all add: reserve_buffer_def bs_denotes_def)

lemma denotes_const: "n < 2 ^ 64 \<Longrightarrow> bs_denotes (bsize_fromsize (of_nat n)) n"
  by (simp add: bs_denotes_def bsize_fromsize_def unat_of_nat_small)

lemma reserve_None: "reserve_buffer c sz None = None"
  by (simp add: reserve_buffer_def)

lemmas size_const = denotes_const [of 2] denotes_const [of 4] denotes_const [of 6] denotes_const [of 18]

lemma hello_sent:
  assumes "sc_state c = STATE_CONNECTING" "sc_io c = No_io"
    and "0 < length (sc_auth_info c)" "length (sc_auth_info c) \<le> 255"
  shows "connector_handler c False True (Some g) =
    Some (c\<lparr>sc_connection := True, sc_io := Control_io, sc_sending := True, sc_receiving := None,
        sc_buffer := Some (hello_msg (sc_auth_info c)), sc_state := STATE_SENDING_HELLO\<rparr>,
      [Control_send (hello_msg (sc_auth_info c))])"
proof -
  let ?n = "length (sc_auth_info c)"
  let ?sz = "bsize_add (bsize_fromsize (of_nat 2)) (bsize_mul (bsize_fromsize (of_nat ?n)) (bsize_fromsize (of_nat 1)))"
  have "bs_denotes ?sz (2 + ?n * 1)"
    using assms(3,4) by (intro bs_denotes_add bs_denotes_mul denotes_const) simp_all
  then have sz: "reserve_buffer x ?sz (Some g) = Some (x\<lparr>sc_buffer := Some (resized (sc_buffer x) (2 + ?n) g)\<rparr>)"
    "unat (bs_value ?sz) = 2 + ?n" for x
    using reserve_ok(1) [of ?sz "2 + ?n" x g] reserve_ok(2) [of ?sz "2 + ?n"] assms(4) by simp_all
  let ?m = "map (\<lambda>ai. word_of_int (auth_type ai)) (sc_auth_info c) :: byte list"
  have "blit 2 ?m (blit 0 [5, of_nat ?n] (resized (sc_buffer c) (2 + ?n) g)) = hello_msg (sc_auth_info c)"
    using blit_next [of 0 "[5, of_nat ?n]" ?m "resized (sc_buffer c) (2 + ?n) g"]
      blit_all [of "[5, of_nat ?n] @ ?m" "resized (sc_buffer c) (2 + ?n) g"]
    by (simp add: hello_msg_def numeral_2_eq_2)
  moreover have "length (hello_msg (sc_auth_info c)) = 2 + ?n" by (simp add: hello_msg_def)
  ultimately show ?thesis
    using assms sz
    by (simp add: connector_handler_def init_control_io_def put_buffer_def write_methods_ok control_send_def
        socks_client_hello_header_def hton8_def SOCKS_VERSION_def Let_def)
qed

lemma request_sent:
  assumes "addr_ok (sc_dest_addr c)" "sc_io c = Control_io" "\<not> sc_sending c"
  shows "auth_finished c (Some g) =
    Some (c\<lparr>sc_buffer := Some (request_msg (sc_dest_addr c)), sc_sending := True, sc_state := STATE_SENDING_REQUEST\<rparr>,
      [Control_send (request_msg (sc_dest_addr c))])"
proof (cases "sc_dest_addr c")
  case (BADDR_IPV4 ip port)
  let ?sz = "bsize_add (bsize_fromsize (of_nat 4)) (bsize_fromsize (of_nat 6))"
  have "bs_denotes ?sz (4 + 6)" by (intro bs_denotes_add denotes_const) simp_all
  then have sz: "reserve_buffer c ?sz (Some g) = Some (c\<lparr>sc_buffer := Some (resized (sc_buffer c) 10 g)\<rparr>)"
    "unat (bs_value ?sz) = 10"
    using reserve_ok(1) [of ?sz 10 c g] reserve_ok(2) [of ?sz 10] by simp_all
  have "length (mem32 ip @ mem16 port) = 6" by (simp add: m32.length_enc m16.length_enc)
  then have "blit 0 [5, 1, 0, 1] (blit 4 (mem32 ip @ mem16 port) (resized (sc_buffer c) 10 g)) =
      [5, 1, 0, 1] @ mem32 ip @ mem16 port"
    by (simp add: blit_def)
  then show ?thesis
    using BADDR_IPV4 assms sz
    by (simp add: auth_finished_def put_buffer_def control_send_def socks_addr_ipv4_def socks_request_header_def
        hton8_def socks_consts Let_def m32.length_enc m16.length_enc)
next
  case (BADDR_IPV6 ip port)
  let ?sz = "bsize_add (bsize_fromsize (of_nat 4)) (bsize_fromsize (of_nat 18))"
  have "bs_denotes ?sz (4 + 18)" by (intro bs_denotes_add denotes_const) simp_all
  then have sz: "reserve_buffer c ?sz (Some g) = Some (c\<lparr>sc_buffer := Some (resized (sc_buffer c) 22 g)\<rparr>)"
    "unat (bs_value ?sz) = 22"
    using reserve_ok(1) [of ?sz 22 c g] reserve_ok(2) [of ?sz 22] by simp_all
  have ip: "length ip = 16" using assms(1) BADDR_IPV6 by simp
  then have "length (ip @ mem16 port) = 18" by (simp add: m16.length_enc)
  then have "blit 0 [5, 1, 0, 4] (blit 4 (ip @ mem16 port) (resized (sc_buffer c) 22 g)) =
      [5, 1, 0, 4] @ ip @ mem16 port"
    by (simp add: blit_def)
  then show ?thesis
    using BADDR_IPV6 assms sz ip
    by (simp add: auth_finished_def put_buffer_def control_send_def socks_addr_ipv6_def socks_request_header_def
        hton8_def socks_consts Let_def m16.length_enc)
qed (use assms(1) in simp)

lemma password_sent:
  assumes "password_fits ai" "sc_io c = Control_io" "\<not> sc_sending c"
  shows "send_password c (username ai) (password ai) (Some g) =
    Some (c\<lparr>sc_buffer := Some (password_msg ai), sc_sending := True, sc_state := STATE_SENDING_PASSWORD\<rparr>,
      [Control_send (password_msg ai)])"
proof -
  let ?u = "username ai" and ?p = "password ai"
  let ?n = "1 + 1 + length ?u + 1 + length ?p"
  let ?sz = "bsize_fromsize (of_nat ?n)"
  let ?b = "resized (sc_buffer c) ?n g"
  have n: "?n < 2 ^ 64" using assms(1) by (simp add: password_fits_def)
  have sz: "reserve_buffer c ?sz (Some g) = Some (c\<lparr>sc_buffer := Some ?b\<rparr>)" "unat (bs_value ?sz) = ?n"
    using reserve_ok(1) [OF denotes_const [OF n] n, of c g] reserve_ok(2) [OF denotes_const [OF n] n] by simp_all
  have "blit (3 + length ?u) ?p (blit (2 + length ?u) [of_nat (length ?p)] (blit 2 ?u
      (blit 1 [of_nat (length ?u)] (blit 0 [1] ?b)))) = blit 0 (password_msg ai) ?b"
    using blit_next [of 0 "[1]" "[of_nat (length ?u)]" ?b] blit_next [of 0 "[1, of_nat (length ?u)]" ?u ?b]
      blit_next [of 0 "[1, of_nat (length ?u)] @ ?u" "[of_nat (length ?p)]" ?b]
      blit_next [of 0 "[1, of_nat (length ?u)] @ ?u @ [of_nat (length ?p)]" ?p ?b]
    by (simp add: password_msg_def numeral_2_eq_2 numeral_3_eq_3)
  also have "\<dots> = password_msg ai" by (rule blit_all) (simp add: password_msg_def)
  finally show ?thesis
    using assms sz
    by (simp add: send_password_def put_buffer_def control_send_def password_fits_def password_msg_def Let_def)
qed

section \<open>Receiving a message in pieces\<close>

text \<open>\<open>part\<close> of a message of \<open>tot\<close> bytes has arrived at \<open>dest\<close> and the rest is being received.\<close>

definition recv_ok :: "socks_client \<Rightarrow> nat \<Rightarrow> nat \<Rightarrow> byte list \<Rightarrow> byte list \<Rightarrow> bool" where
  "recv_ok c dest tot part b \<longleftrightarrow> sc_buffer c = Some b \<and> sc_recv_dest c = dest \<and>
     sc_recv_total c = int tot \<and> sc_recv_len c = int (length part) \<and> length part < tot \<and>
     dest + tot \<le> length b \<and> seg dest (length part) b = part \<and>
     sc_receiving c = Some (dest + length part, tot - length part) \<and>
     sc_io c = Control_io \<and> sc_connection c \<and> \<not> sc_sending c"

definition filled :: "socks_client \<Rightarrow> byte list \<Rightarrow> nat \<Rightarrow> (nat \<times> nat) option \<Rightarrow> socks_client" where
  "filled c b n r = c\<lparr>sc_receiving := r, sc_buffer := Some b, sc_recv_len := int n\<rparr>"

lemma seg_filled:
  assumes "seg dest (length part) b = part" "dest + length part + length data \<le> length b"
  shows "seg dest (length part + length data) (blit (dest + length part) data b) = part @ data"
  using assms seg_join [of "dest + length part" dest "length part"
      "blit (dest + length part) data b" "length data"]
    seg_blit_before [of dest "length part" "dest + length part" data b]
    seg_blit_same [of "dest + length part" data b]
  by simp

lemma recv_more:
  assumes c: "recv_ok c dest tot part b" and data: "0 < length data" "length part + length data < tot"
  defines "b' \<equiv> blit (dest + length part) data b"
  defines "c' \<equiv> filled c b' (length (part @ data)) (Some (dest + length (part @ data), tot - length (part @ data)))"
  shows "sc_step c (Control_recv data alloc) = Some (c', [])" "recv_ok c' dest tot (part @ data) b'"
    "length b' = length b"
proof -
  have b: "dest + length part + length data \<le> length b" using c data(2) by (simp add: recv_ok_def)
  show "length b' = length b" using b by (simp add: b'_def)
  then show "recv_ok c' dest tot (part @ data) b'"
    using c data seg_filled [of dest part b data] b by (simp add: recv_ok_def c'_def filled_def b'_def)
  show "sc_step c (Control_recv data alloc) = Some (c', [])"
    using c data b
    by (simp add: recv_ok_def sc_step_def put_buffer_def recv_handler_done_def do_receive_def Let_def
        c'_def filled_def b'_def nat_add_distrib bind_assert_True of_nat_diff [symmetric] del: of_nat_diff)
qed

lemma recv_full:
  assumes c: "recv_ok c dest tot part b" and data: "0 < length data" "length part + length data = tot"
  defines "b' \<equiv> blit (dest + length part) data b"
  defines "c' \<equiv> filled c b' tot None"
  shows "sc_step c (Control_recv data alloc) =
      (case sc_state c of
         STATE_SENT_HELLO \<Rightarrow> received_hello c' b' alloc
       | STATE_SENT_REQUEST \<Rightarrow> received_reply_header c' b'
       | STATE_SENT_PASSWORD \<Rightarrow> received_password_reply c' b' alloc
       | STATE_RECEIVED_REPLY_HEADER \<Rightarrow> received_reply_rest c'
       | _ \<Rightarrow> None)"
    "seg dest tot b' = part @ data" "length b' = length b"
proof -
  have b: "dest + length part + length data \<le> length b" using c data(2) by (simp add: recv_ok_def)
  show "length b' = length b" using b by (simp add: b'_def)
  show "seg dest tot b' = part @ data"
    using c b seg_filled [of dest part b data] data(2) by (simp add: recv_ok_def b'_def)
  show "sc_step c (Control_recv data alloc) =
      (case sc_state c of
         STATE_SENT_HELLO \<Rightarrow> received_hello c' b' alloc
       | STATE_SENT_REQUEST \<Rightarrow> received_reply_header c' b'
       | STATE_SENT_PASSWORD \<Rightarrow> received_password_reply c' b' alloc
       | STATE_RECEIVED_REPLY_HEADER \<Rightarrow> received_reply_rest c'
       | _ \<Rightarrow> None)"
    using c data b
    by (simp add: recv_ok_def sc_step_def put_buffer_def recv_handler_done_def Let_def
        c'_def filled_def b'_def bind_assert_True split: socks_state.split) auto
qed

lemma start_receive_ok:
  assumes "sc_io c = Control_io" "sc_connection c" "\<not> sc_sending c" "sc_receiving c = None" "sc_buffer c = Some b"
    and "0 < tot" "dest + tot \<le> length b"
  defines "c' \<equiv> c\<lparr>sc_recv_dest := dest, sc_recv_len := 0, sc_recv_total := int tot, sc_receiving := Some (dest, tot)\<rparr>"
  shows "start_receive c dest (int tot) = Some c'" "recv_ok (c'\<lparr>sc_state := st\<rparr>) dest tot [] b"
  using assms by (simp_all add: start_receive_def do_receive_def recv_ok_def seg_def)

section \<open>Handshakes and their beginnings\<close>

lemma auth_dialogue_cases:
  "auth_dialogue auths arx atx \<Longrightarrow>
   arx = [5, 0] \<and> chosen auths 0 \<noteq> None \<or>
   arx = [5, 2, 1, 0] \<and> (\<exists>ai. chosen auths 2 = Some ai \<and> password_fits ai)"
  by (auto elim: auth_dialogue.cases)

lemma handshake_bytes:
  "handshake auths dest zs tx \<Longrightarrow>
   \<exists>arx atx r t addr. auth_dialogue auths arx atx \<and> zs = arx @ [5, 0, r, t] @ addr \<and> (t = 1 \<or> t = 4)"
  by (erule handshake.cases) blast+

lemma hopeless_hello:
  assumes "v \<noteq> 5 \<or> m \<noteq> 0 \<and> m \<noteq> 2 \<or> m = 0 \<and> chosen auths 0 = None \<or>
    m = 2 \<and> (\<forall>ai. chosen auths 2 = Some ai \<longrightarrow> \<not> password_fits ai)"
  shows "hopeless auths dest [v, m]"
  unfolding hopeless_def
proof (intro allI notI)
  fix ys tx assume "handshake auths dest ([v, m] @ ys) tx"
  then obtain arx atx r t addr where "auth_dialogue auths arx atx" "[v, m] @ ys = arx @ [5, 0, r, t] @ addr"
    using handshake_bytes by blast
  then show False using auth_dialogue_cases [of auths arx atx] assms by fastforce
qed

lemma hopeless_password:
  assumes "a \<noteq> 1 \<or> b \<noteq> 0" shows "hopeless auths dest [5, 2, a, b]"
  unfolding hopeless_def
proof (intro allI notI)
  fix ys tx assume "handshake auths dest ([5, 2, a, b] @ ys) tx"
  then obtain arx atx r t addr where "auth_dialogue auths arx atx" "[5, 2, a, b] @ ys = arx @ [5, 0, r, t] @ addr"
    using handshake_bytes by blast
  then show False using auth_dialogue_cases [of auths arx atx] assms by auto
qed

lemma hopeless_reply:
  assumes "auth_dialogue auths arx atx" "v \<noteq> 5 \<or> r \<noteq> 0 \<or> t \<noteq> 1 \<and> t \<noteq> 4"
  shows "hopeless auths dest (arx @ [v, r, x, t])"
  unfolding hopeless_def
proof (intro allI notI)
  fix ys tx assume "handshake auths dest ((arx @ [v, r, x, t]) @ ys) tx"
  then obtain arx' atx' r' t' addr where "auth_dialogue auths arx' atx'" "t' = 1 \<or> t' = 4"
    "(arx @ [v, r, x, t]) @ ys = arx' @ [5, 0, r', t'] @ addr"
    using handshake_bytes by blast
  then show False
    using auth_dialogue_cases [OF assms(1)] auth_dialogue_cases [of auths arx' atx'] assms(2) by auto
qed

section \<open>Invariant\<close>

definition ctl_sending :: "socks_client \<Rightarrow> bool" where
  "ctl_sending c \<longleftrightarrow> sc_io c = Control_io \<and> sc_connection c \<and> sc_sending c \<and> sc_receiving c = None \<and>
     sc_buffer c \<noteq> None"

definition res_ok :: "socks_client \<Rightarrow> bool" where
  "res_ok c \<longleftrightarrow> sc_connection c = (sc_state c \<noteq> STATE_CONNECTING) \<and>
     sc_io c = (case sc_state c of STATE_CONNECTING \<Rightarrow> No_io | STATE_UP \<Rightarrow> Up_io | _ \<Rightarrow> Control_io)"

text \<open>What the client is doing, and what it has received and sent, by its state.\<close>

definition phase :: "auth_info list \<Rightarrow> baddr \<Rightarrow> socks_client \<Rightarrow> byte list \<Rightarrow> byte list list \<Rightarrow> bool" where
  "phase auths dest c rx tx = (case sc_state c of
     STATE_CONNECTING \<Rightarrow> \<not> sc_sending c \<and> sc_receiving c = None \<and> rx = [] \<and> tx = []
   | STATE_SENDING_HELLO \<Rightarrow> ctl_sending c \<and> rx = [] \<and> tx = [hello_msg auths]
   | STATE_SENT_HELLO \<Rightarrow> (\<exists>b. recv_ok c 0 2 rx b) \<and> tx = [hello_msg auths]
   | STATE_SENDING_PASSWORD \<Rightarrow> ctl_sending c \<and> rx = [5, 2] \<and>
       (\<exists>ai. chosen auths 2 = Some ai \<and> password_fits ai \<and> tx = [hello_msg auths, password_msg ai])
   | STATE_SENT_PASSWORD \<Rightarrow>
       (\<exists>part b ai. recv_ok c 0 2 part b \<and> rx = [5, 2] @ part \<and>
          chosen auths 2 = Some ai \<and> password_fits ai \<and> tx = [hello_msg auths, password_msg ai])
   | STATE_SENDING_REQUEST \<Rightarrow> ctl_sending c \<and> (\<exists>atx. auth_dialogue auths rx atx \<and> tx = atx @ [request_msg dest])
   | STATE_SENT_REQUEST \<Rightarrow>
       (\<exists>part b arx atx. recv_ok c 0 4 part b \<and> length b = 22 \<and> auth_dialogue auths arx atx \<and>
          rx = arx @ part \<and> tx = atx @ [request_msg dest])
   | STATE_RECEIVED_REPLY_HEADER \<Rightarrow>
       (\<exists>part b arx atx r t n. recv_ok c 4 n part b \<and> (t = 1 \<and> n = 6 \<or> t = 4 \<and> n = 18) \<and>
          auth_dialogue auths arx atx \<and> rx = arx @ [5, 0, r, t] @ part \<and> tx = atx @ [request_msg dest])
   | STATE_UP \<Rightarrow> \<not> sc_sending c \<and> sc_receiving c = None \<and> handshake auths dest rx tx)"

definition methods_ok :: "auth_info list \<Rightarrow> bool" where
  "methods_ok auths \<longleftrightarrow> 0 < length auths \<and> length auths \<le> 255"

definition sc_inv :: "auth_info list \<Rightarrow> baddr \<Rightarrow> socks_client \<Rightarrow> socks_in list \<Rightarrow> socks_action list \<Rightarrow> bool" where
  "sc_inv auths dest c es os \<longleftrightarrow>
     sc_auth_info c = auths \<and> sc_dest_addr c = dest \<and> res_ok c \<and>
     (Handler BSOCKSCLIENT_EVENT_UP \<in> set os) = (sc_state c = STATE_UP) \<and>
     (sc_state c = STATE_UP \<longrightarrow> handshake auths dest (received es) (sent os)) \<and>
     (if sc_reported c
      then (\<exists>e \<in> set es. env_failure e) \<or> hopeless auths dest (received es) \<or> \<not> methods_ok auths
      else phase auths dest c (received es) (sent os))"

lemma received_snoc [simp]: "received (es @ [e]) = received es @ rx_of e"
  by (simp add: received_def)

lemma sent_append [simp]: "sent (os @ os') = sent os @ sent os'"
  by (simp add: sent_def)

lemma sent_simps [simp]: "sent [] = []" "sent (Control_send bs # os) = bs # sent os" "sent (Handler ev # os) = sent os"
  by (simp_all add: sent_def)

text \<open>Reporting an error ends the run with the state and the resources as they are.\<close>

lemma error_inv:
  assumes "sc_auth_info c = auths" "sc_dest_addr c = dest" "res_ok c" "\<not> sc_reported c"
    and "(Handler BSOCKSCLIENT_EVENT_UP \<in> set os) = (sc_state c = STATE_UP)"
    and "sc_state c = STATE_UP \<longrightarrow> handshake auths dest (received (es @ [e])) (sent os)"
    and "env_failure e \<or> hopeless auths dest (received (es @ [e])) \<or> \<not> methods_ok auths"
    and "ev \<noteq> BSOCKSCLIENT_EVENT_UP"
  shows "\<exists>c' os'. report_error c ev = Some (c', os') \<and> sc_inv auths dest c' (es @ [e]) (os @ os')"
  using assms by (auto simp: report_error_def sc_inv_def res_ok_def)

definition valid_args :: "auth_info list \<Rightarrow> baddr \<Rightarrow> bool" where
  "valid_args auths dest \<longleftrightarrow> addr_ok dest \<and> (\<forall>ai \<in> set auths. auth_type ai = 0 \<or> auth_type ai = 2)"

lemma connector_traced:
  assumes inv: "sc_inv auths dest c es os" and ok: "sc_contract c (Connector_done is_error con_ok alloc)"
  shows "\<exists>c' os'. sc_step c (Connector_done is_error con_ok alloc) = Some (c', os') \<and>
    sc_inv auths dest c' (es @ [Connector_done is_error con_ok alloc]) (os @ os')"
proof -
  let ?e = "Connector_done is_error con_ok alloc"
  have c: "sc_state c = STATE_CONNECTING" "\<not> sc_reported c" using ok by (simp_all add: sc_contract_def)
  have p: "sc_io c = No_io" "\<not> sc_connection c" "\<not> sc_sending c" "sc_receiving c = None" "received es = []" "sent os = []"
    using inv c by (simp_all add: sc_inv_def phase_def res_ok_def)
  have err: "\<exists>c' os'. report_error c BSOCKSCLIENT_EVENT_ERROR = Some (c', os') \<and> sc_inv auths dest c' (es @ [?e]) (os @ os')"
    if "env_failure ?e \<or> \<not> methods_ok auths"
    using inv c that by (intro error_inv) (auto simp: sc_inv_def)
  have fail1: "connector_fail1 (c\<lparr>sc_connection := True, sc_io := Control_io, sc_sending := False, sc_receiving := None\<rparr>) =
      report_error (c\<lparr>sc_io := No_io, sc_sending := False, sc_receiving := None, sc_connection := False\<rparr>) BSOCKSCLIENT_EVENT_ERROR"
    by (simp add: connector_fail1_def free_control_io_def)
  have same: "c\<lparr>sc_io := No_io, sc_sending := False, sc_receiving := None, sc_connection := False\<rparr> = c"
    using p by (cases c) simp
  show ?thesis
  proof (cases "is_error \<or> \<not> con_ok")
    case True
    then show ?thesis using c err by (auto simp: sc_step_def connector_handler_def)
  next
    case False
    show ?thesis
    proof (cases "methods_ok auths \<and> alloc \<noteq> None")
      case True
      then obtain g where g: "alloc = Some g" by blast
      have auths: "sc_auth_info c = auths" using inv by (simp add: sc_inv_def)
      let ?c = "c\<lparr>sc_connection := True, sc_io := Control_io, sc_sending := True, sc_receiving := None,
        sc_buffer := Some (hello_msg auths), sc_state := STATE_SENDING_HELLO\<rparr>"
      have "sc_step c ?e = Some (?c, [Control_send (hello_msg auths)])"
        using hello_sent [of c g] c p True False g auths by (simp add: sc_step_def methods_ok_def)
      moreover have "sc_inv auths dest ?c (es @ [?e]) (os @ [Control_send (hello_msg auths)])"
        using inv c p by (simp add: sc_inv_def phase_def res_ok_def ctl_sending_def)
      ultimately show ?thesis by blast
    next
      case fail: False
      then have "sc_step c ?e = report_error c BSOCKSCLIENT_EVENT_ERROR"
        using c p inv \<open>\<not> (is_error \<or> \<not> con_ok)\<close> fail1 same
        by (auto simp: sc_step_def connector_handler_def init_control_io_def methods_ok_def Let_def
            reserve_None sc_inv_def)
      then show ?thesis using err fail by auto
    qed
  qed
qed

text \<open>A message has been sent: its answer is awaited, in a buffer of \<open>n\<close> bytes.\<close>

lemma await_traced:
  assumes inv: "sc_inv auths dest c es os" "\<not> sc_reported c" and ctl: "ctl_sending c"
    and sz: "bs_denotes sz n" "n < 2 ^ 64" "0 < tot" "tot \<le> n"
    and st: "sc_state c \<noteq> STATE_UP" "sc_state c \<noteq> STATE_CONNECTING" "st \<noteq> STATE_UP" "st \<noteq> STATE_CONNECTING"
    and e: "rx_of e = []" "alloc = None \<Longrightarrow> env_failure e"
    and step: "sc_step c e = (case reserve_buffer (c\<lparr>sc_sending := False\<rparr>) sz alloc of
        None \<Rightarrow> report_error (c\<lparr>sc_sending := False\<rparr>) BSOCKSCLIENT_EVENT_ERROR
      | Some c \<Rightarrow> do { c \<leftarrow> start_receive c 0 (int tot); Some (c\<lparr>sc_state := st\<rparr>, []) })"
    and phase: "\<And>c' b. recv_ok c' 0 tot [] b \<Longrightarrow> length b = n \<Longrightarrow> sc_state c' = st \<Longrightarrow>
      phase auths dest c' (received es) (sent os)"
  shows "\<exists>c' os'. sc_step c e = Some (c', os') \<and> sc_inv auths dest c' (es @ [e]) (os @ os')"
proof (cases alloc)
  case None
  have "\<exists>c' os'. report_error (c\<lparr>sc_sending := False\<rparr>) BSOCKSCLIENT_EVENT_ERROR = Some (c', os') \<and>
      sc_inv auths dest c' (es @ [e]) (os @ os')"
    using inv None st e by (intro error_inv) (auto simp: sc_inv_def res_ok_def)
  then show ?thesis using step None by (simp add: reserve_None)
next
  case (Some g)
  let ?b = "resized (sc_buffer c) n g"
  let ?c1 = "c\<lparr>sc_sending := False, sc_buffer := Some ?b\<rparr>"
  let ?c2 = "?c1\<lparr>sc_recv_dest := 0, sc_recv_len := 0, sc_recv_total := int tot, sc_receiving := Some (0, tot)\<rparr>"
  have c2: "start_receive ?c1 0 (int tot) = Some ?c2" "recv_ok (?c2\<lparr>sc_state := st\<rparr>) 0 tot [] ?b"
    using start_receive_ok(1) [of ?c1 ?b tot 0] start_receive_ok(2) [of ?c1 ?b tot 0 st] ctl sz(3,4)
    by (simp_all add: ctl_sending_def)
  have "sc_step c e = Some (?c2\<lparr>sc_state := st\<rparr>, [])"
    using step Some reserve_ok(1) [OF sz(1,2), of "c\<lparr>sc_sending := False\<rparr>" g] c2(1) by simp
  moreover have "phase auths dest (?c2\<lparr>sc_state := st\<rparr>) (received es) (sent os)"
    using phase [OF c2(2)] by simp
  then have "sc_inv auths dest (?c2\<lparr>sc_state := st\<rparr>) (es @ [e]) (os @ [])"
    using inv st e(1) ctl by (auto simp: sc_inv_def res_ok_def ctl_sending_def split: socks_state.split)
  ultimately show ?thesis by blast
qed

lemma sent_traced:
  assumes inv: "sc_inv auths dest c es os" and ok: "sc_contract c (Control_sent alloc)"
  shows "\<exists>c' os'. sc_step c (Control_sent alloc) = Some (c', os') \<and>
    sc_inv auths dest c' (es @ [Control_sent alloc]) (os @ os')"
proof -
  have s: "sc_sending c" "\<not> sc_reported c" using ok by (simp_all add: sc_contract_def)
  have ph: "phase auths dest c (received es) (sent os)" using inv s by (simp add: sc_inv_def)
  have ctl: "ctl_sending c" and st: "sc_state c = STATE_SENDING_HELLO \<or>
      sc_state c = STATE_SENDING_PASSWORD \<or> sc_state c = STATE_SENDING_REQUEST"
    using ph s by (auto simp: phase_def recv_ok_def split: socks_state.splits)
  have buf: "sc_buffer c \<noteq> None" using ctl by (simp add: ctl_sending_def)
  have two: "bs_denotes (bsize_fromsize 2) 2" using denotes_const [of 2] by simp
  have rep: "bs_denotes (bsize_add (bsize_fromsize 4) (bsize_max (bsize_fromsize 6) (bsize_fromsize 18))) 22"
    using bs_denotes_add [OF denotes_const [of 4] bs_denotes_max [OF denotes_const [of 6] denotes_const [of 18]]]
    by simp
  note step = sc_step_def send_handler_done_def Let_def
  from st show ?thesis
  proof (elim disjE)
    assume "sc_state c = STATE_SENDING_HELLO"
    with ph buf show ?thesis
      by (intro await_traced [OF inv s(2) ctl two, of 2 STATE_SENT_HELLO _ alloc])
        (auto simp: step phase_def bsize_fromsize_def cong: option.case_cong)
  next
    assume "sc_state c = STATE_SENDING_PASSWORD"
    with ph buf show ?thesis
      by (intro await_traced [OF inv s(2) ctl two, of 2 STATE_SENT_PASSWORD _ alloc])
        (auto simp: step phase_def bsize_fromsize_def cong: option.case_cong)
  next
    assume "sc_state c = STATE_SENDING_REQUEST"
    with ph buf show ?thesis
      by (intro await_traced [OF inv s(2) ctl rep, of 4 STATE_SENT_REQUEST _ alloc])
        (auto simp: step phase_def cong: option.case_cong)
  qed
qed

text \<open>A message has been received, in part or in full.\<close>

lemma filled_sel [simp]:
  "sc_auth_info (filled c b n r) = sc_auth_info c" "sc_dest_addr (filled c b n r) = sc_dest_addr c"
  "sc_state (filled c b n r) = sc_state c" "sc_reported (filled c b n r) = sc_reported c"
  "sc_io (filled c b n r) = sc_io c" "sc_connection (filled c b n r) = sc_connection c"
  "sc_sending (filled c b n r) = sc_sending c" "sc_receiving (filled c b n r) = r"
  "sc_buffer (filled c b n r) = Some b" "res_ok (filled c b n r) = res_ok c"
  by (simp_all add: filled_def res_ok_def)

lemma seg_nth: "seg off n b = xs \<Longrightarrow> i < length xs \<Longrightarrow> b ! (off + i) = xs ! i"
  by (auto simp: seg_def)

text \<open>The environment of a receive: \<open>c1\<close> is the client with the message in its buffer.\<close>

definition recv_ready :: "auth_info list \<Rightarrow> baddr \<Rightarrow> socks_client \<Rightarrow> socks_action list \<Rightarrow> bool" where
  "recv_ready auths dest c1 os \<longleftrightarrow> sc_auth_info c1 = auths \<and> sc_dest_addr c1 = dest \<and> res_ok c1 \<and>
     \<not> sc_reported c1 \<and> sc_state c1 \<noteq> STATE_UP \<and> Handler BSOCKSCLIENT_EVENT_UP \<notin> set os \<and>
     sc_io c1 = Control_io \<and> sc_connection c1 \<and> \<not> sc_sending c1 \<and> sc_receiving c1 = None"

lemma recv_error:
  assumes "recv_ready auths dest c1 os"
    and "env_failure e \<or> hopeless auths dest (received (es @ [e]))"
  shows "\<exists>c' os'. report_error c1 BSOCKSCLIENT_EVENT_ERROR = Some (c', os') \<and> sc_inv auths dest c' (es @ [e]) (os @ os')"
  using assms by (intro error_inv) (auto simp: recv_ready_def)

lemma auth_finished_traced:
  assumes r: "recv_ready auths dest c1 os" and dest: "addr_ok dest"
    and e: "alloc = None \<Longrightarrow> env_failure e"
    and auth: "auth_dialogue auths (received (es @ [e])) (sent os)"
  shows "\<exists>c' os'. auth_finished c1 alloc = Some (c', os') \<and> sc_inv auths dest c' (es @ [e]) (os @ os')"
proof (cases alloc)
  case None
  then have "auth_finished c1 alloc = report_error c1 BSOCKSCLIENT_EVENT_ERROR"
    by (simp add: auth_finished_def reserve_None Let_def)
  then show ?thesis using recv_error [OF r] e None by simp
next
  case (Some g)
  let ?c = "c1\<lparr>sc_buffer := Some (request_msg dest), sc_sending := True, sc_state := STATE_SENDING_REQUEST\<rparr>"
  have "auth_finished c1 alloc = Some (?c, [Control_send (request_msg dest)])"
    using request_sent [of c1 g] r dest Some by (simp add: recv_ready_def)
  moreover have "sc_inv auths dest ?c (es @ [e]) (os @ [Control_send (request_msg dest)])"
    using r auth by (auto simp: sc_inv_def recv_ready_def res_ok_def phase_def ctl_sending_def)
  ultimately show ?thesis by blast
qed

lemma chosen_type: "chosen auths t = Some ai \<Longrightarrow> auth_type ai = t \<and> ai \<in> set auths"
  by (auto simp: chosen_def find_Some_iff)

lemma method_byte: "(m :: byte) = 0 \<longleftrightarrow> uint m = 0" "(m :: byte) = 2 \<longleftrightarrow> uint m = 2"
  by (auto simp: word_uint_eq_iff)

lemma hello_traced:
  assumes r: "recv_ready auths dest c1 os" and args: "valid_args auths dest"
    and e: "e = Control_recv data alloc" "received (es @ [e]) = [v, m]" "sent os = [hello_msg auths]"
    and b: "2 \<le> length b" "b ! 0 = v" "b ! 1 = m"
  shows "\<exists>c' os'. received_hello c1 b alloc = Some (c', os') \<and> sc_inv auths dest c' (es @ [e]) (os @ os')"
proof -
  have dest: "addr_ok dest" using args by (simp add: valid_args_def)
  have c1: "sc_auth_info c1 = auths" using r by (simp add: recv_ready_def)
  note step = received_hello_def c1 b b(3) [unfolded One_nat_def] ntoh8_def hton8_def SOCKS_VERSION_def
    SOCKS_METHOD_NO_AUTHENTICATION_REQUIRED_def SOCKS_METHOD_USERNAME_PASSWORD_def chosen_def [symmetric]
  have hopeless: "\<exists>c' os'. report_error c1 BSOCKSCLIENT_EVENT_ERROR = Some (c', os') \<and>
      sc_inv auths dest c' (es @ [e]) (os @ os')" if "hopeless auths dest [v, m]"
    using recv_error [OF r, of e es] that e(2) by simp
  show ?thesis
  proof (cases "v = 5 \<and> chosen auths (uint m) \<noteq> None")
    case False
    then have "hopeless auths dest [v, m]" by (intro hopeless_hello) (auto simp: method_byte)
    moreover have "received_hello c1 b alloc = report_error c1 BSOCKSCLIENT_EVENT_ERROR"
      using False by (auto simp: step)
    ultimately show ?thesis using hopeless by simp
  next
    case True
    then obtain ai where ai: "chosen auths (uint m) = Some ai" by blast
    then have "auth_type ai = uint m" "auth_type ai = 0 \<or> auth_type ai = 2"
      using chosen_type [OF ai] args by (auto simp: valid_args_def)
    then consider "m = 0" "auth_type ai = 0" | "m = 2" "auth_type ai = 2" by (auto simp: method_byte)
    then show ?thesis
    proof cases
      case 1
      then have "auth_dialogue auths (received (es @ [e])) (sent os)"
        using True ai e by (auto intro: auth_dialogue.no_auth)
      moreover have "received_hello c1 b alloc = auth_finished c1 alloc" using True ai 1 by (simp add: step)
      ultimately show ?thesis using auth_finished_traced [OF r dest, of alloc e es] e(1) by simp
    next
      case 2
      then have rh: "received_hello c1 b alloc = send_password c1 (username ai) (password ai) alloc"
        using True ai by (simp add: step)
      show ?thesis
      proof (cases "password_fits ai \<and> alloc \<noteq> None")
        case fits: True
        then obtain g where g: "alloc = Some g" by blast
        let ?c = "c1\<lparr>sc_buffer := Some (password_msg ai), sc_sending := True, sc_state := STATE_SENDING_PASSWORD\<rparr>"
        have "received_hello c1 b alloc = Some (?c, [Control_send (password_msg ai)])"
          using rh password_sent [of ai c1 g] fits g r by (simp add: recv_ready_def)
        moreover have "sc_inv auths dest ?c (es @ [e]) (os @ [Control_send (password_msg ai)])"
          using r e 2 ai True fits
          by (auto simp: sc_inv_def recv_ready_def res_ok_def phase_def ctl_sending_def)
        ultimately show ?thesis by blast
      next
        case False
        then have "received_hello c1 b alloc = report_error c1 BSOCKSCLIENT_EVENT_ERROR"
          using rh by (auto simp: send_password_def password_fits_def reserve_None Let_def)
        moreover have "env_failure e \<or> hopeless auths dest (received (es @ [e]))"
          using False 2 ai e by (auto intro!: hopeless_hello)
        ultimately show ?thesis using recv_error [OF r] by simp
      qed
    qed
  qed
qed

lemma reply_header_traced:
  assumes r: "recv_ready auths dest c1 os" and c1: "sc_buffer c1 = Some b" "length b = 22"
    and e: "received (es @ [e]) = arx @ [v, rep, x, t]" "auth_dialogue auths arx atx" "sent os = atx @ [request_msg dest]"
    and b: "b ! 0 = v" "b ! 1 = rep" "b ! 3 = t"
  shows "\<exists>c' os'. received_reply_header c1 b = Some (c', os') \<and> sc_inv auths dest c' (es @ [e]) (os @ os')"
proof (cases "v = 5 \<and> rep = 0 \<and> (t = 1 \<or> t = 4)")
  case False
  then have "hopeless auths dest (received (es @ [e]))" unfolding e(1) by (intro hopeless_reply [OF e(2)]) auto
  moreover have "received_reply_header c1 b = report_error c1 BSOCKSCLIENT_EVENT_ERROR"
    using False c1 b b(2) [unfolded One_nat_def]
    by (auto simp: received_reply_header_def ntoh8_def hton8_def socks_consts Let_def)
  ultimately show ?thesis using recv_error [OF r, of e es] by simp
next
  case True
  define n where "n = (if t = 1 then 6 else 18 :: nat)"
  let ?c = "c1\<lparr>sc_recv_dest := 4, sc_recv_len := 0, sc_recv_total := int n, sc_receiving := Some (4, n)\<rparr>"
  have io: "sc_io c1 = Control_io" "sc_connection c1" "\<not> sc_sending c1" "sc_receiving c1 = None"
    using r by (simp_all add: recv_ready_def)
  have n: "start_receive c1 4 (int n) = Some ?c" "recv_ok (?c\<lparr>sc_state := STATE_RECEIVED_REPLY_HEADER\<rparr>) 4 n [] b"
    using start_receive_ok(1) [OF io c1(1), of n 4]
      start_receive_ok(2) [OF io c1(1), of n 4 STATE_RECEIVED_REPLY_HEADER] c1(2)
    by (simp_all add: n_def)
  have "received_reply_header c1 b = Some (?c\<lparr>sc_state := STATE_RECEIVED_REPLY_HEADER\<rparr>, [])"
    using True c1 b b(2) [unfolded One_nat_def] n(1)
    by (auto simp: received_reply_header_def ntoh8_def hton8_def socks_consts Let_def n_def)
  moreover have "sc_inv auths dest (?c\<lparr>sc_state := STATE_RECEIVED_REPLY_HEADER\<rparr>) (es @ [e]) (os @ [])"
  proof -
    have "phase auths dest (?c\<lparr>sc_state := STATE_RECEIVED_REPLY_HEADER\<rparr>) (received (es @ [e])) (sent os)"
      unfolding phase_def
      using n(2) e True by (simp add: n_def split: if_splits) blast+
    then show ?thesis using r by (auto simp: sc_inv_def recv_ready_def res_ok_def)
  qed
  ultimately show ?thesis by blast
qed

lemma password_reply_traced:
  assumes r: "recv_ready auths dest c1 os" and dest: "addr_ok dest"
    and e: "e = Control_recv data alloc" "received (es @ [e]) = [5, 2, x, y]"
      "chosen auths 2 = Some ai" "password_fits ai" "sent os = [hello_msg auths, password_msg ai]"
    and b: "2 \<le> length b" "b ! 0 = x" "b ! 1 = y"
  shows "\<exists>c' os'. received_password_reply c1 b alloc = Some (c', os') \<and> sc_inv auths dest c' (es @ [e]) (os @ os')"
proof (cases "x = 1 \<and> y = 0")
  case True
  then have "auth_dialogue auths (received (es @ [e])) (sent os)"
    unfolding e(2,5) using auth_dialogue.password_auth [OF e(3,4)] by simp
  moreover have "received_password_reply c1 b alloc = auth_finished c1 alloc"
    using True b b(3) [unfolded One_nat_def] by (simp add: received_password_reply_def)
  ultimately show ?thesis using auth_finished_traced [OF r dest, of alloc e es] e(1) by simp
next
  case False
  then have "hopeless auths dest (received (es @ [e]))" unfolding e(2) by (intro hopeless_password) auto
  moreover have "received_password_reply c1 b alloc = report_error c1 BSOCKSCLIENT_EVENT_ERROR"
    using False b b(3) [unfolded One_nat_def] by (auto simp: received_password_reply_def)
  ultimately show ?thesis using recv_error [OF r, of e es] by simp
qed

lemma reply_rest_traced:
  assumes r: "recv_ready auths dest c1 os" and hs: "handshake auths dest (received (es @ [e])) (sent os)"
  shows "\<exists>c' os'. received_reply_rest c1 = Some (c', os') \<and> sc_inv auths dest c' (es @ [e]) (os @ os')"
  using r hs
  by (auto simp: received_reply_rest_def free_control_io_def init_up_io_def recv_ready_def sc_inv_def
      res_ok_def phase_def)

lemma list_of_two: "length xs = 2 \<Longrightarrow> xs = [xs ! 0, xs ! 1]"
  by (auto simp: list_eq_iff_nth_eq less_Suc_eq numeral_2_eq_2)

lemma list_of_four: "length xs = 4 \<Longrightarrow> xs = [xs ! 0, xs ! 1, xs ! 2, xs ! 3]"
  by (auto simp: list_eq_iff_nth_eq less_Suc_eq numeral_eq_Suc)

lemma recv_part_traced:
  assumes inv: "sc_inv auths dest c es os" "\<not> sc_reported c"
    and r: "recv_ok c d tot part b" "0 < length data" "length part + length data < tot"
    and p: "\<And>c' b'. recv_ok c' d tot (part @ data) b' \<Longrightarrow> length b' = length b \<Longrightarrow> sc_state c' = sc_state c \<Longrightarrow>
      phase auths dest c' (received (es @ [Control_recv data alloc])) (sent os)"
  shows "\<exists>c' os'. sc_step c (Control_recv data alloc) = Some (c', os') \<and>
    sc_inv auths dest c' (es @ [Control_recv data alloc]) (os @ os')"
proof -
  let ?b = "blit (d + length part) data b"
  let ?c = "filled c ?b (length (part @ data)) (Some (d + length (part @ data), tot - length (part @ data)))"
  have "phase auths dest ?c (received (es @ [Control_recv data alloc])) (sent os)"
    by (rule p [OF recv_more(2,3) [OF r]]) simp
  moreover have "sc_state c \<noteq> STATE_UP" using r(1) inv by (auto simp: sc_inv_def recv_ok_def res_ok_def)
  ultimately have "sc_inv auths dest ?c (es @ [Control_recv data alloc]) (os @ [])"
    using inv by (simp add: sc_inv_def)
  then show ?thesis using recv_more(1) [OF r, of alloc] by blast
qed

lemma recv_ready_filled:
  assumes "sc_inv auths dest c es os" "\<not> sc_reported c" "recv_ok c d tot part b"
  shows "recv_ready auths dest (filled c b' n None) os"
  using assms by (auto simp: recv_ready_def sc_inv_def recv_ok_def res_ok_def)

lemma recv_hello_traced:
  assumes inv: "sc_inv auths dest c es os" "\<not> sc_reported c" and args: "valid_args auths dest"
    and st: "sc_state c = STATE_SENT_HELLO" and data: "0 < length data" "length data \<le> 2 - length (received es)"
    and r: "recv_ok c 0 2 (received es) b" and tx: "sent os = [hello_msg auths]"
  shows "\<exists>c' os'. sc_step c (Control_recv data alloc) = Some (c', os') \<and>
    sc_inv auths dest c' (es @ [Control_recv data alloc]) (os @ os')"
proof (cases "length (received es) + length data < 2")
  case True
  then show ?thesis
    using st tx by (intro recv_part_traced [OF inv r data(1)]) (auto simp: phase_def)
next
  case False
  then have full: "length (received es) + length data = 2" using data r unfolding recv_ok_def by linarith
  let ?b = "blit (0 + length (received es)) data b" and ?rx = "received es @ data"
  note f = recv_full [OF r data(1) full]
  have rx: "?rx = [?rx ! 0, ?rx ! 1]" using full by (intro list_of_two) simp
  have "?b ! (0 + 0) = ?rx ! 0" "?b ! (0 + 1) = ?rx ! 1"
    by (rule seg_nth [OF f(2)], simp add: full)+
  then have "\<exists>c' os'. received_hello (filled c ?b 2 None) ?b alloc = Some (c', os') \<and>
      sc_inv auths dest c' (es @ [Control_recv data alloc]) (os @ os')"
    using rx tx f(3) r
    by (intro hello_traced [OF recv_ready_filled [OF inv r] args refl, where v = "?rx ! 0" and m = "?rx ! 1"])
      (simp_all add: recv_ok_def)
  then show ?thesis using f(1) st by simp
qed

lemma recv_password_traced:
  assumes inv: "sc_inv auths dest c es os" "\<not> sc_reported c" and args: "valid_args auths dest"
    and st: "sc_state c = STATE_SENT_PASSWORD" and data: "0 < length data" "length data \<le> 2 - length part"
    and r: "recv_ok c 0 2 part b" "received es = [5, 2] @ part"
    and ai: "chosen auths 2 = Some ai" "password_fits ai" "sent os = [hello_msg auths, password_msg ai]"
  shows "\<exists>c' os'. sc_step c (Control_recv data alloc) = Some (c', os') \<and>
    sc_inv auths dest c' (es @ [Control_recv data alloc]) (os @ os')"
proof (cases "length part + length data < 2")
  case True
  then show ?thesis
    using st ai r(2) by (intro recv_part_traced [OF inv r(1) data(1)]) (auto simp: phase_def)
next
  case False
  then have full: "length part + length data = 2" using data r(1) unfolding recv_ok_def by linarith
  let ?b = "blit (0 + length part) data b" and ?rx = "part @ data"
  note f = recv_full [OF r(1) data(1) full]
  have rx: "?rx = [?rx ! 0, ?rx ! 1]" using full by (intro list_of_two) simp
  have "?b ! (0 + 0) = ?rx ! 0" "?b ! (0 + 1) = ?rx ! 1"
    by (rule seg_nth [OF f(2)], simp add: full)+
  moreover have "addr_ok dest" using args by (simp add: valid_args_def)
  ultimately have "\<exists>c' os'. received_password_reply (filled c ?b 2 None) ?b alloc = Some (c', os') \<and>
      sc_inv auths dest c' (es @ [Control_recv data alloc]) (os @ os')"
    using rx f(3) r ai
    by (intro password_reply_traced [OF recv_ready_filled [OF inv r(1)] _ refl,
          where x = "?rx ! 0" and y = "?rx ! 1" and ai = ai])
      (simp_all add: recv_ok_def)
  then show ?thesis using f(1) st by simp
qed

lemma recv_header_traced:
  assumes inv: "sc_inv auths dest c es os" "\<not> sc_reported c"
    and st: "sc_state c = STATE_SENT_REQUEST" and data: "0 < length data" "length data \<le> 4 - length part"
    and r: "recv_ok c 0 4 part b" "length b = 22" "received es = arx @ part"
    and tx: "auth_dialogue auths arx atx" "sent os = atx @ [request_msg dest]"
  shows "\<exists>c' os'. sc_step c (Control_recv data alloc) = Some (c', os') \<and>
    sc_inv auths dest c' (es @ [Control_recv data alloc]) (os @ os')"
proof (cases "length part + length data < 4")
  case True
  then show ?thesis
    using st tx r(2,3) by (intro recv_part_traced [OF inv r(1) data(1)]) (auto simp: phase_def)
next
  case False
  then have full: "length part + length data = 4" using data r(1) unfolding recv_ok_def by linarith
  let ?b = "blit (0 + length part) data b" and ?rx = "part @ data"
  note f = recv_full [OF r(1) data(1) full]
  have rx: "?rx = [?rx ! 0, ?rx ! 1, ?rx ! 2, ?rx ! 3]" using full by (intro list_of_four) simp
  have "?b ! (0 + 0) = ?rx ! 0" "?b ! (0 + 1) = ?rx ! 1" "?b ! (0 + 3) = ?rx ! 3"
    by (rule seg_nth [OF f(2)], simp add: full)+
  then have "\<exists>c' os'. received_reply_header (filled c ?b 4 None) ?b = Some (c', os') \<and>
      sc_inv auths dest c' (es @ [Control_recv data alloc]) (os @ os')"
    using rx f(3) r tx
    by (intro reply_header_traced [OF recv_ready_filled [OF inv r(1)], where arx = arx and v = "?rx ! 0"
          and rep = "?rx ! 1" and x = "?rx ! 2" and t = "?rx ! 3" and atx = atx])
      simp_all
  then show ?thesis using f(1) st by simp
qed

lemma recv_rest_traced:
  assumes inv: "sc_inv auths dest c es os" "\<not> sc_reported c"
    and st: "sc_state c = STATE_RECEIVED_REPLY_HEADER" and data: "0 < length data" "length data \<le> n - length part"
    and r: "recv_ok c 4 n part b" "t = 1 \<and> n = 6 \<or> t = 4 \<and> n = 18" "received es = arx @ [5, 0, x, t] @ part"
    and tx: "auth_dialogue auths arx atx" "sent os = atx @ [request_msg dest]"
  shows "\<exists>c' os'. sc_step c (Control_recv data alloc) = Some (c', os') \<and>
    sc_inv auths dest c' (es @ [Control_recv data alloc]) (os @ os')"
proof (cases "length part + length data < n")
  case True
  show ?thesis
  proof (rule recv_part_traced [OF inv r(1) data(1) True])
    fix c' b' assume c': "recv_ok c' 4 n (part @ data) b'" "sc_state c' = sc_state c"
    have "received (es @ [Control_recv data alloc]) = arx @ [5, 0, x, t] @ (part @ data)" using r(3) by simp
    with c' r(2) tx st show "phase auths dest c' (received (es @ [Control_recv data alloc])) (sent os)"
      unfolding phase_def by (simp only: socks_state.case) blast
  qed
next
  case False
  then have full: "length part + length data = n" using data r(1) unfolding recv_ok_def by linarith
  have "handshake auths dest (arx @ [5, 0, x, t] @ (part @ data)) (atx @ [request_msg dest])"
    using r(2) full handshake.intros [OF tx(1), of "part @ data"] by auto
  then have "handshake auths dest (received (es @ [Control_recv data alloc])) (sent os)"
    using r(3) tx(2) by simp
  then show ?thesis
    using reply_rest_traced [OF recv_ready_filled [OF inv r(1)], of es] recv_full(1) [OF r(1) data(1) full, of alloc] st
    by simp
qed

lemma recv_traced:
  assumes inv: "sc_inv auths dest c es os" and args: "valid_args auths dest"
    and ok: "sc_contract c (Control_recv data alloc)"
  shows "\<exists>c' os'. sc_step c (Control_recv data alloc) = Some (c', os') \<and>
    sc_inv auths dest c' (es @ [Control_recv data alloc]) (os @ os')"
proof -
  have s: "\<not> sc_reported c" "sc_receiving c \<noteq> None" "0 < length data"
    using ok by (auto simp: sc_contract_def split: option.splits)
  have ph: "phase auths dest c (received es) (sent os)" using inv s by (simp add: sc_inv_def)
  have len: "length data \<le> tot - length part" if "recv_ok c d tot part b" for d tot part b
    using ok that by (simp add: sc_contract_def recv_ok_def)
  show ?thesis
  proof (cases "sc_state c")
    case STATE_SENT_HELLO
    with ph obtain b where "recv_ok c 0 2 (received es) b" "sent os = [hello_msg auths]"
      by (auto simp: phase_def)
    then show ?thesis using recv_hello_traced [OF inv s(1) args STATE_SENT_HELLO s(3)] len by blast
  next
    case STATE_SENT_PASSWORD
    with ph obtain part b ai where "recv_ok c 0 2 part b" "received es = [5, 2] @ part"
      "chosen auths 2 = Some ai" "password_fits ai" "sent os = [hello_msg auths, password_msg ai]"
      unfolding phase_def by (simp only: socks_state.case) blast
    then show ?thesis using recv_password_traced [OF inv s(1) args STATE_SENT_PASSWORD s(3)] len by blast
  next
    case STATE_SENT_REQUEST
    with ph obtain part b arx atx where "recv_ok c 0 4 part b" "length b = 22" "received es = arx @ part"
      "auth_dialogue auths arx atx" "sent os = atx @ [request_msg dest]"
      unfolding phase_def by (simp only: socks_state.case) blast
    then show ?thesis using recv_header_traced [OF inv s(1) STATE_SENT_REQUEST s(3)] len by blast
  next
    case STATE_RECEIVED_REPLY_HEADER
    with ph obtain part b arx atx x t n where "recv_ok c 4 n part b" "t = 1 \<and> n = 6 \<or> t = 4 \<and> n = 18"
      "received es = arx @ [5, 0, x, t] @ part" "auth_dialogue auths arx atx" "sent os = atx @ [request_msg dest]"
      unfolding phase_def by (simp only: socks_state.case) blast
    then show ?thesis using recv_rest_traced [OF inv s(1) STATE_RECEIVED_REPLY_HEADER s(3)] len by blast
  qed (use ph s(2) in \<open>auto simp: phase_def ctl_sending_def\<close>)
qed

lemma connection_traced:
  assumes inv: "sc_inv auths dest c es os" and ok: "sc_contract c (Connection_event closed)"
  shows "\<exists>c' os'. sc_step c (Connection_event closed) = Some (c', os') \<and>
    sc_inv auths dest c' (es @ [Connection_event closed]) (os @ os')"
proof -
  have "sc_state c \<noteq> STATE_CONNECTING" "\<not> sc_reported c" using ok by (simp_all add: sc_contract_def)
  moreover have "\<exists>c' os'. report_error c ev = Some (c', os') \<and> sc_inv auths dest c' (es @ [Connection_event closed]) (os @ os')"
    if "ev \<noteq> BSOCKSCLIENT_EVENT_UP" for ev
    using inv calculation(2) that by (intro error_inv) (auto simp: sc_inv_def)
  ultimately show ?thesis by (cases closed) (simp_all add: sc_step_def connection_handler_def)
qed

definition sc_ok :: "auth_info list \<Rightarrow> baddr \<Rightarrow> socks_client \<Rightarrow> socks_in list \<Rightarrow> socks_action list \<Rightarrow> bool" where
  "sc_ok auths dest c es os \<longleftrightarrow> valid_args auths dest \<and> sc_inv auths dest c es os"

interpretation socks: traced_machine sc_step sc_contract "sc_ok auths dest" for auths dest
proof
  fix c es os e assume "sc_ok auths dest c es os" and ok: "sc_contract c e"
  then have args: "valid_args auths dest" and inv: "sc_inv auths dest c es os" by (simp_all add: sc_ok_def)
  show "\<exists>c' os'. sc_step c e = Some (c', os') \<and> sc_ok auths dest c' (es @ [e]) (os @ os')"
    using connector_traced [OF inv] connection_traced [OF inv] recv_traced [OF inv args] sent_traced [OF inv] ok args
    by (cases e) (simp_all add: sc_ok_def)
qed

lemma socks_run:
  assumes "BSocksClient_Init server auths dest True = Some (Some c)" "addr_ok dest"
    and "admissible sc_contract sc_step c es"
  shows "\<exists>c' os. run sc_step c es = Some (c', os) \<and> sc_inv auths dest c' es os"
proof -
  have "sc_ok auths dest c [] []"
    using assms(1,2)
    by (auto simp: BSocksClient_Init_def sc_ok_def valid_args_def sc_inv_def res_ok_def phase_def received_def
        SOCKS_METHOD_NO_AUTHENTICATION_REQUIRED_def SOCKS_METHOD_USERNAME_PASSWORD_def)
  from socks.run_traced [OF this assms(3)] show ?thesis by (auto simp: sc_ok_def)
qed

section \<open>Properties\<close>

text \<open>C4. On every sequence of events that keeps to the contract no assertion of the SOCKS client
  fails, and the client reports that it is up only after a complete successful handshake: the bytes it
  received are exactly the server's part of one, not a byte more, and the messages it sent are, byte for
  byte, the greeting with all methods, the password message if that method was chosen, and the connect
  request for the destination.\<close>

theorem socks_up_only_after_handshake:
  assumes "BSocksClient_Init server auths dest True = Some (Some c)" "addr_ok dest"
    and "admissible sc_contract sc_step c es"
  shows "\<exists>c' os. run sc_step c es = Some (c', os) \<and>
    (Handler BSOCKSCLIENT_EVENT_UP \<in> set os) = (sc_state c' = STATE_UP) \<and>
    (sc_state c' = STATE_UP \<longrightarrow> handshake auths dest (received es) (sent os))"
  using socks_run [OF assms] by (auto simp: sc_inv_def)

definition sample_dialogue :: "socks_in list" where
  "sample_dialogue = [Connector_done False True (Some (\<lambda>_. 0)), Control_sent (Some (\<lambda>_. 0)),
     Control_recv [5] (Some (\<lambda>_. 0)), Control_recv [0] (Some (\<lambda>_. 0)), Control_sent (Some (\<lambda>_. 0)),
     Control_recv [5, 0, 0, 1] (Some (\<lambda>_. 0)), Control_recv [9, 9, 9, 9, 8, 8] (Some (\<lambda>_. 0))]"

definition sample_socks :: socks_client where
  "sample_socks = \<lparr>sc_auth_info = [BSocksClient_auth_none], sc_dest_addr = BADDR_IPV4 1 2, sc_state = STATE_CONNECTING,
       sc_buffer = None, sc_recv_dest = 0, sc_recv_len = 0, sc_recv_total = 0,
       sc_connection = False, sc_io = No_io, sc_sending = False, sc_receiving = None, sc_reported = False\<rparr>"

lemma sample_socks_init:
  "BSocksClient_Init (BADDR_IPV4 9 9) [BSocksClient_auth_none] (BADDR_IPV4 1 2) True = Some (Some sample_socks)"
  by code_simp

lemma sample_dialogue_ok: "admissible sc_contract sc_step sample_socks sample_dialogue"
  by code_simp

lemma sample_dialogue_run:
  "map_option (\<lambda>(c, os). (sc_state c, os)) (run sc_step sample_socks sample_dialogue) =
     Some (STATE_UP, [Control_send [5, 1, 0], Control_send [5, 1, 0, 1, 1, 0, 0, 0, 2, 0], Handler BSOCKSCLIENT_EVENT_UP])"
  by code_simp

lemma sample_dialogue_received: "received sample_dialogue = [5, 0, 5, 0, 0, 1, 9, 9, 9, 9, 8, 8]"
  by (simp add: received_def sample_dialogue_def)

theorem socks_up_only_after_handshake_witness:
  "handshake [BSocksClient_auth_none] (BADDR_IPV4 1 2) [5, 0, 5, 0, 0, 1, 9, 9, 9, 9, 8, 8]
     [[5, 1, 0], [5, 1, 0, 1, 1, 0, 0, 0, 2, 0]]"
  using socks_up_only_after_handshake [OF sample_socks_init _ sample_dialogue_ok] sample_dialogue_run
  by (auto simp: sample_dialogue_received)

lemma auth_dialogue_det:
  "auth_dialogue auths arx atx \<Longrightarrow> auth_dialogue auths arx' atx' \<Longrightarrow> arx @ xs = arx' @ ys \<Longrightarrow>
   arx = arx' \<and> atx = atx' \<and> xs = ys"
  by (elim auth_dialogue.cases) auto

lemma auth_dialogue_length: "auth_dialogue auths arx atx \<Longrightarrow> 2 \<le> length arx \<and> length arx \<le> 4"
  by (elim auth_dialogue.cases) auto

lemma handshake_parts:
  "handshake auths dest rx tx \<Longrightarrow>
   \<exists>arx atx r t addr. auth_dialogue auths arx atx \<and> rx = arx @ [5, 0, r, t] @ addr \<and> tx = atx @ [request_msg dest] \<and>
     (t = 1 \<and> length addr = 6 \<or> t = 4 \<and> length addr = 18)"
  by (erule handshake.cases) blast+

lemma phase_complete:
  assumes ph: "phase auths dest c rx tx" and hs: "handshake auths dest rx tx'"
  shows "sc_state c = STATE_UP \<and> tx = tx'"
proof -
  obtain arx atx r t addr where h: "auth_dialogue auths arx atx" "rx = arx @ [5, 0, r, t] @ addr"
    "tx' = atx @ [request_msg dest]" "t = 1 \<and> length addr = 6 \<or> t = 4 \<and> length addr = 18"
    using handshake_parts [OF hs] by blast
  have len: "12 \<le> length rx" using h(2,4) auth_dialogue_length [OF h(1)] by auto
  show ?thesis
  proof (cases "sc_state c")
    case STATE_RECEIVED_REPLY_HEADER
    with ph obtain part b arx' atx' x' t' n where p: "recv_ok c 4 n part b" "t' = 1 \<and> n = 6 \<or> t' = 4 \<and> n = 18"
      "rx = arx' @ [5, 0, x', t'] @ part" "auth_dialogue auths arx' atx'"
      unfolding phase_def by (simp only: socks_state.case) blast
    have "[5, 0, r, t] @ addr = [5, 0, x', t'] @ part"
      using auth_dialogue_det [OF h(1) p(4)] h(2) p(3) by metis
    then have "length part = n" using h(4) p(2) by auto
    then show ?thesis using p(1) by (simp add: recv_ok_def)
  next
    case STATE_UP
    then have "handshake auths dest rx tx" using ph by (simp add: phase_def)
    then obtain arx' atx' x' t' addr' where "auth_dialogue auths arx' atx'" "rx = arx' @ [5, 0, x', t'] @ addr'"
      "tx = atx' @ [request_msg dest]"
      using handshake_parts by blast
    then show ?thesis using STATE_UP auth_dialogue_det [OF h(1)] h(2,3) by metis
  qed (use ph len in \<open>auto simp: phase_def recv_ok_def dest: auth_dialogue_length\<close>)
qed

text \<open>C24. And it does come up: when the environment fails nowhere (the connection is made and stays,
  memory is there) and the bytes that arrived, in whatever pieces, are the server's part of a
  successful handshake, the client is up, has not reported an error, and has sent its part of that
  handshake.\<close>

theorem socks_up_after_handshake:
  assumes "BSocksClient_Init server auths dest True = Some (Some c)" "addr_ok dest"
    and "admissible sc_contract sc_step c es"
    and "\<And>e. e \<in> set es \<Longrightarrow> \<not> env_failure e" "length auths \<le> 255"
    and "handshake auths dest (received es) tx"
  shows "\<exists>c' os. run sc_step c es = Some (c', os) \<and> sc_state c' = STATE_UP \<and> \<not> sc_reported c' \<and> sent os = tx"
proof -
  obtain c' os where r: "run sc_step c es = Some (c', os)" "sc_inv auths dest c' es os"
    using socks_run [OF assms(1-3)] by blast
  have "auths \<noteq> []" using handshake_bytes [OF assms(6)] auth_dialogue_cases by (fastforce simp: chosen_def)
  then have "methods_ok auths" using assms(5) by (simp add: methods_ok_def)
  moreover have "\<not> hopeless auths dest (received es)" using assms(6) by (metis append_Nil2 hopeless_def)
  ultimately have up: "\<not> sc_reported c'" using r(2) assms(4) by (auto simp: sc_inv_def)
  then have "phase auths dest c' (received es) (sent os)" using r(2) by (simp add: sc_inv_def)
  from phase_complete [OF this assms(6)] r(1) up show ?thesis by blast
qed

theorem socks_up_after_handshake_witness:
  "\<exists>c os. run sc_step sample_socks sample_dialogue = Some (c, os) \<and> sc_state c = STATE_UP \<and>
     sent os = [[5, 1, 0], [5, 1, 0, 1, 1, 0, 0, 0, 2, 0]]"
proof -
  have hs: "handshake [BSocksClient_auth_none] (BADDR_IPV4 1 2) (received sample_dialogue)
      [[5, 1, 0], [5, 1, 0, 1, 1, 0, 0, 0, 2, 0]]"
    using handshake.ipv4_reply [OF auth_dialogue.no_auth, of "[BSocksClient_auth_none]" "[9, 9, 9, 9, 8, 8]"
        "BADDR_IPV4 1 2" 0]
    by (simp add: sample_dialogue_received chosen_def BSocksClient_auth_none_def hello_msg_def
        SOCKS_METHOD_NO_AUTHENTICATION_REQUIRED_def mem32_def mem16_def byte_at_def)
  have "\<And>e. e \<in> set sample_dialogue \<Longrightarrow> \<not> env_failure e" by (auto simp: sample_dialogue_def)
  from socks_up_after_handshake [OF sample_socks_init _ sample_dialogue_ok this _ hs]
  show ?thesis by auto
qed

text \<open>C25. Whatever the client has gone through, errors included, freeing it meets its assertions and
  leaves nothing behind: no connection, no I/O on it, no buffer.\<close>

theorem socks_free_releases:
  assumes "BSocksClient_Init server auths dest True = Some (Some c)" "addr_ok dest"
    and "admissible sc_contract sc_step c es"
  shows "\<exists>c' os c''. run sc_step c es = Some (c', os) \<and> BSocksClient_Free c' = Some c'' \<and>
    \<not> sc_connection c'' \<and> sc_io c'' = No_io \<and> sc_buffer c'' = None"
proof -
  obtain c' os where r: "run sc_step c es = Some (c', os)" "sc_inv auths dest c' es os"
    using socks_run [OF assms] by blast
  then have "res_ok c'" by (simp add: sc_inv_def)
  then have "\<exists>c''. BSocksClient_Free c' = Some c'' \<and> \<not> sc_connection c'' \<and> sc_io c'' = No_io \<and> sc_buffer c'' = None"
    by (cases "sc_state c'") (simp_all add: BSocksClient_Free_def res_ok_def free_up_io_def free_control_io_def)
  with r(1) show ?thesis by blast
qed

theorem socks_free_releases_witness:
  "\<exists>c os c'. run sc_step sample_socks sample_dialogue = Some (c, os) \<and> BSocksClient_Free c = Some c' \<and>
     sc_io c' = No_io"
  using socks_free_releases [OF sample_socks_init _ sample_dialogue_ok] by auto

end
