(* ===== verification/Socks_Udpgw.thy ===== *)
theory Socks_Udpgw
  imports Socks_Dialogue Udpgw_Table
begin

text \<open>
  The UDP gateway client over SOCKS, tun2socks/SocksUdpGwClient.c: the component that connects the
  gateway client of Udpgw_Client to a SOCKS client of Socks_Client and connects again, after a
  pause, whenever that fails. Both are part of the state, so a step of this component runs their
  handlers and then, in the order the calls are made, its own handlers on what they report.
\<close>

section \<open>State\<close>

text \<open>\<open>su_socks_client\<close> is \<open>None\<close> while \<open>have_socks\<close> is 0; \<open>su_reconnect_timer\<close> says
  whether the timer is running.\<close>

record socks_udpgw =
  su_socks_server_addr :: baddr
  su_auth_info :: "auth_info list"
  su_remote_udpgw_addr :: baddr
  su_udpgw_client :: udpgw_client
  su_reconnect_timer :: bool
  su_socks_client :: "socks_client option"
  su_socks_up :: bool

datatype su_action =
  Udpgw udpgw_action
| Socks socks_action
| Socks_started
| Socks_freed
| Timer_set
| Timer_removed
| User_received baddr baddr "byte list"

type_synonym su_result = "(socks_udpgw \<times> su_action list) option"

section \<open>Operations\<close>

definition free_socks :: "socks_udpgw \<Rightarrow> su_result" where
  "free_socks su = do {
     sk \<leftarrow> su_socks_client su;
     (g, os) \<leftarrow> (if su_socks_up su then UdpGwClient_DisconnectServer (su_udpgw_client su)
                 else Some (su_udpgw_client su, []));
     _ \<leftarrow> BSocksClient_Free sk;
     Some (su\<lparr>su_udpgw_client := g, su_socks_client := None\<rparr>, map Udpgw os @ [Socks_freed])
   }"

text \<open>\<open>connector_ok\<close> is the result of \<open>BConnector_Init\<close> inside \<open>BSocksClient_Init\<close>.\<close>

definition try_connect :: "socks_udpgw \<Rightarrow> bool \<Rightarrow> su_result" where
  "try_connect su connector_ok = do {
     assert_that (su_socks_client su = None);
     assert_that (\<not> su_reconnect_timer su);
     sk \<leftarrow> BSocksClient_Init (su_socks_server_addr su) (su_auth_info su) (su_remote_udpgw_addr su) connector_ok;
     case sk of
       None \<Rightarrow> Some (su\<lparr>su_reconnect_timer := True\<rparr>, [Timer_set])
     | Some sk \<Rightarrow> Some (su\<lparr>su_socks_client := Some sk, su_socks_up := False\<rparr>, [Socks_started])
   }"

definition reconnect_timer_handler :: "socks_udpgw \<Rightarrow> bool \<Rightarrow> su_result" where
  "reconnect_timer_handler su connector_ok = do {
     assert_that (su_socks_client su = None);
     try_connect su connector_ok
   }"

text \<open>Freeing the SOCKS client and setting the timer, which three handlers end with.\<close>

definition free_and_retry :: "socks_udpgw \<Rightarrow> su_result" where
  "free_and_retry su = do {
     (su, os) \<leftarrow> free_socks su;
     Some (su\<lparr>su_reconnect_timer := True\<rparr>, os @ [Timer_set])
   }"

definition socks_client_handler :: "socks_udpgw \<Rightarrow> socks_event \<Rightarrow> bool \<Rightarrow> su_result" where
  "socks_client_handler su event decoder_ok = do {
     sk \<leftarrow> su_socks_client su;
     case event of
       BSOCKSCLIENT_EVENT_UP \<Rightarrow> do {
         assert_that (\<not> su_socks_up su);
         BSocksClient_GetSendInterface sk;
         BSocksClient_GetRecvInterface sk;
         (g, os, ok) \<leftarrow> UdpGwClient_ConnectServer (su_udpgw_client su) decoder_ok;
         let su = su\<lparr>su_udpgw_client := g\<rparr>;
         if ok then Some (su\<lparr>su_socks_up := True\<rparr>, map Udpgw os)
         else do {
           (su, os') \<leftarrow> free_and_retry su;
           Some (su, map Udpgw os @ os')
         }
       }
     | _ \<Rightarrow> free_and_retry su
   }"

definition udpgw_handler_servererror :: "socks_udpgw \<Rightarrow> su_result" where
  "udpgw_handler_servererror su = do {
     assert_that (su_socks_client su \<noteq> None);
     assert_that (su_socks_up su);
     free_and_retry su
   }"

definition udpgw_handler_received :: "baddr \<Rightarrow> baddr \<Rightarrow> byte list \<Rightarrow> su_action list" where
  "udpgw_handler_received local_addr remote_addr data = [User_received local_addr remote_addr data]"

text \<open>\<open>Some None\<close> is the return value 0.\<close>

definition SocksUdpGwClient_Init ::
  "int \<Rightarrow> int \<Rightarrow> int \<Rightarrow> baddr \<Rightarrow> auth_info list \<Rightarrow> baddr \<Rightarrow> bool \<Rightarrow> bool \<Rightarrow>
   (socks_udpgw \<times> su_action list) option option" where
  "SocksUdpGwClient_Init udp_mtu max_connections send_buffer_size socks_server_addr auth_info
       remote_udpgw_addr queue_ok connector_ok = do {
     assert_that (\<not> BAddr_IsInvalid socks_server_addr);
     assert_that (baddr_type remote_udpgw_addr = BADDR_TYPE_IPV4 \<or> baddr_type remote_udpgw_addr = BADDR_TYPE_IPV6);
     g \<leftarrow> UdpGwClient_Init udp_mtu max_connections send_buffer_size queue_ok;
     case g of None \<Rightarrow> Some None
     | Some g \<Rightarrow> do {
         r \<leftarrow> try_connect
           \<lparr>su_socks_server_addr = socks_server_addr, su_auth_info = auth_info,
            su_remote_udpgw_addr = remote_udpgw_addr, su_udpgw_client = g, su_reconnect_timer = False,
            su_socks_client = None, su_socks_up = False\<rparr> connector_ok;
         Some (Some r)
       }
   }"

definition SocksUdpGwClient_Free :: "socks_udpgw \<Rightarrow> su_action list option" where
  "SocksUdpGwClient_Free su = do {
     (su, os) \<leftarrow> (if su_socks_client su \<noteq> None then free_socks su else Some (su, []));
     os' \<leftarrow> UdpGwClient_Free (su_udpgw_client su);
     Some (os @ [Timer_removed] @ map Udpgw os')
   }"

definition SocksUdpGwClient_SubmitPacket ::
  "socks_udpgw \<Rightarrow> baddr \<Rightarrow> baddr \<Rightarrow> bool \<Rightarrow> byte list \<Rightarrow> nat option \<Rightarrow> bool \<Rightarrow> bool \<Rightarrow> su_result" where
  "SocksUdpGwClient_SubmitPacket su local_addr remote_addr is_dns data mem flow_ok room = do {
     (g, os) \<leftarrow> UdpGwClient_SubmitPacket (su_udpgw_client su) local_addr remote_addr is_dns data mem flow_ok room;
     Some (su\<lparr>su_udpgw_client := g\<rparr>, map Udpgw os)
   }"

section \<open>The component between its neighbours\<close>

text \<open>The calls of the SOCKS client and of the gateway client on this component.\<close>

fun socks_calls :: "socks_udpgw \<Rightarrow> bool \<Rightarrow> socks_action list \<Rightarrow> su_result" where
  "socks_calls su decoder_ok [] = Some (su, [])"
| "socks_calls su decoder_ok (a # as) = do {
     (su, os) \<leftarrow> (case a of Handler ev \<Rightarrow> socks_client_handler su ev decoder_ok
                          | Control_send bs \<Rightarrow> Some (su, [Socks a]));
     (su, os') \<leftarrow> socks_calls su decoder_ok as;
     Some (su, os @ os')
   }"

fun udpgw_calls :: "socks_udpgw \<Rightarrow> udpgw_action list \<Rightarrow> su_result" where
  "udpgw_calls su [] = Some (su, [])"
| "udpgw_calls su (a # as) = do {
     (su, os) \<leftarrow> (case a of Server_error \<Rightarrow> udpgw_handler_servererror su
                          | Received l r data \<Rightarrow> Some (su, udpgw_handler_received l r data)
                          | _ \<Rightarrow> Some (su, [Udpgw a]));
     (su, os') \<leftarrow> udpgw_calls su as;
     Some (su, os @ os')
   }"

text \<open>The reconnect timer expires; an event of the SOCKS client; an event of the gateway client, which
  is a submitted packet when it is \<open>Submit\<close>. The gateway client is connected and disconnected by
  this component only.\<close>

datatype su_event = Timer bool | Socks_ev socks_in bool | Udpgw_ev ug_event

definition su_step :: "socks_udpgw \<Rightarrow> su_event \<Rightarrow> su_result" where
  "su_step su e = (case e of
     Timer connector_ok \<Rightarrow> reconnect_timer_handler (su\<lparr>su_reconnect_timer := False\<rparr>) connector_ok
   | Socks_ev i decoder_ok \<Rightarrow> do {
       sk \<leftarrow> su_socks_client su;
       (sk, os) \<leftarrow> sc_step sk i;
       socks_calls (su\<lparr>su_socks_client := Some sk\<rparr>) decoder_ok os
     }
   | Udpgw_ev (Submit l r dns data mem flow_ok room) \<Rightarrow>
       SocksUdpGwClient_SubmitPacket su l r dns data mem flow_ok room
   | Udpgw_ev i \<Rightarrow> do {
       (g, os) \<leftarrow> ug_step (su_udpgw_client su) i;
       udpgw_calls (su\<lparr>su_udpgw_client := g\<rparr>) os
     })"

definition su_contract :: "socks_udpgw \<Rightarrow> su_event \<Rightarrow> bool" where
  "su_contract su e = (case e of
     Timer connector_ok \<Rightarrow> su_reconnect_timer su
   | Socks_ev i decoder_ok \<Rightarrow> (case su_socks_client su of None \<Rightarrow> False | Some sk \<Rightarrow> sc_contract sk i)
   | Udpgw_ev i \<Rightarrow> ug_contract (su_udpgw_client su) i \<and>
       (case i of Connect ok \<Rightarrow> False | Disconnect \<Rightarrow> False | _ \<Rightarrow> True))"

section \<open>What a step of the SOCKS client reports\<close>

definition outcome :: "socks_client \<Rightarrow> socks_action list \<Rightarrow> bool" where
  "outcome c os \<longleftrightarrow>
     \<not> sc_reported c \<and> sc_state c \<noteq> STATE_UP \<and> (os = [] \<or> (\<exists>bs. os = [Control_send bs])) \<or>
     \<not> sc_reported c \<and> sc_state c = STATE_UP \<and> os = [Handler BSOCKSCLIENT_EVENT_UP] \<or>
     sc_reported c \<and> (\<exists>ev. ev \<noteq> BSOCKSCLIENT_EVENT_UP \<and> os = [Handler ev])"

definition quiet :: "socks_client \<Rightarrow> socks_client \<Rightarrow> bool" where
  "quiet c c' \<longleftrightarrow> sc_reported c' = sc_reported c \<and> sc_state c' = sc_state c"

lemma quiet_ops:
  "put_buffer c off bs = Some c' \<Longrightarrow> quiet c c'"
  "reserve_buffer c sz alloc = Some c' \<Longrightarrow> quiet c c'"
  "start_receive c d t = Some c' \<Longrightarrow> quiet c c'"
  "do_receive c = Some c' \<Longrightarrow> quiet c c'"
  "free_control_io c = Some c' \<Longrightarrow> quiet c c'"
  "init_control_io c = Some c' \<Longrightarrow> quiet c c'"
  "init_up_io c = Some c' \<Longrightarrow> quiet c c'"
  by (auto simp: quiet_def put_buffer_def reserve_buffer_def start_receive_def do_receive_def free_control_io_def
      init_control_io_def init_up_io_def Let_def bind_eq_Some_conv split: if_splits option.splits)

lemma quiet_write_methods: "write_methods c i ais = Some c' \<Longrightarrow> quiet c c'"
  by (induction ais arbitrary: c i) (auto simp: quiet_def bind_eq_Some_conv dest!: quiet_ops)

lemma control_send_outcome:
  "control_send c n = Some (c', os) \<Longrightarrow> quiet c c' \<and> (\<exists>bs. os = [Control_send bs])"
  by (auto simp: control_send_def quiet_def bind_eq_Some_conv)

lemma report_error_outcome:
  "report_error c ev = Some (c', os) \<Longrightarrow> ev \<noteq> BSOCKSCLIENT_EVENT_UP \<Longrightarrow> outcome c' os"
  by (auto simp: report_error_def outcome_def)

lemma connector_outcome:
  "connector_handler c err cok alloc = Some (c', os) \<Longrightarrow> \<not> sc_reported c \<Longrightarrow> outcome c' os"
  by (auto simp: connector_handler_def connector_fail1_def Let_def bind_eq_Some_conv quiet_def outcome_def
      dest!: control_send_outcome quiet_write_methods quiet_ops report_error_outcome split: if_splits option.splits)

lemma auth_finished_outcome:
  "auth_finished c alloc = Some (c', os) \<Longrightarrow> \<not> sc_reported c \<Longrightarrow> outcome c' os"
  by (auto simp: auth_finished_def Let_def bind_eq_Some_conv quiet_def outcome_def
      dest!: control_send_outcome quiet_ops report_error_outcome split: if_splits option.splits)

lemma send_password_outcome:
  "send_password c u p alloc = Some (c', os) \<Longrightarrow> \<not> sc_reported c \<Longrightarrow> outcome c' os"
  by (auto simp: send_password_def Let_def bind_eq_Some_conv quiet_def outcome_def
      dest!: control_send_outcome quiet_ops report_error_outcome split: if_splits option.splits)

lemma received_outcome:
  "received_hello c b alloc = Some (c', os) \<Longrightarrow> \<not> sc_reported c \<Longrightarrow> outcome c' os"
  "received_reply_header c b = Some (c', os) \<Longrightarrow> \<not> sc_reported c \<Longrightarrow> outcome c' os"
  "received_password_reply c b alloc = Some (c', os) \<Longrightarrow> \<not> sc_reported c \<Longrightarrow> outcome c' os"
  "received_reply_rest c = Some (c', os) \<Longrightarrow> \<not> sc_reported c \<Longrightarrow> outcome c' os"
  subgoal by (auto simp: received_hello_def Let_def bind_eq_Some_conv
      dest: auth_finished_outcome send_password_outcome report_error_outcome split: if_splits option.splits)
  subgoal by (auto simp: received_reply_header_def Let_def bind_eq_Some_conv quiet_def outcome_def
      dest!: quiet_ops report_error_outcome split: if_splits option.splits)
  subgoal by (auto simp: received_password_reply_def Let_def bind_eq_Some_conv
      dest: auth_finished_outcome report_error_outcome split: if_splits)
  subgoal by (auto simp: received_reply_rest_def bind_eq_Some_conv quiet_def outcome_def dest!: quiet_ops)
  done

lemma recv_outcome:
  assumes "recv_handler_done c n alloc = Some (c', os)" "\<not> sc_reported c" "sc_state c \<noteq> STATE_UP"
  shows "outcome c' os"
proof (cases "sc_recv_len c + n < sc_recv_total c")
  case True
  then show ?thesis using assms
    by (auto simp: recv_handler_done_def Let_def bind_eq_Some_conv quiet_def outcome_def dest!: quiet_ops)
next
  case False
  then show ?thesis using assms
    by (cases "sc_state c") (auto simp: recv_handler_done_def Let_def bind_eq_Some_conv dest: received_outcome)
qed

lemma sent_outcome:
  "send_handler_done c alloc = Some (c', os) \<Longrightarrow> \<not> sc_reported c \<Longrightarrow> outcome c' os"
  by (auto simp: send_handler_done_def Let_def bind_eq_Some_conv quiet_def outcome_def
      dest!: quiet_ops report_error_outcome split: if_splits socks_state.splits option.splits)

lemma sc_step_outcome:
  assumes inv: "sc_ok auths dest c es os0" and ok: "sc_contract c e" and st: "sc_step c e = Some (c', os)"
  shows "outcome c' os"
proof -
  have nr: "\<not> sc_reported c" using ok by (simp add: sc_contract_def)
  then have up: "sc_state c = STATE_UP \<Longrightarrow> \<not> sc_sending c \<and> sc_receiving c = None"
    using inv by (simp add: sc_ok_def sc_inv_def phase_def)
  show ?thesis
  proof (cases e)
    case (Connector_done x y z)
    then show ?thesis using connector_outcome st nr by (simp add: sc_step_def)
  next
    case (Connection_event x)
    then show ?thesis using st nr
      by (auto simp: sc_step_def connection_handler_def dest: report_error_outcome split: if_splits)
  next
    case (Control_recv data z)
    then have "sc_state c \<noteq> STATE_UP" using up ok by (auto simp: sc_contract_def)
    moreover obtain c1 where "recv_handler_done c1 (int (length data)) z = Some (c', os)" "quiet c c1"
      using Control_recv st by (auto simp: sc_step_def bind_eq_Some_conv quiet_def dest!: quiet_ops)
    ultimately show ?thesis using recv_outcome nr by (auto simp: quiet_def)
  next
    case (Control_sent z)
    then show ?thesis using sent_outcome [of "c\<lparr>sc_sending := False\<rparr>"] st nr by (auto simp: sc_step_def)
  qed
qed

section \<open>Invariant\<close>

text \<open>A SOCKS client that has come to its state by some run from its initialisation and has not
  reported an error.\<close>

definition socks_live :: "auth_info list \<Rightarrow> baddr \<Rightarrow> socks_client \<Rightarrow> bool" where
  "socks_live auths dest sk \<longleftrightarrow> \<not> sc_reported sk \<and> (\<exists>es os. sc_ok auths dest sk es os)"

text \<open>Either the component waits for the timer or it has a SOCKS client; the gateway client has a
  server exactly while that client is up.\<close>

definition su_inv :: "socks_udpgw \<Rightarrow> bool" where
  "su_inv su \<longleftrightarrow> ug_inv (su_udpgw_client su) \<and> valid_args (su_auth_info su) (su_remote_udpgw_addr su) \<and>
     \<not> BAddr_IsInvalid (su_socks_server_addr su) \<and>
     (case su_socks_client su of
        None \<Rightarrow> su_reconnect_timer su \<and> \<not> ug_have_server (su_udpgw_client su)
      | Some sk \<Rightarrow> \<not> su_reconnect_timer su \<and> socks_live (su_auth_info su) (su_remote_udpgw_addr su) sk \<and>
          su_socks_up su = (sc_state sk = STATE_UP) \<and> ug_have_server (su_udpgw_client su) = su_socks_up su)"

lemma sc_ok_free: "sc_ok auths dest sk es os \<Longrightarrow> \<exists>sk'. BSocksClient_Free sk = Some sk'"
  by (cases "sc_state sk")
    (auto simp: sc_ok_def sc_inv_def BSocksClient_Free_def res_ok_def free_up_io_def free_control_io_def)

lemma ug_inv_server: "ug_inv (g\<lparr>ug_have_server := b\<rparr>) = ug_inv g"
  by (simp add: ug_inv_def ug_limits_def)

section \<open>Seen as the connection table\<close>

text \<open>The calls that the gateway client makes and that leave this component; its error report does
  not. \<open>own\<close> are the events of the gateway client that come from outside this component.\<close>

fun visible :: "su_action \<Rightarrow> udpgw_action list" where
  "visible (Udpgw a) = [a]"
| "visible (User_received l r data) = [Received l r data]"
| "visible _ = []"

fun own :: "ug_event \<Rightarrow> bool" where
  "own (Connect ok) = False"
| "own Disconnect = False"
| "own _ = True"

fun gateway_event :: "su_event \<Rightarrow> ug_event list" where
  "gateway_event (Udpgw_ev i) = [i]"
| "gateway_event _ = []"

text \<open>The gateway client moves from \<open>g\<close> to \<open>g'\<close> as the table does on the events \<open>ues\<close>.\<close>

definition follows :: "udpgw_client \<Rightarrow> udpgw_client \<Rightarrow> su_action list \<Rightarrow> ug_event list \<Rightarrow> bool" where
  "follows g g' os ues \<longleftrightarrow> (\<exists>uos. run ct_step (table_of g) ues = Some (table_of g', uos) \<and>
     concat (map visible os) = filter (\<lambda>a. a \<noteq> Server_error) uos)"

lemma follows_none: "concat (map visible os) = [] \<Longrightarrow> follows g g os []"
  by (simp add: follows_def)

lemma follows_one:
  "ct_step (table_of g) i = Some (table_of g', uos) \<Longrightarrow>
   concat (map visible os) = filter (\<lambda>a. a \<noteq> Server_error) uos \<Longrightarrow> follows g g' os [i]"
  by (simp add: follows_def)

lemma follows_append:
  "follows g g1 os ues \<Longrightarrow> follows g1 g2 os' ues' \<Longrightarrow> follows g g2 (os @ os') (ues @ ues')"
  unfolding follows_def by (elim exE conjE) (simp add: run_append)

lemma visible_udpgw [simp]: "concat (map (visible \<circ> Udpgw) os) = os"
  by (induction os) auto

lemma disconnect_follows:
  "follows g (g\<lparr>ug_have_server := False\<rparr>) (map Udpgw free_server @ [Socks_freed, Timer_set]) [Disconnect]"
  by (simp add: follows_def ct_step_def table_of_def free_server_def)

lemma no_server: "\<not> ug_have_server g \<Longrightarrow> g\<lparr>ug_have_server := False\<rparr> = g"
  by simp

lemma connect_follows:
  "follows g (if ok then g\<lparr>ug_have_server := True\<rparr> else g)
     (map Udpgw (if ok then [Recv_if_Init, Recv_decoder_Init, Send_sender_Init, Send_connector_Connect]
       else [Recv_if_Init, Recv_if_Free])) [Connect ok]"
  by (simp add: follows_def ct_step_def table_of_def)

text \<open>Freeing the SOCKS client, from any state it can be in when this is done.\<close>

lemma free_and_retry_ok:
  assumes "su_socks_client su = Some sk" "sc_ok auths dest sk es os"
    and "ug_inv (su_udpgw_client su)" "valid_args (su_auth_info su) (su_remote_udpgw_addr su)"
    and "\<not> BAddr_IsInvalid (su_socks_server_addr su)" "ug_have_server (su_udpgw_client su) = su_socks_up su"
  shows "\<exists>su' os' ues. free_and_retry su = Some (su', os') \<and> su_inv su' \<and> filter own ues = [] \<and>
    follows (su_udpgw_client su) (su_udpgw_client su') os' ues"
proof -
  obtain sk' where "BSocksClient_Free sk = Some sk'" using sc_ok_free [OF assms(2)] by blast
  then show ?thesis
    using assms disconnect_follows [of "su_udpgw_client su"] follows_none [of "[Socks_freed, Timer_set]" "su_udpgw_client su"]
    by (intro exI [of _ "su\<lparr>su_udpgw_client := (su_udpgw_client su)\<lparr>ug_have_server := False\<rparr>, su_socks_client := None,
          su_reconnect_timer := True\<rparr>"]
        exI [of _ "(if su_socks_up su then map Udpgw free_server else []) @ [Socks_freed, Timer_set]"]
        exI [of _ "if su_socks_up su then [Disconnect] else []"])
      (auto simp add: free_and_retry_def free_socks_def UdpGwClient_DisconnectServer_def su_inv_def ug_inv_server no_server)
qed

lemma socks_init_ok:
  assumes "valid_args auths dest" "\<not> BAddr_IsInvalid server"
  shows "\<exists>sk. BSocksClient_Init server auths dest ok = Some (if ok then Some sk else None) \<and>
    socks_live auths dest sk \<and> sc_state sk = STATE_CONNECTING"
proof -
  let ?sk = "\<lparr>sc_auth_info = auths, sc_dest_addr = dest, sc_state = STATE_CONNECTING,
       sc_buffer = None, sc_recv_dest = 0, sc_recv_len = 0, sc_recv_total = 0,
       sc_connection = False, sc_io = No_io, sc_sending = False, sc_receiving = None, sc_reported = False\<rparr>"
  have "sc_ok auths dest ?sk [] []"
    using assms by (simp add: sc_ok_def sc_inv_def res_ok_def phase_def received_def)
  then have "socks_live auths dest ?sk" by (auto simp: socks_live_def)
  moreover have "BSocksClient_Init server auths dest ok = Some (if ok then Some ?sk else None)"
    using assms addr_ok_type [of dest]
    by (auto simp: BSocksClient_Init_def valid_args_def
        SOCKS_METHOD_NO_AUTHENTICATION_REQUIRED_def SOCKS_METHOD_USERNAME_PASSWORD_def)
  ultimately show ?thesis by (intro exI [of _ ?sk]) simp
qed

lemma try_connect_ok:
  assumes "su_socks_client su = None" "\<not> su_reconnect_timer su" "\<not> ug_have_server (su_udpgw_client su)"
    and "ug_inv (su_udpgw_client su)" "valid_args (su_auth_info su) (su_remote_udpgw_addr su)"
    and "\<not> BAddr_IsInvalid (su_socks_server_addr su)"
  shows "\<exists>su' os. try_connect su connector_ok = Some (su', os) \<and> su_inv su' \<and>
    su_udpgw_client su' = su_udpgw_client su"
proof -
  obtain sk where "BSocksClient_Init (su_socks_server_addr su) (su_auth_info su) (su_remote_udpgw_addr su) connector_ok =
      Some (if connector_ok then Some sk else None)"
    "socks_live (su_auth_info su) (su_remote_udpgw_addr su) sk" "sc_state sk = STATE_CONNECTING"
    using socks_init_ok assms(5,6) by blast
  then show ?thesis using assms by (cases connector_ok) (simp_all add: try_connect_def su_inv_def)
qed

lemma sc_step_up:
  assumes "sc_ok auths dest c es os0" "sc_contract c e" "sc_step c e = Some (c', os)" "sc_state c = STATE_UP"
  shows "sc_reported c'"
proof -
  have "\<not> sc_sending c \<and> sc_receiving c = None"
    using assms(1,2,4) by (simp add: sc_contract_def sc_ok_def sc_inv_def phase_def)
  then show ?thesis using assms(2-4)
    by (cases e) (auto simp: sc_contract_def sc_step_def connection_handler_def report_error_def split: if_splits)
qed

lemma socks_calls_ok:
  assumes inv: "su_inv su" and sk: "su_socks_client su = Some sk" and ok: "sc_contract sk i"
  shows "\<exists>sk' os su' os'. sc_step sk i = Some (sk', os) \<and>
    socks_calls (su\<lparr>su_socks_client := Some sk'\<rparr>) decoder_ok os = Some (su', os') \<and> su_inv su' \<and>
    (\<exists>ues. filter own ues = [] \<and> follows (su_udpgw_client su) (su_udpgw_client su') os' ues)"
proof -
  let ?auths = "su_auth_info su" and ?dest = "su_remote_udpgw_addr su"
  obtain es os0 where so: "sc_ok ?auths ?dest sk es os0" using inv sk by (auto simp: su_inv_def socks_live_def)
  obtain sk' os where st: "sc_step sk i = Some (sk', os)" "sc_ok ?auths ?dest sk' (es @ [i]) (os0 @ os)"
    using socks.step_traced [OF so ok] by blast
  have was_up: "sc_state sk = STATE_UP \<Longrightarrow> sc_reported sk'" using sc_step_up [OF so ok st(1)] .
  have live: "\<not> sc_reported sk' \<Longrightarrow> socks_live ?auths ?dest sk'" using st(2) by (auto simp: socks_live_def)
  let ?su = "su\<lparr>su_socks_client := Some sk'\<rparr>"
  have retry: "\<exists>su' os' ues. free_and_retry ?su = Some (su', os') \<and> su_inv su' \<and> filter own ues = [] \<and>
      follows (su_udpgw_client su) (su_udpgw_client su') os' ues"
    using free_and_retry_ok [of ?su sk' ?auths ?dest] st(2) inv sk by (simp add: su_inv_def)
  have "\<exists>su' os'. socks_calls ?su decoder_ok os = Some (su', os') \<and> su_inv su' \<and>
    (\<exists>ues. filter own ues = [] \<and> follows (su_udpgw_client su) (su_udpgw_client su') os' ues)"
    using sc_step_outcome [OF so ok st(1)] unfolding outcome_def
  proof (elim disjE conjE exE)
    fix ev assume "ev \<noteq> BSOCKSCLIENT_EVENT_UP" "os = [Handler ev]"
    then show ?thesis using retry by (cases ev) (auto simp: socks_client_handler_def)
  next
    assume up: "\<not> sc_reported sk'" "sc_state sk' = STATE_UP" "os = [Handler BSOCKSCLIENT_EVENT_UP]"
    show ?thesis
    proof (cases decoder_ok)
      case True
      then show ?thesis using up inv sk live was_up connect_follows [of "su_udpgw_client su" True]
        by (auto simp: socks_client_handler_def su_inv_def UdpGwClient_ConnectServer_def ug_inv_server
            BSocksClient_GetSendInterface_def BSocksClient_GetRecvInterface_def intro!: exI [of _ "[Connect True]"])
    next
      case False
      obtain su' os' ues where r: "free_and_retry ?su = Some (su', os')" "su_inv su'" "filter own ues = []"
        "follows (su_udpgw_client su) (su_udpgw_client su') os' ues" using retry by blast
      have f: "follows (su_udpgw_client su) (su_udpgw_client su') (map Udpgw [Recv_if_Init, Recv_if_Free] @ os')
          ([Connect False] @ ues)"
        using connect_follows [of "su_udpgw_client su" False] r(4) by (intro follows_append) simp_all
      have "socks_calls ?su decoder_ok os = Some (su', map Udpgw [Recv_if_Init, Recv_if_Free] @ os')"
        using r(1) False up inv sk was_up
        by (auto simp: socks_client_handler_def su_inv_def UdpGwClient_ConnectServer_def
            BSocksClient_GetSendInterface_def BSocksClient_GetRecvInterface_def)
      moreover have "filter own ([Connect False] @ ues) = []" using r(3) by simp
      ultimately show ?thesis using r(2) f by blast
    qed
  qed (use inv sk live was_up in \<open>auto simp: su_inv_def intro!: exI [of _ "[]"] follows_none\<close>)
  then show ?thesis using st(1) by blast
qed

text \<open>A step of the gateway client: only the decoder's error calls back into the connection.\<close>

lemma udpgw_calls_quiet:
  assumes "Server_error \<notin> set os"
  shows "\<exists>os'. udpgw_calls su os = Some (su, os')"
  using assms by (induction os) (auto split: udpgw_action.splits)

lemma ct_step_no_error:
  "ct_step t i = Some (t', os) \<Longrightarrow> i \<noteq> Decoder_error \<Longrightarrow> Server_error \<notin> set os"
  by (cases i) (auto simp: ct_step_def ct_submit_def ct_first_def ct_recv_def ct_send_def free_server_def Let_def
      split: option.splits list.splits if_splits prod.splits)

lemma ct_step_server:
  "ct_step t i = Some (t', os) \<Longrightarrow> (case i of Connect ok \<Rightarrow> False | Disconnect \<Rightarrow> False | _ \<Rightarrow> True) \<Longrightarrow>
   ct_server t' = ct_server t"
  by (cases i) (auto simp: ct_step_def ct_submit_def ct_first_def ct_recv_def ct_touch_def Let_def
      split: option.splits list.splits if_splits prod.splits)

lemma udpgw_calls_visible:
  assumes "Server_error \<notin> set uos" "udpgw_calls su uos = Some (su', os)"
  shows "concat (map visible os) = filter (\<lambda>a. a \<noteq> Server_error) uos"
  using assms
  by (induction uos arbitrary: su os) (auto simp: bind_eq_Some_conv udpgw_handler_received_def split: udpgw_action.splits)

lemma su_inv_client:
  assumes "su_inv su" "ug_inv g" "ug_have_server g = ug_have_server (su_udpgw_client su)"
  shows "su_inv (su\<lparr>su_udpgw_client := g\<rparr>)"
  using assms by (auto simp: su_inv_def split: option.splits)

lemma udpgw_step_ok:
  assumes inv: "su_inv su" and ok: "su_contract su (Udpgw_ev i)"
  shows "\<exists>su' os ues. su_step su (Udpgw_ev i) = Some (su', os) \<and> su_inv su' \<and> filter own ues = [i] \<and>
    follows (su_udpgw_client su) (su_udpgw_client su') os ues"
proof -
  let ?g = "su_udpgw_client su"
  have uc: "ug_contract ?g i" and ow: "own i" using ok by (cases i; simp add: su_contract_def)+
  obtain g uos where g: "ug_step ?g i = Some (g, uos)" "ug_inv g" "ct_step (table_of ?g) i = Some (table_of g, uos)"
    using ug_step_refines [OF _ uc] inv by (auto simp: su_inv_def)
  show ?thesis
  proof (cases "i = Decoder_error")
    case True
    then have d: "g = ?g" "uos = [Server_error]" "ug_have_server ?g"
      using g(1) uc by (auto simp: ug_step_def decoder_handler_error_def ug_contract_def)
    then obtain sk es os where sk: "su_socks_client su = Some sk" "su_socks_up su"
        "sc_ok (su_auth_info su) (su_remote_udpgw_addr su) sk es os"
      using inv by (auto simp: su_inv_def socks_live_def split: option.splits)
    then obtain su' os' ues where r: "free_and_retry su = Some (su', os')" "su_inv su'" "filter own ues = []"
        "follows ?g (su_udpgw_client su') os' ues"
      using free_and_retry_ok [OF sk(1,3)] inv d(3) by (auto simp: su_inv_def)
    have "follows ?g ?g [] [Decoder_error]" by (simp add: follows_def ct_step_def)
    then have "follows ?g (su_udpgw_client su') ([] @ os') ([Decoder_error] @ ues)"
      using r(4) by (rule follows_append)
    moreover have "su_step su (Udpgw_ev i) = Some (su', os')"
      using True g(1) d(1,2) r(1) sk(1,2) by (simp add: su_step_def udpgw_handler_servererror_def)
    moreover have "filter own ([Decoder_error] @ ues) = [i]" using r(3) True by simp
    ultimately show ?thesis using r(2) unfolding append_Nil by blast
  next
    case False
    have ne: "Server_error \<notin> set uos" using ct_step_no_error [OF g(3) False] .
    have same: "ug_have_server g = ug_have_server ?g"
      using ct_step_server [OF g(3)] ow by (cases i) (simp_all add: table_of_def)
    have "\<exists>os. su_step su (Udpgw_ev i) = Some (su\<lparr>su_udpgw_client := g\<rparr>, os) \<and>
        concat (map visible os) = filter (\<lambda>a. a \<noteq> Server_error) uos"
    proof (cases "\<exists>l r dns data mem flow_ok room. i = Submit l r dns data mem flow_ok room")
      case True
      moreover have "filter (\<lambda>a. a \<noteq> Server_error) uos = uos" using ne by (auto simp: filter_id_conv)
      ultimately show ?thesis using g(1)
        by (auto simp: su_step_def SocksUdpGwClient_SubmitPacket_def ug_step_def)
    next
      case False
      obtain os where os: "udpgw_calls (su\<lparr>su_udpgw_client := g\<rparr>) uos = Some (su\<lparr>su_udpgw_client := g\<rparr>, os)"
        using udpgw_calls_quiet [OF ne] by blast
      then have "su_step su (Udpgw_ev i) = Some (su\<lparr>su_udpgw_client := g\<rparr>, os)"
        using False g(1) by (cases i) (simp_all add: su_step_def)
      then show ?thesis using udpgw_calls_visible [OF ne os] by blast
    qed
    then obtain os where "su_step su (Udpgw_ev i) = Some (su\<lparr>su_udpgw_client := g\<rparr>, os)"
      "follows ?g g os [i]" using follows_one [OF g(3)] by blast
    then show ?thesis using su_inv_client [OF inv g(2) same] ow
      by (intro exI [of _ "su\<lparr>su_udpgw_client := g\<rparr>"] exI [of _ os] exI [of _ "[i]"]) simp
  qed
qed

lemma su_step_ok:
  assumes inv: "su_inv su" and ok: "su_contract su e"
  shows "\<exists>su' os ues. su_step su e = Some (su', os) \<and> su_inv su' \<and> filter own ues = gateway_event e \<and>
    follows (su_udpgw_client su) (su_udpgw_client su') os ues"
proof (cases e)
  case (Udpgw_ev i)
  then show ?thesis using udpgw_step_ok [OF inv] ok by simp
next
  case (Socks_ev i decoder_ok)
  then obtain sk where sk: "su_socks_client su = Some sk" "sc_contract sk i"
    using ok by (auto simp: su_contract_def split: option.splits)
  obtain sk' os su' os' ues where "sc_step sk i = Some (sk', os)" "su_inv su'" "filter own ues = []"
    "socks_calls (su\<lparr>su_socks_client := Some sk'\<rparr>) decoder_ok os = Some (su', os')"
    "follows (su_udpgw_client su) (su_udpgw_client su') os' ues"
    using socks_calls_ok [OF inv sk, of decoder_ok] by blast
  then show ?thesis using Socks_ev sk(1)
    by (intro exI [of _ su'] exI [of _ os'] exI [of _ ues]) (simp add: su_step_def)
next
  case (Timer connector_ok)
  then have n: "su_socks_client su = None" using inv ok by (auto simp: su_inv_def su_contract_def split: option.splits)
  obtain su' os where "try_connect (su\<lparr>su_reconnect_timer := False\<rparr>) connector_ok = Some (su', os)" "su_inv su'"
      "su_udpgw_client su' = su_udpgw_client su"
    using try_connect_ok [of "su\<lparr>su_reconnect_timer := False\<rparr>" connector_ok] n inv by (auto simp: su_inv_def)
  moreover have "concat (map visible os) = []"
    using calculation(1) by (auto simp: try_connect_def bind_eq_Some_conv split: option.splits)
  ultimately show ?thesis using Timer n follows_none
    by (intro exI [of _ su'] exI [of _ os] exI [of _ "[]"]) (simp add: su_step_def reconnect_timer_handler_def)
qed

text \<open>The invariant with the history since the gateway client was \<open>g0\<close>.\<close>

definition su_traced :: "udpgw_client \<Rightarrow> socks_udpgw \<Rightarrow> su_event list \<Rightarrow> su_action list \<Rightarrow> bool" where
  "su_traced g0 su es os \<longleftrightarrow> su_inv su \<and>
     (\<exists>ues. filter own ues = concat (map gateway_event es) \<and> follows g0 (su_udpgw_client su) os ues)"

interpretation gateway: traced_machine su_step su_contract "su_traced g0" for g0
proof
  fix su es os e assume t: "su_traced g0 su es os" and ok: "su_contract su e"
  then obtain ues where u: "su_inv su" "filter own ues = concat (map gateway_event es)"
    "follows g0 (su_udpgw_client su) os ues" by (auto simp: su_traced_def)
  obtain su' os' ues' where s: "su_step su e = Some (su', os')" "su_inv su'" "filter own ues' = gateway_event e"
    "follows (su_udpgw_client su) (su_udpgw_client su') os' ues'"
    using su_step_ok [OF u(1) ok] by blast
  have "filter own (ues @ ues') = concat (map gateway_event (es @ [e]))" using u(2) s(3) by simp
  then have "su_traced g0 su' (es @ [e]) (os @ os')"
    using s(2) follows_append [OF u(3) s(4)] unfolding su_traced_def by blast
  then show "\<exists>su' os'. su_step su e = Some (su', os') \<and> su_traced g0 su' (es @ [e]) (os @ os')" using s(1) by blast
qed

section \<open>Properties\<close>

lemma socks_udpgw_init:
  assumes "SocksUdpGwClient_Init udp_mtu maxc sbs server auths remote True connector_ok = Some (Some (su, os))"
    and "udp_mtu \<le> INT_MAX" "addr_ok remote"
  shows "su_inv su" "table_of (su_udpgw_client su) =
    \<lparr>ct_udp_mtu = udp_mtu, ct_max = min maxc 65536, ct_entries = [], ct_next = 0, ct_keepalive = False, ct_server = False\<rparr>"
proof -
  let ?s = "\<lambda>g. \<lparr>su_socks_server_addr = server, su_auth_info = auths, su_remote_udpgw_addr = remote,
    su_udpgw_client = g, su_reconnect_timer = False, su_socks_client = None, su_socks_up = False\<rparr>"
  obtain g where g: "UdpGwClient_Init udp_mtu maxc sbs True = Some (Some g)"
    "try_connect (?s g) connector_ok = Some (su, os)" "\<not> BAddr_IsInvalid server"
    using assms(1) by (auto simp: SocksUdpGwClient_Init_def bind_eq_Some_conv split: option.splits)
  have "valid_args auths remote" using g(2) assms(3)
    by (auto simp: try_connect_def BSocksClient_Init_def valid_args_def bind_eq_Some_conv
        SOCKS_METHOD_NO_AUTHENTICATION_REQUIRED_def SOCKS_METHOD_USERNAME_PASSWORD_def)
  moreover have "\<not> ug_have_server g" using udpgw_init(2) [OF g(1) assms(2)] by (simp add: table_of_def)
  ultimately show "su_inv su" "table_of (su_udpgw_client su) =
    \<lparr>ct_udp_mtu = udp_mtu, ct_max = min maxc 65536, ct_entries = [], ct_next = 0, ct_keepalive = False, ct_server = False\<rparr>"
    using try_connect_ok [of "?s g" connector_ok] udpgw_init [OF g(1) assms(2)] g(2,3) by auto
qed

lemma socks_udpgw_run:
  assumes "SocksUdpGwClient_Init udp_mtu maxc sbs server auths remote True connector_ok = Some (Some (su, os0))"
    and "udp_mtu \<le> INT_MAX" "addr_ok remote" "admissible su_contract su_step su es"
  obtains su' os where "run su_step su es = Some (su', os)" "su_traced (su_udpgw_client su) su' es os"
proof -
  have "su_traced (su_udpgw_client su) su [] []"
    using socks_udpgw_init(1) [OF assms(1-3)]
    by (auto simp: su_traced_def intro!: exI [of _ "[]"] follows_none)
  then show ?thesis using gateway.run_traced assms(4) that by fastforce
qed

text \<open>C2. The gateway client over SOCKS is the connection table, across all reconnections. From its
  initialisation on, whatever the SOCKS client, the gateway client, the timer and the memory do
  within their contracts, no assertion of the three components fails; the datagrams delivered and
  the packets written are those of the least-recently-used table that is given the same events, with
  connections to and disconnections from the server in between, so no connection is lost by a
  reconnect. The component never stops trying: it has a SOCKS client or the timer is running, not
  both; and the gateway client has a server exactly while the SOCKS client is up.\<close>
theorem socks_udpgw_is_table:
  assumes "SocksUdpGwClient_Init udp_mtu maxc sbs server auths remote True connector_ok = Some (Some (su, os0))"
    and "udp_mtu \<le> INT_MAX" "addr_ok remote" "admissible su_contract su_step su es"
  shows "\<exists>su' os ues uos. run su_step su es = Some (su', os) \<and>
    filter own ues = concat (map gateway_event es) \<and>
    run ct_step \<lparr>ct_udp_mtu = udp_mtu, ct_max = min maxc 65536, ct_entries = [], ct_next = 0,
       ct_keepalive = False, ct_server = False\<rparr> ues = Some (table_of (su_udpgw_client su'), uos) \<and>
    concat (map visible os) = filter (\<lambda>a. a \<noteq> Server_error) uos \<and>
    su_reconnect_timer su' = (su_socks_client su' = None) \<and>
    ug_have_server (su_udpgw_client su') = (map_option sc_state (su_socks_client su') = Some STATE_UP)"
proof -
  obtain su' os where r: "run su_step su es = Some (su', os)" "su_traced (su_udpgw_client su) su' es os"
    using socks_udpgw_run [OF assms] .
  then obtain ues uos where "filter own ues = concat (map gateway_event es)"
    "run ct_step (table_of (su_udpgw_client su)) ues = Some (table_of (su_udpgw_client su'), uos)"
    "concat (map visible os) = filter (\<lambda>a. a \<noteq> Server_error) uos"
    by (auto simp: su_traced_def follows_def)
  moreover have "su_reconnect_timer su' = (su_socks_client su' = None) \<and>
    ug_have_server (su_udpgw_client su') = (map_option sc_state (su_socks_client su') = Some STATE_UP)"
    using r(2) by (auto simp: su_traced_def su_inv_def split: option.splits)
  ultimately show ?thesis using r(1) socks_udpgw_init(2) [OF assms(1-3)] by auto
qed

definition sample_su :: socks_udpgw where
  "sample_su = \<lparr>su_socks_server_addr = BADDR_IPV4 9 9, su_auth_info = [BSocksClient_auth_none],
     su_remote_udpgw_addr = BADDR_IPV4 1 2, su_udpgw_client = sample_client, su_reconnect_timer = False,
     su_socks_client = Some sample_socks, su_socks_up = False\<rparr>"

text \<open>The SOCKS client comes up, a packet is submitted and sent, the decoder fails, and the timer expires.\<close>

definition sample_su_events :: "su_event list" where
  "sample_su_events = map (\<lambda>i. Socks_ev i True) sample_dialogue @
     [Udpgw_ev (Submit (BADDR_IPV4 1 2) (BADDR_IPV4 3 4) True [7] (Some 5) True True),
      Udpgw_ev (First_job 5 True), Udpgw_ev Decoder_error, Timer True]"

lemma sample_su_init:
  "SocksUdpGwClient_Init 100 2 8 (BADDR_IPV4 9 9) [BSocksClient_auth_none] (BADDR_IPV4 1 2) True True =
     Some (Some (sample_su, [Socks_started]))"
  using sample_socks_init
  by (simp add: SocksUdpGwClient_Init_def sample_run(1) try_connect_def sample_su_def BAddr_IsInvalid_def baddr_types)

declare find_unused_loop.simps [code]

lemma sample_su_admissible: "admissible su_contract su_step sample_su sample_su_events"
  by code_simp

lemma sample_su_run:
  "map_option (\<lambda>x. (ug_connections_list (su_udpgw_client (fst x)), su_socks_client (fst x) \<noteq> None))
     (run su_step sample_su sample_su_events) = Some ([5], True)"
  by code_simp

theorem socks_udpgw_is_table_witness:
  "\<exists>su os ues uos t. run su_step sample_su sample_su_events = Some (su, os) \<and>
    run ct_step t ues = Some (table_of (su_udpgw_client su), uos) \<and> ug_connections_list (su_udpgw_client su) = [5] \<and>
    \<not> su_reconnect_timer su"
  using socks_udpgw_is_table [OF sample_su_init _ _ sample_su_admissible] sample_su_run by fastforce



end
