(* ===== verification/Tun_Udp.thy ===== *)
theory Tun_Udp
  imports Inet_Proto Udpgw_Client
begin

text \<open>
  The packet path of tun2socks/tun2socks.c: packets read from the device (UDP is taken out and
  handed to the UDP gateway client, everything else goes to lwIP), datagrams from the gateway written
  to the device as IP packets, and lwIP's output. The program's global variables that this code
  reads are the record \<open>tun_config\<close>; \<open>device_write_buf\<close> is an argument and a result. What lwIP
  answers is an argument.
\<close>

text \<open>The options are those read here: whether a gateway address and an IPv6 interface address were
  given, and the two DNS flags. The MTU is what \<open>BTap_GetMTU\<close> returns.\<close>

record tun_config =
  opt_udpgw_remote_server_addr :: bool
  opt_netif_ip6addr :: bool
  opt_udpgw_transparent_dns :: bool
  opt_udpgw_dns_only :: bool
  tun_netif_ipv4 :: u32
  tun_udp_mtu :: int
  tun_device_mtu :: int
  tun_quitting :: bool

section \<open>From the device\<close>

text \<open>What becomes of a packet: return value 0, return value 1 without a submission (the DNS-only
  drop), and return value 1 after \<open>SocksUdpGwClient_SubmitPacket\<close>.\<close>

datatype udp_verdict = Not_taken | Dropped | Submitted baddr baddr bool "byte list"

text \<open>The checks after the addresses are known.\<close>

definition submit_device_udp :: "tun_config \<Rightarrow> baddr \<Rightarrow> baddr \<Rightarrow> u16 \<Rightarrow> bool \<Rightarrow> byte list \<Rightarrow> udp_verdict" where
  "submit_device_udp g local_addr remote_addr dest_port_net is_dns data =
     (if opt_udpgw_dns_only g \<and> dest_port_net \<noteq> hton16 53 then Dropped
      else if int (length data) > tun_udp_mtu g then Not_taken
      else Submitted local_addr remote_addr is_dns data)"

definition device_udp4 :: "tun_config \<Rightarrow> byte list \<Rightarrow> udp_verdict option" where
  "device_udp4 g data =
     (if length data < sizeof_ipv4_header \<or> data ! 9 \<noteq> IPV4_PROTOCOL_UDP then Some Not_taken else do {
        ip \<leftarrow> ipv4_check data;
        case ip of None \<Rightarrow> Some Not_taken
        | Some (iph, data) \<Rightarrow>
            (case udp_check data of None \<Rightarrow> Some Not_taken
             | Some (udph, data) \<Rightarrow> do {
                 let checksum_in_packet = udp_checksum_field udph;
                 let udph = udph\<lparr>udp_checksum_field := 0\<rparr>;
                 checksum_computed \<leftarrow> udp_checksum udph data (of_nat (length data))
                   (ip4_source_address iph) (ip4_destination_address iph);
                 if checksum_in_packet \<noteq> checksum_computed then Some Not_taken else
                 Some (submit_device_udp g
                   (BAddr_MakeIPv4 (ip4_source_address iph) (udp_source_port udph))
                   (BAddr_MakeIPv4 (ip4_destination_address iph) (udp_dest_port udph))
                   (udp_dest_port udph)
                   (opt_udpgw_transparent_dns g \<and> ip4_destination_address iph = tun_netif_ipv4 g \<and>
                    udp_dest_port udph = hton16 53)
                   data)
               })
      })"

definition device_udp6 :: "tun_config \<Rightarrow> byte list \<Rightarrow> udp_verdict option" where
  "device_udp6 g data =
     (if \<not> opt_netif_ip6addr g then Some Not_taken else
      if length data < sizeof_ipv6_header \<or> data ! 6 \<noteq> IPV6_NEXT_UDP then Some Not_taken else
      case ipv6_check data of None \<Rightarrow> Some Not_taken
      | Some (iph, data) \<Rightarrow>
          (case udp_check data of None \<Rightarrow> Some Not_taken
           | Some (udph, data) \<Rightarrow> do {
               let checksum_in_packet = udp_checksum_field udph;
               let udph = udph\<lparr>udp_checksum_field := 0\<rparr>;
               checksum_computed \<leftarrow> udp_ip6_checksum udph data (of_nat (length data))
                 (ip6_source_address iph) (ip6_destination_address iph);
               if checksum_in_packet \<noteq> checksum_computed then Some Not_taken else
               Some (submit_device_udp g
                 (BAddr_MakeIPv6 (ip6_source_address iph) (udp_source_port udph))
                 (BAddr_MakeIPv6 (ip6_destination_address iph) (udp_dest_port udph))
                 (udp_dest_port udph) False data)
             }))"

definition process_device_udp_packet :: "tun_config \<Rightarrow> byte list \<Rightarrow> udp_verdict option" where
  "process_device_udp_packet g data =
     (if \<not> opt_udpgw_remote_server_addr g then Some Not_taken else
      let ip_version = (case data of [] \<Rightarrow> 0 | b # _ \<Rightarrow> drop_bit 4 b) in
      if ip_version = 4 then device_udp4 g data
      else if ip_version = 6 then device_udp6 g data
      else Some Not_taken)"

text \<open>The calls made on the rest of the program.\<close>

datatype tun_action =
  Read_done
| Submit_udp baddr baddr bool "byte list"
| Netif_input "byte list"
| Pbuf_free
| Tap_send "byte list"
| Ip_input "byte list"
| Ip6_input "byte list"

text \<open>\<open>alloc_ok\<close> and \<open>input_ok\<close> are the results of \<open>pbuf_alloc\<close> and \<open>netif.input\<close>.\<close>

definition device_read_handler_send ::
  "tun_config \<Rightarrow> byte list \<Rightarrow> bool \<Rightarrow> bool \<Rightarrow> tun_action list option" where
  "device_read_handler_send g data alloc_ok input_ok = do {
     assert_that (\<not> tun_quitting g);
     v \<leftarrow> process_device_udp_packet g data;
     case v of
       Submitted l r is_dns payload \<Rightarrow> Some [Read_done, Submit_udp l r is_dns payload]
     | Dropped \<Rightarrow> Some [Read_done]
     | Not_taken \<Rightarrow>
         if length data > 65535 then Some [Read_done]
         else if \<not> alloc_ok then Some [Read_done]
         else Some ([Read_done, Netif_input data] @ (if input_ok then [] else [Pbuf_free]))
   }"

text \<open>\<open>p->payload\<close> of the packet buffer given to \<open>netif_input_func\<close> is its first chunk.\<close>

definition netif_input_func :: "tun_config \<Rightarrow> byte list \<Rightarrow> tun_action list" where
  "netif_input_func g p =
     (let ip_version = (case p of [] \<Rightarrow> 0 | b # _ \<Rightarrow> drop_bit 4 b) in
      if ip_version = (4 :: byte) then [Ip_input p]
      else if ip_version = 6 \<and> opt_netif_ip6addr g then [Ip6_input p]
      else [Pbuf_free])"

section \<open>To the device\<close>

text \<open>\<open>BTap_Send\<close> with its assertion, and \<open>memcpy\<close> into \<open>device_write_buf\<close>, which must stay inside
  the array.\<close>

definition tap_send :: "tun_config \<Rightarrow> byte list \<Rightarrow> tun_action list option" where
  "tap_send g data = do {
     assert_that (int (length data) \<le> tun_device_mtu g);
     Some [Tap_send data]
   }"

definition write_buf :: "byte list \<Rightarrow> nat \<Rightarrow> byte list \<Rightarrow> byte list option" where
  "write_buf buf off bs = do {
     assert_that (off + length bs \<le> length buf);
     Some (blit off bs buf)
   }"

text \<open>The loop over the chunks of a packet buffer; the inner option is the way out when the
  chunk does not fit.\<close>

primrec output_chunks ::
  "tun_config \<Rightarrow> byte list \<Rightarrow> nat \<Rightarrow> byte list list \<Rightarrow> (byte list \<times> nat option) option" where
  "output_chunks g buf len [] = Some (buf, Some len)"
| "output_chunks g buf len (p # ps) =
     (if int (length p) > tun_device_mtu g - int len then Some (buf, None) else do {
        buf \<leftarrow> write_buf buf len p;
        output_chunks g buf (len + length p) ps
      })"

definition common_netif_output ::
  "tun_config \<Rightarrow> byte list \<Rightarrow> byte list list \<Rightarrow> (byte list \<times> tun_action list) option" where
  "common_netif_output g buf ps =
     (if tun_quitting g then Some (buf, []) else
      case ps of
        [] \<Rightarrow> None
      | [p] \<Rightarrow>
          if int (length p) > tun_device_mtu g then Some (buf, [])
          else do { os \<leftarrow> tap_send g p; Some (buf, os) }
      | _ \<Rightarrow> do {
          (buf, len) \<leftarrow> output_chunks g buf 0 ps;
          case len of None \<Rightarrow> Some (buf, [])
          | Some len \<Rightarrow> do { os \<leftarrow> tap_send g (take len buf); Some (buf, os) }
        })"

text \<open>The headers of a datagram from the gateway.\<close>

definition reply_ipv4_header :: "u32 \<Rightarrow> u32 \<Rightarrow> nat \<Rightarrow> ipv4_header option" where
  "reply_ipv4_header source dest data_len = do {
     let iph = \<lparr>ip4_version4_ihl4 = IPV4_MAKE_VERSION_IHL sizeof_ipv4_header, ip4_ds = hton8 0,
       ip4_total_length = hton16 (of_nat (sizeof_ipv4_header + sizeof_udp_header + data_len)),
       ip4_identification = hton16 0, ip4_flags3_fragmentoffset13 = hton16 0,
       ip4_ttl = hton8 64, ip4_protocol = hton8 IPV4_PROTOCOL_UDP, ip4_checksum = hton16 0,
       ip4_source_address = source, ip4_destination_address = dest\<rparr>;
     c \<leftarrow> ipv4_checksum iph [] 0;
     Some (iph\<lparr>ip4_checksum := c\<rparr>)
   }"

definition reply_ipv6_header :: "byte list \<Rightarrow> byte list \<Rightarrow> nat \<Rightarrow> ipv6_header" where
  "reply_ipv6_header source dest data_len =
     \<lparr>ip6_version4_tc4 = hton8 (push_bit 4 6), ip6_tc4_fl4 = hton8 0, ip6_fl = hton16 0,
      ip6_payload_length = hton16 (of_nat (sizeof_udp_header + data_len)),
      ip6_next_header = hton8 IPV6_NEXT_UDP, ip6_hop_limit = hton8 64,
      ip6_source_address = source, ip6_destination_address = dest\<rparr>"

definition reply_udp_header :: "u16 \<Rightarrow> u16 \<Rightarrow> nat \<Rightarrow> udp_header" where
  "reply_udp_header source_port dest_port data_len =
     \<lparr>udp_source_port = source_port, udp_dest_port = dest_port,
      udp_length = hton16 (of_nat (sizeof_udp_header + data_len)), udp_checksum_field = hton16 0\<rparr>"

text \<open>Writing the packet and submitting it to the device.\<close>

definition write_reply ::
  "tun_config \<Rightarrow> byte list \<Rightarrow> byte list \<Rightarrow> byte list \<Rightarrow> byte list \<Rightarrow> (byte list \<times> tun_action list) option" where
  "write_reply g buf iph udph data = do {
     buf \<leftarrow> write_buf buf 0 iph;
     buf \<leftarrow> write_buf buf (length iph) udph;
     buf \<leftarrow> write_buf buf (length iph + length udph) data;
     os \<leftarrow> tap_send g (take (length iph + length udph + length data) buf);
     Some (buf, os)
   }"

definition udpgw_client_handler_received ::
  "tun_config \<Rightarrow> byte list \<Rightarrow> baddr \<Rightarrow> baddr \<Rightarrow> byte list \<Rightarrow> (byte list \<times> tun_action list) option" where
  "udpgw_client_handler_received g buf local_addr remote_addr data = do {
     assert_that (opt_udpgw_remote_server_addr g);
     let data_len = int (length data);
     case (local_addr, remote_addr) of
       (BADDR_IPV4 local_ip local_port, BADDR_IPV4 remote_ip remote_port) \<Rightarrow>
         if data_len > 65535 - (20 + 8) \<or> data_len > tun_device_mtu g - (20 + 8) then Some (buf, []) else do {
           iph \<leftarrow> reply_ipv4_header remote_ip local_ip (length data);
           let udph = reply_udp_header remote_port local_port (length data);
           c \<leftarrow> udp_checksum udph data (of_nat (length data)) (ip4_source_address iph) (ip4_destination_address iph);
           write_reply g buf (ipv4_header_bytes iph) (udp_header_bytes (udph\<lparr>udp_checksum_field := c\<rparr>)) data
         }
     | (BADDR_IPV6 local_ip local_port, BADDR_IPV6 remote_ip remote_port) \<Rightarrow>
         if \<not> opt_netif_ip6addr g then Some (buf, []) else
         if data_len > 65535 - 8 \<or> data_len > tun_device_mtu g - (40 + 8) then Some (buf, []) else do {
           let iph = reply_ipv6_header remote_ip local_ip (length data);
           let udph = reply_udp_header remote_port local_port (length data);
           c \<leftarrow> udp_ip6_checksum udph data (of_nat (length data)) (ip6_source_address iph) (ip6_destination_address iph);
           write_reply g buf (ipv6_header_bytes iph) (udp_header_bytes (udph\<lparr>udp_checksum_field := c\<rparr>)) data
         }
     | _ \<Rightarrow> None
   }"

section \<open>MTU\<close>

text \<open>The largest UDP payload \<open>run\<close> passes to the gateway; \<open>None\<close> where it gives up.\<close>

definition run_udp_mtu :: "int \<Rightarrow> bool \<Rightarrow> int option" where
  "run_udp_mtu device_mtu netif_ip6addr =
     (let udp_mtu = device_mtu - (20 + 8);
          udp_mtu = (if netif_ip6addr then
                       let udp_ip6_mtu = device_mtu - (40 + 8) in
                       if udp_mtu < udp_ip6_mtu then udp_ip6_mtu else udp_mtu
                     else udp_mtu);
          udp_mtu = (if udp_mtu < 0 then 0 else udp_mtu);
          udpgw_mtu = udpgw_compute_mtu udp_mtu in
      if udpgw_mtu < 0 \<or> udpgw_mtu > int PACKETPROTO_MAXPAYLOAD then None else Some udp_mtu)"

section \<open>Writing\<close>

lemma write_buf_take:
  assumes "off + length bs \<le> length buf"
  shows "\<exists>buf'. write_buf buf off bs = Some buf' \<and> length buf' = length buf \<and>
    take (off + length bs) buf' = take off buf @ bs"
  using assms by (intro exI [of _ "blit off bs buf"]) (auto simp: write_buf_def blit_def)

lemma write_reply_sends:
  assumes buf: "int (length buf) = tun_device_mtu g"
    and fits: "length iph + length udph + length data \<le> length buf"
  shows "\<exists>buf'. write_reply g buf iph udph data = Some (buf', [Tap_send (iph @ udph @ data)]) \<and>
    length buf' = length buf"
proof -
  obtain b1 where b1: "write_buf buf 0 iph = Some b1" "length b1 = length buf" "take (length iph) b1 = iph"
    using write_buf_take [of 0 iph buf] fits by auto
  obtain b2 where b2: "write_buf b1 (length iph) udph = Some b2" "length b2 = length buf"
      "take (length iph + length udph) b2 = iph @ udph"
    using write_buf_take [of "length iph" udph b1] fits b1 by auto
  obtain b3 where b3: "write_buf b2 (length iph + length udph) data = Some b3" "length b3 = length buf"
      "take (length iph + length udph + length data) b3 = iph @ udph @ data"
    using write_buf_take [of "length iph + length udph" data b2] fits b2 by auto
  show ?thesis
    using b1(1) b2(1) b3 fits buf by (simp add: write_reply_def tap_send_def)
qed

lemma output_chunks_eq:
  assumes "int (length buf) = tun_device_mtu g" "len \<le> length buf"
  shows "\<exists>buf'. output_chunks g buf len ps =
      Some (buf', if len + length (concat ps) \<le> length buf then Some (len + length (concat ps)) else None) \<and>
    length buf' = length buf \<and>
    (len + length (concat ps) \<le> length buf \<longrightarrow>
       take (len + length (concat ps)) buf' = take len buf @ concat ps)"
  using assms
proof (induction ps arbitrary: buf len)
  case (Cons p ps)
  show ?case
  proof (cases "len + length p \<le> length buf")
    case True
    obtain b where b: "write_buf buf len p = Some b" "length b = length buf"
        "take (len + length p) b = take len buf @ p"
      using write_buf_take [OF True] by blast
    show ?thesis
      using Cons.IH [of b "len + length p"] True Cons.prems b by (auto simp: add.assoc)
  next
    case False
    then show ?thesis using Cons.prems by auto
  qed
qed simp

section \<open>Headers the program writes are headers it accepts\<close>

lemma make_version_ihl: "IPV4_MAKE_VERSION_IHL 20 = 0x45"
  by (simp add: IPV4_MAKE_VERSION_IHL_def)

lemma unat_ntoh16_of_nat: "n < 65536 \<Longrightarrow> unat (ntoh16 (hton16 (of_nat n))) = n"
  by (simp add: unat_of_nat_small)

lemma add_be16_none [simp]: "add_be16 bs 0 t = t"
  by (simp add: add_be16_def)

lemma ipv4_checksum_total: "\<exists>c. ipv4_checksum h [] 0 = Some c"
  by (simp add: ipv4_checksum_def)

lemma ipv4_checksum_no_extra: "ipv4_checksum h bs 0 = ipv4_checksum h [] 0"
  by (simp add: ipv4_checksum_def Let_def)

lemma reply_ipv4_header_fields:
  assumes "reply_ipv4_header src dst n = Some h"
  shows "ip4_version4_ihl4 h = 0x45" "ip4_total_length h = hton16 (of_nat (28 + n))"
    "ip4_protocol h = 17" "ip4_source_address h = src" "ip4_destination_address h = dst"
    "ipv4_checksum (h\<lparr>ip4_checksum := hton16 0\<rparr>) bs 0 = Some (ip4_checksum h)"
  using assms
  by (auto simp: reply_ipv4_header_def Let_def bind_eq_Some_conv make_version_ihl hton8_def
      IPV4_PROTOCOL_UDP_def ipv4_checksum_no_extra [of _ bs])

lemma reply_ipv4_check:
  assumes h: "reply_ipv4_header src dst n = Some h" and n: "n \<le> 65507" and rest: "length rest = 8 + n"
  shows "ipv4_check (ipv4_header_bytes h @ rest) = Some (Some (h, rest))"
proof -
  note f = reply_ipv4_header_fields [OF h]
  have "IPV4_GET_VERSION h = 4" "unat (IPV4_GET_IHL h) = 5"
    by (simp_all add: IPV4_GET_VERSION_def IPV4_GET_IHL_def f(1))
  moreover have "unat (ntoh16 (ip4_total_length h)) = 28 + n"
    unfolding f(2) using n by (intro unat_ntoh16_of_nat) simp
  ultimately show ?thesis
    using rest f(6) by (simp add: ipv4_check_def Let_def seg_def)
qed

lemma reply_ipv6_check:
  assumes "length src = 16" "length dst = 16" "n \<le> 65527" "length rest = 8 + n"
  shows "ipv6_check (ipv6_header_bytes (reply_ipv6_header src dst n) @ rest) =
    Some (reply_ipv6_header src dst n, rest)"
proof -
  let ?h = "reply_ipv6_header src dst n"
  have s: "ip6_source_address ?h = src" "ip6_destination_address ?h = dst"
    "ip6_version4_tc4 ?h = 0x60" "ip6_payload_length ?h = hton16 (of_nat (8 + n))"
    by (simp_all add: reply_ipv6_header_def hton8_def)
  have "unat (ntoh16 (ip6_payload_length ?h)) = 8 + n"
    unfolding s(4) using assms(3) by (intro unat_ntoh16_of_nat) simp
  then show ?thesis
    using assms s by (simp add: ipv6_check_def Let_def seg_def ntoh8_def hton8_def)
qed

lemma reply_udp_check:
  assumes "length data \<le> 65527"
  shows "udp_check (udp_header_bytes (reply_udp_header sp dp (length data)\<lparr>udp_checksum_field := c\<rparr>) @ data) =
    Some (reply_udp_header sp dp (length data)\<lparr>udp_checksum_field := c\<rparr>, data)"
proof -
  have "unat (ntoh16 (udp_length (reply_udp_header sp dp (length data)\<lparr>udp_checksum_field := c\<rparr>))) = 8 + length data"
    using unat_ntoh16_of_nat [of "8 + length data"] assms by (simp add: reply_udp_header_def)
  then show ?thesis by (simp add: udp_check_def Let_def)
qed

lemma reply_udp_header_zero:
  "reply_udp_header sp dp n\<lparr>udp_checksum_field := 0\<rparr> = reply_udp_header sp dp n"
  by (simp add: reply_udp_header_def)

lemma reply4_accepted:
  assumes n: "length data \<le> 65507"
    and h: "reply_ipv4_header src dst (length data) = Some h"
    and c: "udp_checksum (reply_udp_header sp dp (length data)) data (of_nat (length data)) src dst = Some c"
  shows "device_udp4 g (ipv4_header_bytes h @
      udp_header_bytes (reply_udp_header sp dp (length data)\<lparr>udp_checksum_field := c\<rparr>) @ data) =
    Some (submit_device_udp g (BADDR_IPV4 src sp) (BADDR_IPV4 dst dp) dp
      (opt_udpgw_transparent_dns g \<and> dst = tun_netif_ipv4 g \<and> dp = hton16 53) data)"
proof -
  note f = reply_ipv4_header_fields [OF h]
  let ?u = "reply_udp_header sp dp (length data)\<lparr>udp_checksum_field := c\<rparr>"
  have "ipv4_check (ipv4_header_bytes h @ udp_header_bytes ?u @ data) =
      Some (Some (h, udp_header_bytes ?u @ data))"
    using n by (intro reply_ipv4_check [OF h]) auto
  moreover have "(ipv4_header_bytes h @ udp_header_bytes ?u @ data) ! 9 = 17"
    using f(3) by (simp add: nth_append) (simp add: ipv4_header_bytes_def mem16_def)
  ultimately show ?thesis
    using n c f(4,5) reply_udp_check [where data = data and sp = sp and dp = dp and c = c] reply_udp_header_zero [of sp dp "length data"]
    by (simp add: device_udp4_def IPV4_PROTOCOL_UDP_def BAddr_MakeIPv4_def) (simp add: reply_udp_header_def)
qed

lemma reply6_accepted:
  assumes n: "length data \<le> 65527" and l: "length src = 16" "length dst = 16" and on: "opt_netif_ip6addr g"
    and c: "udp_ip6_checksum (reply_udp_header sp dp (length data)) data (of_nat (length data)) src dst = Some c"
  shows "device_udp6 g (ipv6_header_bytes (reply_ipv6_header src dst (length data)) @
      udp_header_bytes (reply_udp_header sp dp (length data)\<lparr>udp_checksum_field := c\<rparr>) @ data) =
    Some (submit_device_udp g (BADDR_IPV6 src sp) (BADDR_IPV6 dst dp) dp False data)"
proof -
  let ?h = "reply_ipv6_header src dst (length data)"
  let ?u = "reply_udp_header sp dp (length data)\<lparr>udp_checksum_field := c\<rparr>"
  have a: "ip6_source_address ?h = src" "ip6_destination_address ?h = dst"
    by (simp_all add: reply_ipv6_header_def)
  then have len: "length (ipv6_header_bytes ?h) = 40" using l by simp
  have "ipv6_check (ipv6_header_bytes ?h @ udp_header_bytes ?u @ data) =
      Some (?h, udp_header_bytes ?u @ data)"
    using n l by (intro reply_ipv6_check) auto
  moreover have "(ipv6_header_bytes ?h @ udp_header_bytes ?u @ data) ! 6 = 17"
    by (simp add: ipv6_header_bytes_def mem16_def reply_ipv6_header_def hton8_def IPV6_NEXT_UDP_def)
  ultimately show ?thesis
    using n c a on len l reply_udp_check [where data = data and sp = sp and dp = dp and c = c] reply_udp_header_zero [of sp dp "length data"]
    by (simp add: device_udp6_def IPV6_NEXT_UDP_def BAddr_MakeIPv6_def) (simp add: reply_udp_header_def)
qed

lemma process4:
  "opt_udpgw_remote_server_addr g \<Longrightarrow> ip4_version4_ihl4 h = 0x45 \<Longrightarrow>
   process_device_udp_packet g (ipv4_header_bytes h @ bs) = device_udp4 g (ipv4_header_bytes h @ bs)"
  by (simp add: process_device_udp_packet_def ipv4_header_bytes_def)

lemma process6:
  "opt_udpgw_remote_server_addr g \<Longrightarrow> ip6_version4_tc4 h = 0x60 \<Longrightarrow>
   process_device_udp_packet g (ipv6_header_bytes h @ bs) = device_udp6 g (ipv6_header_bytes h @ bs)"
  by (simp add: process_device_udp_packet_def ipv6_header_bytes_def)

lemma reply_udp4:
  assumes on: "opt_udpgw_remote_server_addr g" and buf: "int (length buf) = tun_device_mtu g"
    and fits: "length data + 28 \<le> 65535" "int (length data) + 28 \<le> tun_device_mtu g"
  shows "\<exists>buf' pkt. udpgw_client_handler_received g buf (BADDR_IPV4 lip lp) (BADDR_IPV4 rip rp) data =
      Some (buf', [Tap_send pkt]) \<and> length buf' = length buf \<and> length pkt = length data + 28 \<and>
    (\<forall>g'. opt_udpgw_remote_server_addr g' \<longrightarrow> process_device_udp_packet g' pkt =
       Some (submit_device_udp g' (BADDR_IPV4 rip rp) (BADDR_IPV4 lip lp) lp
         (opt_udpgw_transparent_dns g' \<and> lip = tun_netif_ipv4 g' \<and> lp = hton16 53) data))"
proof -
  let ?u = "reply_udp_header rp lp (length data)"
  obtain h where h: "reply_ipv4_header rip lip (length data) = Some h"
    by (auto simp: reply_ipv4_header_def Let_def bind_eq_Some_conv dest: ipv4_checksum_total [THEN exE]
        intro: that)
      (metis ipv4_checksum_total that)
  note f = reply_ipv4_header_fields [OF h]
  have "unat (of_nat (length data) :: u16) = length data"
    using fits by (intro unat_of_nat_small) simp
  then obtain c where c: "udp_checksum ?u data (of_nat (length data)) rip lip = Some c"
    using udp_checksum_rfc768 [of "of_nat (length data)" data ?u rip lip] by auto
  let ?pkt = "ipv4_header_bytes h @ udp_header_bytes (?u\<lparr>udp_checksum_field := c\<rparr>) @ data"
  obtain buf' where w: "write_reply g buf (ipv4_header_bytes h) (udp_header_bytes (?u\<lparr>udp_checksum_field := c\<rparr>)) data =
      Some (buf', [Tap_send ?pkt])" "length buf' = length buf"
    using write_reply_sends [OF buf, of "ipv4_header_bytes h" "udp_header_bytes (?u\<lparr>udp_checksum_field := c\<rparr>)" data]
      fits buf by auto
  show ?thesis
    using on fits h c w f(1,4,5) reply4_accepted [OF _ h c]
    by (intro exI [of _ buf'] exI [of _ ?pkt])
      (simp add: udpgw_client_handler_received_def Let_def process4)
qed

lemma reply_udp6:
  assumes on: "opt_udpgw_remote_server_addr g" "opt_netif_ip6addr g" and buf: "int (length buf) = tun_device_mtu g"
    and fits: "length data + 8 \<le> 65535" "int (length data) + 48 \<le> tun_device_mtu g"
    and l: "length lip = 16" "length rip = 16"
  shows "\<exists>buf' pkt. udpgw_client_handler_received g buf (BADDR_IPV6 lip lp) (BADDR_IPV6 rip rp) data =
      Some (buf', [Tap_send pkt]) \<and> length buf' = length buf \<and> length pkt = length data + 48 \<and>
    (\<forall>g'. opt_udpgw_remote_server_addr g' \<and> opt_netif_ip6addr g' \<longrightarrow> process_device_udp_packet g' pkt =
       Some (submit_device_udp g' (BADDR_IPV6 rip rp) (BADDR_IPV6 lip lp) lp False data))"
proof -
  let ?u = "reply_udp_header rp lp (length data)" and ?h = "reply_ipv6_header rip lip (length data)"
  have a: "ip6_source_address ?h = rip" "ip6_destination_address ?h = lip" "ip6_version4_tc4 ?h = 0x60"
    by (simp_all add: reply_ipv6_header_def hton8_def)
  then have len: "length (ipv6_header_bytes ?h) = 40" using l by simp
  have "unat (of_nat (length data) :: u16) = length data"
    using fits by (intro unat_of_nat_small) simp
  then obtain c where c: "udp_ip6_checksum ?u data (of_nat (length data)) rip lip = Some c"
    using udp_ip6_checksum_rfc8200 [of "of_nat (length data)" data rip lip ?u] l by auto
  let ?pkt = "ipv6_header_bytes ?h @ udp_header_bytes (?u\<lparr>udp_checksum_field := c\<rparr>) @ data"
  obtain buf' where w: "write_reply g buf (ipv6_header_bytes ?h) (udp_header_bytes (?u\<lparr>udp_checksum_field := c\<rparr>)) data =
      Some (buf', [Tap_send ?pkt])" "length buf' = length buf"
    using write_reply_sends [OF buf, of "ipv6_header_bytes ?h" "udp_header_bytes (?u\<lparr>udp_checksum_field := c\<rparr>)" data]
      fits buf len by auto
  show ?thesis
    using on fits c w a len reply6_accepted [OF _ l(2,1) _ c]
    by (intro exI [of _ buf'] exI [of _ ?pkt])
      (simp add: udpgw_client_handler_received_def Let_def process6)
qed

section \<open>What is submitted\<close>

lemma unat_len_u16: "unat (of_nat n :: u16) \<le> n"
  by (simp add: unsigned_of_nat take_bit_nat_eq_self_iff take_bit_nat_less_eq_self)

lemma device_udp4_total: "\<exists>v. device_udp4 g data = Some v"
proof (cases "ipv4_valid data")
  case True
  let ?p = "seg (ipv4_header_len data) (ipv4_total_len data - ipv4_header_len data) data"
  have "\<exists>c. udp_checksum h payload (of_nat (length payload)) s d = Some c" for h payload s d
    using udp_checksum_rfc768 [of "of_nat (length payload)" payload h s d] unat_len_u16 by blast
  then show ?thesis
    using True by (auto simp: device_udp4_def ipv4_check_accepts Let_def bind_eq_Some_conv split: option.split) metis
qed (simp add: device_udp4_def ipv4_check_accepts)

lemma device_udp6_total: "\<exists>v. device_udp6 g data = Some v"
proof (cases "ipv6_check data")
  case (Some q)
  then obtain iph payload where q: "q = (iph, payload)" "length (ip6_source_address iph) = 16"
      "length (ip6_destination_address iph) = 16"
    by (auto simp: ipv6_check_def Let_def ipv6_header_of_bytes_def split: if_splits)
  have "\<exists>c. udp_ip6_checksum h payload (of_nat (length payload)) (ip6_source_address iph) (ip6_destination_address iph) = Some c" for h payload
    using udp_ip6_checksum_rfc8200 [of "of_nat (length payload)" payload "ip6_source_address iph" "ip6_destination_address iph" h]
      unat_len_u16 q(2,3) by blast
  then show ?thesis
    using Some q by (auto simp: device_udp6_def Let_def bind_eq_Some_conv split: option.split) metis
qed (simp add: device_udp6_def)

lemma process_device_total: "\<exists>v. process_device_udp_packet g data = Some v"
  using device_udp4_total device_udp6_total by (simp add: process_device_udp_packet_def Let_def)

lemma submit_device_udp_submits:
  "submit_device_udp g l r port dns data = Submitted l' r' dns' data' \<longleftrightarrow>
   l' = l \<and> r' = r \<and> dns' = dns \<and> data' = data \<and> int (length data) \<le> tun_udp_mtu g \<and>
   (opt_udpgw_dns_only g \<longrightarrow> port = hton16 53)"
  by (auto simp: submit_device_udp_def)

text \<open>Where the parts of a datagram are in the packet: the addresses of the IP header, the ports at
  the start of the UDP header, and as many bytes after it as its length field says.\<close>

definition udp_payload_at :: "nat \<Rightarrow> byte list \<Rightarrow> byte list" where
  "udp_payload_at pos data = seg (pos + 8) (unat (badvpn_read_be16 (drop (pos + 4) data)) - 8) data"

lemma udp_check_at:
  assumes "udp_check (seg pos n data) = Some (udph, payload)"
  shows "udp_source_port udph = unmem16 (seg pos 2 data)" "udp_dest_port udph = unmem16 (seg (pos + 2) 2 data)"
    "payload = udp_payload_at pos data"
proof -
  let ?d = "seg pos n data"
  have u: "udph = udp_header_of_bytes ?d" "8 \<le> length ?d"
    "payload = take (unat (ntoh16 (udp_length udph)) - 8) (drop 8 ?d)"
    "unat (ntoh16 (udp_length udph)) \<le> length ?d"
    using assms by (auto simp: udp_check_def Let_def split: if_splits)
  have s: "seg off k ?d = seg (pos + off) k data" if "off + k \<le> n" for off k
    using that by (simp add: seg_def drop_take add.commute min_def)
  have n: "8 \<le> n" using u(2) by simp
  show "udp_source_port udph = unmem16 (seg pos 2 data)" "udp_dest_port udph = unmem16 (seg (pos + 2) 2 data)"
    using s [of 0 2] s [of 2 2] n u(1) by (simp_all add: udp_header_of_bytes_def del: seg_0)
  have "udp_length udph = unmem16 (seg (pos + 4) 2 data)"
    using s [of 4 2] n u(1) by (simp add: udp_header_of_bytes_def)
  moreover have "6 \<le> length (drop pos data)" using u(2) by simp
  ultimately have "unat (ntoh16 (udp_length udph)) = unat (badvpn_read_be16 (drop (pos + 4) data))"
    by (simp add: ntoh_be seg_def be16.dec_prefix [of "drop (pos + 4) data"])
  moreover have "payload = seg 8 (unat (ntoh16 (udp_length udph)) - 8) ?d" using u(3) by (simp add: seg_def)
  moreover have "\<dots> = seg (pos + 8) (unat (ntoh16 (udp_length udph)) - 8) data"
    using u(4) n by (cases "unat (ntoh16 (udp_length udph)) \<le> 8") (auto intro!: s)
  ultimately show "payload = udp_payload_at pos data" by (simp add: udp_payload_at_def)
qed

lemma device_udp4_parsed:
  assumes "device_udp4 g data = Some (Submitted l r dns payload)"
  shows "\<exists>udph. ipv4_valid data \<and> data ! 9 = 17 \<and>
    udp_check (seg (ipv4_header_len data) (ipv4_total_len data - ipv4_header_len data) data) = Some (udph, payload) \<and>
    Submitted l r dns payload = submit_device_udp g
      (BADDR_IPV4 (ip4_source_address (ipv4_header_of_bytes data)) (udp_source_port udph))
      (BADDR_IPV4 (ip4_destination_address (ipv4_header_of_bytes data)) (udp_dest_port udph))
      (udp_dest_port udph)
      (opt_udpgw_transparent_dns g \<and> ip4_destination_address (ipv4_header_of_bytes data) = tun_netif_ipv4 g \<and>
       udp_dest_port udph = hton16 53) payload"
proof -
  let ?d = "seg (ipv4_header_len data) (ipv4_total_len data - ipv4_header_len data) data"
  have v: "ipv4_valid data" "data ! 9 = 17"
    using assms by (simp_all add: device_udp4_def ipv4_check_accepts IPV4_PROTOCOL_UDP_def split: if_splits)
  show ?thesis
  proof (cases "udp_check ?d")
    case None
    then show ?thesis using assms v by (simp add: device_udp4_def ipv4_check_accepts split: if_splits)
  next
    case (Some q)
    obtain udph pl where q: "q = (udph, pl)" by (cases q)
    have sub: "Submitted l r dns payload = submit_device_udp g
      (BADDR_IPV4 (ip4_source_address (ipv4_header_of_bytes data)) (udp_source_port udph))
      (BADDR_IPV4 (ip4_destination_address (ipv4_header_of_bytes data)) (udp_dest_port udph))
      (udp_dest_port udph)
      (opt_udpgw_transparent_dns g \<and> ip4_destination_address (ipv4_header_of_bytes data) = tun_netif_ipv4 g \<and>
       udp_dest_port udph = hton16 53) pl"
      using assms v Some q
      by (simp add: device_udp4_def ipv4_check_accepts Let_def bind_eq_Some_conv BAddr_MakeIPv4_def
          split: if_splits)
    then have "pl = payload" by (simp add: submit_device_udp_def split: if_splits)
    with sub v Some q show ?thesis by blast
  qed
qed

lemma device_udp6_parsed:
  assumes "device_udp6 g data = Some (Submitted l r dns payload)"
  shows "\<exists>udph n. opt_netif_ip6addr g \<and> 40 \<le> length data \<and> drop_bit 4 (data ! 0) = 6 \<and> data ! 6 = 17 \<and>
    udp_check (seg 40 n data) = Some (udph, payload) \<and>
    Submitted l r dns payload = submit_device_udp g
      (BADDR_IPV6 (seg 8 16 data) (udp_source_port udph))
      (BADDR_IPV6 (seg 24 16 data) (udp_dest_port udph)) (udp_dest_port udph) False payload"
proof -
  let ?h = "ipv6_header_of_bytes data"
  let ?n = "unat (ntoh16 (ip6_payload_length ?h))"
  have v: "opt_netif_ip6addr g" "40 \<le> length data" "data ! 6 = 17"
    "ipv6_check data = Some (?h, seg 40 ?n data)" "drop_bit 4 (data ! 0) = 6"
    using assms
    by (simp_all add: device_udp6_def ipv6_check_def Let_def IPV6_NEXT_UDP_def split: if_splits)
      (simp add: ipv6_header_of_bytes_def ntoh8_def hton8_def)
  show ?thesis
  proof (cases "udp_check (seg 40 ?n data)")
    case None
    then show ?thesis using assms v by (simp add: device_udp6_def split: if_splits)
  next
    case (Some q)
    obtain udph pl where q: "q = (udph, pl)" by (cases q)
    have sub: "Submitted l r dns payload = submit_device_udp g
      (BADDR_IPV6 (seg 8 16 data) (udp_source_port udph))
      (BADDR_IPV6 (seg 24 16 data) (udp_dest_port udph)) (udp_dest_port udph) False pl"
      using assms v Some q
      by (simp add: device_udp6_def Let_def bind_eq_Some_conv BAddr_MakeIPv6_def ipv6_header_of_bytes_def
          seg_def split: if_splits)
    then have "pl = payload" by (simp add: submit_device_udp_def split: if_splits)
    with sub v Some q show ?thesis by blast
  qed
qed

lemma submitted_limits:
  assumes "Submitted l r dns payload = submit_device_udp g l0 r0 port dns0 data0"
  shows "l = l0" "r = r0" "dns = dns0" "int (length payload) \<le> tun_udp_mtu g"
    "opt_udpgw_dns_only g \<Longrightarrow> port = hton16 53"
  using assms by (simp_all add: submit_device_udp_def split: if_splits)

lemma device_udp4_submits:
  assumes "device_udp4 g data = Some (Submitted l r dns payload)"
  shows "ipv4_valid data \<and> data ! 9 = 17 \<and>
    l = BADDR_IPV4 (unmem32 (seg 12 4 data)) (unmem16 (seg (ipv4_header_len data) 2 data)) \<and>
    r = BADDR_IPV4 (unmem32 (seg 16 4 data)) (unmem16 (seg (ipv4_header_len data + 2) 2 data)) \<and>
    payload = udp_payload_at (ipv4_header_len data) data" (is ?where)
    "int (length payload) \<le> tun_udp_mtu g \<and> (opt_udpgw_dns_only g \<longrightarrow> BAddr_GetPort r = Some (hton16 53)) \<and>
     (dns \<longrightarrow> r = BADDR_IPV4 (tun_netif_ipv4 g) (hton16 53))" (is ?limits)
proof -
  obtain udph where v: "ipv4_valid data" "data ! 9 = 17" and
      c: "udp_check (seg (ipv4_header_len data) (ipv4_total_len data - ipv4_header_len data) data) = Some (udph, payload)" and
      sub: "Submitted l r dns payload = submit_device_udp g
        (BADDR_IPV4 (ip4_source_address (ipv4_header_of_bytes data)) (udp_source_port udph))
        (BADDR_IPV4 (ip4_destination_address (ipv4_header_of_bytes data)) (udp_dest_port udph))
        (udp_dest_port udph)
        (opt_udpgw_transparent_dns g \<and> ip4_destination_address (ipv4_header_of_bytes data) = tun_netif_ipv4 g \<and>
         udp_dest_port udph = hton16 53) payload"
    using device_udp4_parsed [OF assms] by blast
  note lim = submitted_limits [OF sub]
  show ?limits using lim by simp
  show ?where using v lim(1,2) udp_check_at [OF c] by (simp add: ipv4_header_of_bytes_def)
qed

lemma device_udp6_submits:
  assumes "device_udp6 g data = Some (Submitted l r dns payload)"
  shows "opt_netif_ip6addr g \<and> 40 \<le> length data \<and> drop_bit 4 (data ! 0) = 6 \<and> data ! 6 = 17 \<and>
    l = BADDR_IPV6 (seg 8 16 data) (unmem16 (seg 40 2 data)) \<and>
    r = BADDR_IPV6 (seg 24 16 data) (unmem16 (seg 42 2 data)) \<and>
    payload = udp_payload_at 40 data" (is ?where)
    "int (length payload) \<le> tun_udp_mtu g \<and> (opt_udpgw_dns_only g \<longrightarrow> BAddr_GetPort r = Some (hton16 53)) \<and>
     (dns \<longrightarrow> r = BADDR_IPV4 (tun_netif_ipv4 g) (hton16 53))" (is ?limits)
proof -
  obtain udph n where v: "opt_netif_ip6addr g" "40 \<le> length data" "drop_bit 4 (data ! 0) = 6" "data ! 6 = 17" and
      c: "udp_check (seg 40 n data) = Some (udph, payload)" and
      sub: "Submitted l r dns payload = submit_device_udp g
        (BADDR_IPV6 (seg 8 16 data) (udp_source_port udph))
        (BADDR_IPV6 (seg 24 16 data) (udp_dest_port udph)) (udp_dest_port udph) False payload"
    using device_udp6_parsed [OF assms] by blast
  note lim = submitted_limits [OF sub]
  show ?limits using lim by simp
  show ?where using v lim(1,2) udp_check_at [OF c] by simp
qed

lemma udp_check_length:
  "udp_check d = Some (udph, payload) \<Longrightarrow> length payload + 8 \<le> length d"
  by (auto simp: udp_check_def Let_def split: if_splits)

text \<open>The largest datagram the device can hold fits the gateway's MTU.\<close>

lemma submit_device_udp_mtu:
  "int (length data) \<le> tun_udp_mtu g \<Longrightarrow> int (length data) \<le> m \<Longrightarrow>
   submit_device_udp (g\<lparr>tun_udp_mtu := m\<rparr>) l r port dns data = submit_device_udp g l r port dns data"
  by (simp add: submit_device_udp_def)

lemma device_udp4_mtu:
  assumes "int (length data) \<le> tun_udp_mtu g + 28" "int (length data) \<le> m + 28"
  shows "device_udp4 (g\<lparr>tun_udp_mtu := m\<rparr>) data = device_udp4 g data"
proof (cases "ipv4_valid data")
  case True
  let ?d = "seg (ipv4_header_len data) (ipv4_total_len data - ipv4_header_len data) data"
  have "length ?d + 20 \<le> length data" using True by (auto simp: ipv4_valid_def)
  then show ?thesis
    using True assms udp_check_length [of ?d]
    by (auto simp: device_udp4_def ipv4_check_accepts Let_def submit_device_udp_mtu split: option.split
        intro!: Option.bind_cong)
qed (simp add: device_udp4_def ipv4_check_accepts)

lemma device_udp6_mtu:
  assumes "int (length data) \<le> tun_udp_mtu g + 48" "int (length data) \<le> m + 48"
  shows "device_udp6 (g\<lparr>tun_udp_mtu := m\<rparr>) data = device_udp6 g data"
proof (cases "ipv6_check data")
  case (Some q)
  then have "length (snd q) + 40 \<le> length data"
    by (auto simp: ipv6_check_def Let_def split: if_splits)
  then show ?thesis
    using Some assms udp_check_length [of "snd q"]
    by (auto simp: device_udp6_def Let_def submit_device_udp_mtu split: option.split prod.split
        intro!: Option.bind_cong)
qed (simp add: device_udp6_def)

lemma run_udp_mtu_value:
  assumes "run_udp_mtu d ip6 = Some m" "d \<le> INT_MAX"
  shows "m = max 0 (d - 28)" "m + 21 \<le> 65535"
proof -
  have "udpgw_compute_mtu (max 0 (d - 28)) = max 0 (d - 28) + 21"
    if "udpgw_compute_mtu (max 0 (d - 28)) \<ge> 0"
    using that assms(2) by (simp add: udpgw_compute_mtu_value split: if_splits)
  then show "m = max 0 (d - 28)" "m + 21 \<le> 65535"
    using assms(1) by (auto simp: run_udp_mtu_def Let_def max_def PACKETPROTO_MAXPAYLOAD_def split: if_splits)
qed

section \<open>Properties\<close>

text \<open>C9. Round trip through the device: for a datagram from the gateway that fits, the program
  writes one IP packet into the write buffer (never outside it) and submits it to the device, and
  reading that packet back from the device submits the same payload between the same two
  addresses, exchanged. So the headers, lengths and both checksums it writes are ones it
  accepts.\<close>
theorem udp_reply_roundtrip:
  assumes "opt_udpgw_remote_server_addr g" "int (length buf) = tun_device_mtu g"
    and "addr_ok l" "addr_ok r" "baddr_type l = baddr_type r"
    and "baddr_type l = BADDR_TYPE_IPV6 \<longrightarrow> opt_netif_ip6addr g"
    and "length data \<le> 65507"
    and "int (length data) + (if baddr_type l = BADDR_TYPE_IPV4 then 28 else 48) \<le> tun_device_mtu g"
    and "\<not> opt_udpgw_dns_only g" "int (length data) \<le> tun_udp_mtu g"
  shows "\<exists>buf' pkt dns. udpgw_client_handler_received g buf l r data = Some (buf', [Tap_send pkt]) \<and>
    length buf' = length buf \<and> process_device_udp_packet g pkt = Some (Submitted r l dns data)"
proof (cases l)
  case l: (BADDR_IPV4 lip lp)
  then obtain rip rp where "r = BADDR_IPV4 rip rp" using assms(5) by (cases r) (auto simp: baddr_types)
  then show ?thesis
    using reply_udp4 [of g buf data lip lp rip rp] assms l by (auto simp: submit_device_udp_def)
next
  case l: (BADDR_IPV6 lip lp)
  then obtain rip rp where "r = BADDR_IPV6 rip rp" using assms(5) by (cases r) (auto simp: baddr_types)
  then show ?thesis
    using reply_udp6 [of g buf data lip rip lp rp] assms l by (auto simp: submit_device_udp_def baddr_types)
qed (use assms(3) in simp)

definition sample_config :: tun_config where
  "sample_config = \<lparr>opt_udpgw_remote_server_addr = True, opt_netif_ip6addr = True,
     opt_udpgw_transparent_dns = True, opt_udpgw_dns_only = False, tun_netif_ipv4 = 0x0100000A,
     tun_udp_mtu = 72, tun_device_mtu = 100, tun_quitting = False\<rparr>"

theorem udp_reply_roundtrip_witness:
  "\<exists>buf' pkt dns. udpgw_client_handler_received sample_config (replicate 100 0)
      (BADDR_IPV4 0x0100000A 0x3500) (BADDR_IPV4 0x08080808 0x3500) [1, 2, 3] = Some (buf', [Tap_send pkt]) \<and>
    length buf' = 100 \<and> process_device_udp_packet sample_config pkt =
      Some (Submitted (BADDR_IPV4 0x08080808 0x3500) (BADDR_IPV4 0x0100000A 0x3500) dns [1, 2, 3])"
  using udp_reply_roundtrip [of sample_config "replicate 100 0" "BADDR_IPV4 0x0100000A 0x3500"
      "BADDR_IPV4 0x08080808 0x3500" "[1, 2, 3]"]
  by (simp add: sample_config_def baddr_types)


definition sample_packet :: "byte list" where
  "sample_packet = [69, 0, 0, 31, 0, 0, 0, 0, 64, 17, 102, 204, 10, 0, 0, 2, 10, 0, 0, 1, 31, 144, 0, 53, 0, 11, 188, 8, 7, 8, 9]"


text \<open>C27. The MTU \<open>run\<close> computes is large enough and not too large: with it no packet that fits
  the device is refused for its size (the size check of the device path never decides), and no
  assertion of the gateway client's initialisation fails.\<close>
theorem udp_mtu_covers_device:
  assumes "run_udp_mtu (tun_device_mtu g) (opt_netif_ip6addr g) = Some (tun_udp_mtu g)"
    and "tun_device_mtu g \<le> INT_MAX" "int (length data) \<le> tun_device_mtu g"
    and "0 < max_connections" "0 < send_buffer_size"
  shows "process_device_udp_packet g data = process_device_udp_packet (g\<lparr>tun_udp_mtu := INT_MAX\<rparr>) data \<and>
    UdpGwClient_Init (tun_udp_mtu g) max_connections send_buffer_size queue_ok \<noteq> None"
proof
  have m: "tun_udp_mtu g = max 0 (tun_device_mtu g - 28)" "tun_udp_mtu g + 21 \<le> 65535"
    using run_udp_mtu_value [OF assms(1,2)] by auto
  have "int (length data) \<le> tun_udp_mtu g + 28" using m assms(3) by linarith
  then show "process_device_udp_packet g data = process_device_udp_packet (g\<lparr>tun_udp_mtu := INT_MAX\<rparr>) data"
    using assms(2,3) device_udp4_mtu [of data g INT_MAX] device_udp6_mtu [of data g INT_MAX]
    by (simp add: process_device_udp_packet_def Let_def)
  have "udpgw_compute_mtu (tun_udp_mtu g) = tun_udp_mtu g + 21"
    using m by (simp add: udpgw_compute_mtu_value)
  then show "UdpGwClient_Init (tun_udp_mtu g) max_connections send_buffer_size queue_ok \<noteq> None"
    using m assms(4,5) by (simp add: UdpGwClient_Init_def Let_def PACKETPROTO_MAXPAYLOAD_def)
qed

theorem udp_mtu_covers_device_witness:
  "run_udp_mtu 100 True = Some 72 \<and>
   process_device_udp_packet (sample_config\<lparr>tun_udp_mtu := INT_MAX\<rparr>) sample_packet =
     Some (Submitted (BADDR_IPV4 0x0200000A 0x901F) (BADDR_IPV4 0x0100000A 0x3500) True [7, 8, 9])"
proof -
  have "run_udp_mtu (tun_device_mtu sample_config) (opt_netif_ip6addr sample_config) = Some (tun_udp_mtu sample_config)"
    by (simp add: run_udp_mtu_def sample_config_def udpgw_compute_mtu_value PACKETPROTO_MAXPAYLOAD_def)
  moreover have "process_device_udp_packet sample_config sample_packet =
     Some (Submitted (BADDR_IPV4 0x0200000A 0x901F) (BADDR_IPV4 0x0100000A 0x3500) True [7, 8, 9])"
    by code_simp
  ultimately show ?thesis
    using udp_mtu_covers_device [of sample_config sample_packet 1 1]
    by (simp add: sample_config_def sample_packet_def)
qed

text \<open>C28. lwIP's output never writes outside the write buffer and never violates the device's
  assertion: a packet whose chunks together fit the MTU is submitted as one packet with their bytes
  in order, any other is dropped whole, and nothing is sent while the program is quitting.\<close>
theorem netif_output_exact:
  assumes "int (length buf) = tun_device_mtu g" "ps \<noteq> []"
  shows "\<exists>buf'. common_netif_output g buf ps =
      Some (buf', if \<not> tun_quitting g \<and> int (length (concat ps)) \<le> tun_device_mtu g
                  then [Tap_send (concat ps)] else []) \<and> length buf' = length buf"
proof (cases "tl ps = []")
  case True
  then obtain p where "ps = [p]" using assms(2) by (cases ps) auto
  then show ?thesis using assms(1) by (auto simp: common_netif_output_def tap_send_def)
next
  case False
  then obtain p q qs where ps: "ps = p # q # qs" using assms(2) by (cases ps; cases "tl ps") auto
  obtain buf' where b: "output_chunks g buf 0 ps =
      Some (buf', if length (concat ps) \<le> length buf then Some (length (concat ps)) else None)"
      "length buf' = length buf"
      "length (concat ps) \<le> length buf \<longrightarrow> take (length (concat ps)) buf' = concat ps"
    using output_chunks_eq [of buf g 0 ps] assms(1) by auto
  have "common_netif_output g buf ps = (if tun_quitting g then Some (buf, []) else
      do { (buf, len) \<leftarrow> output_chunks g buf 0 ps;
           case len of None \<Rightarrow> Some (buf, [])
           | Some len \<Rightarrow> do { os \<leftarrow> tap_send g (take len buf); Some (buf, os) } })"
    by (simp add: common_netif_output_def ps)
  then show ?thesis using b assms(1) by (cases "tun_quitting g") (auto simp: tap_send_def)
qed

theorem netif_output_exact_witness:
  "\<exists>buf'. common_netif_output sample_config (replicate 100 0) [[1, 2], [3]] = Some (buf', [Tap_send [1, 2, 3]]) \<and>
    length buf' = 100"
  using netif_output_exact [of "replicate 100 0" sample_config "[[1, 2], [3]]"]
  by (simp add: sample_config_def)

end
