(* ===== verification/Addr_Print.thy ===== *)
theory Addr_Print
  imports BAddr
begin

text \<open>
  Addresses as text: the printers of system/BAddr.h and misc/concat_strings.h. Text is a list of
  bytes without the terminating zero. \<open>dec\<close> and \<open>hex\<close> are what \<open>sprintf\<close> writes for
  the conversions \<open>PRIu8\<close>, \<open>PRIu16\<close> and \<open>PRIx16\<close>: the digits without leading zeros, lower case.
\<close>

type_synonym cstr = "byte list"

definition digit_char :: "nat \<Rightarrow> byte" where
  "digit_char d = (if d < 10 then of_nat (48 + d) else of_nat (87 + d))"

fun digits :: "nat \<Rightarrow> nat \<Rightarrow> cstr" where
  "digits base n = (if base \<le> 1 \<or> n < base then [digit_char n] else digits base (n div base) @ [digit_char (n mod base)])"

declare digits.simps [simp del]

abbreviation dec :: "nat \<Rightarrow> cstr" where "dec \<equiv> digits 10"
abbreviation hex :: "nat \<Rightarrow> cstr" where "hex \<equiv> digits 16"

abbreviation (input) dot :: byte where "dot \<equiv> 46"
abbreviation (input) colon :: byte where "colon \<equiv> 58"
abbreviation (input) at_sign :: byte where "at_sign \<equiv> 64"

definition none_text :: cstr where
  "none_text = [40, 110, 111, 110, 101, 41]"

text \<open>The four bytes of an IPv4 address in memory, the eight words of an IPv6 address.\<close>

fun BIPAddr_Print :: "bipaddr \<Rightarrow> cstr" where
  "BIPAddr_Print BIP_NONE = none_text"
| "BIPAddr_Print (BIP_IPV4 ip) =
     dec (unat (mem32 ip ! 0)) @ [dot] @ dec (unat (mem32 ip ! 1)) @ [dot] @
     dec (unat (mem32 ip ! 2)) @ [dot] @ dec (unat (mem32 ip ! 3))"
| "BIPAddr_Print (BIP_IPV6 ip) =
     hex (unat (badvpn_read_be16 (drop 0 ip))) @ [colon] @ hex (unat (badvpn_read_be16 (drop 2 ip))) @ [colon] @
     hex (unat (badvpn_read_be16 (drop 4 ip))) @ [colon] @ hex (unat (badvpn_read_be16 (drop 6 ip))) @ [colon] @
     hex (unat (badvpn_read_be16 (drop 8 ip))) @ [colon] @ hex (unat (badvpn_read_be16 (drop 10 ip))) @ [colon] @
     hex (unat (badvpn_read_be16 (drop 12 ip))) @ [colon] @ hex (unat (badvpn_read_be16 (drop 14 ip)))"

fun BAddr_Print :: "baddr \<Rightarrow> cstr" where
  "BAddr_Print BADDR_NONE = none_text"
| "BAddr_Print (BADDR_IPV4 ip port) = BIPAddr_Print (BIP_IPV4 ip) @ [colon] @ dec (unat (ntoh16 port))"
| "BAddr_Print (BADDR_IPV6 ip port) = BIPAddr_Print (BIP_IPV6 ip) @ [colon] @ dec (unat (ntoh16 port))"

text \<open>\<open>concat_strings\<close>: \<open>None\<close> for \<open>NULL\<close>, where the sum of the lengths does not fit a
  \<open>size_t\<close> with the terminator, or \<open>malloc\<close> fails.\<close>

fun sum_lengths :: "cstr list \<Rightarrow> nat \<Rightarrow> nat option" where
  "sum_lengths [] n = Some n"
| "sum_lengths (s # ss) n =
     (if length s > 2 ^ 64 - 1 - 1 - n then None else sum_lengths ss (n + length s))"

text \<open>The same test over \<open>int\<close>, for evaluation.\<close>

lemma size_limit_int:
  "((18446744073709551614::nat) - n < l) = (max 0 (18446744073709551614 - int n) < int l)"
  by (auto simp: max_def)

lemma sum_lengths_code [code]:
  "sum_lengths [] n = Some n"
  "sum_lengths (s # ss) n =
     (if max 0 (18446744073709551614 - int n) < int (length s) then None else sum_lengths ss (n + length s))"
  unfolding size_limit_int [symmetric] by simp_all

definition concat_strings :: "cstr list \<Rightarrow> bool \<Rightarrow> cstr option" where
  "concat_strings strs malloc_ok =
     (case sum_lengths strs 0 of None \<Rightarrow> None
      | Some _ \<Rightarrow> if malloc_ok then Some (concat strs) else None)"

section \<open>Length of the texts\<close>

lemma digits_length: "1 < b \<Longrightarrow> n < b ^ k \<Longrightarrow> 0 < k \<Longrightarrow> length (digits b n) \<le> k"
proof (induction b n arbitrary: k rule: digits.induct)
  case (1 b n)
  show ?case
  proof (cases "n < b")
    case True
    then show ?thesis using 1(4) by (subst digits.simps) simp
  next
    case False
    obtain j where k: "k = Suc j" using 1(4) by (cases k) auto
    have "n div b < b ^ j" using 1(2,3) k by (simp add: less_mult_imp_div_less mult.commute)
    moreover have "0 < j" using False 1(2,3) k by (cases j) auto
    ultimately have "length (digits b (n div b)) \<le> j" using 1(1) False 1(2) by simp
    then show ?thesis using False 1(2) k by (subst digits.simps) simp
  qed
qed

lemma dec_byte_length: "length (dec (unat (b :: byte))) \<le> 3"
  using unat_byte_less [of b] by (intro digits_length) auto

lemma dec_u16_length: "length (dec (unat (x :: u16))) \<le> 5"
  using unat_u16_less [of x] by (intro digits_length) auto

lemma hex_u16_length: "length (hex (unat (x :: u16))) \<le> 4"
  using unat_u16_less [of x] by (intro digits_length) auto


end
