(* ===== verification/Tcp_Client.thy ===== *)
theory Tcp_Client
  imports Addr_Print Socks_Client
begin

text \<open>
  The TCP clients of tun2socks/tun2socks.c: each connection lwIP accepts is relayed through a SOCKS
  client. The objects are named by their addresses; every access to one goes through the heap, so
  that \<open>None\<close> is a failed assertion or a use after free. lwIP and the SOCKS client act through
  events and receive the calls as actions. A callback that runs pending jobs (\<open>SYNC_COMMIT\<close>) is
  cut there: \<open>tt_ctx\<close> remembers the callback, the jobs are events of their own, and the
  callback's rest is \<open>sync_commit_return\<close>.
\<close>

section \<open>State\<close>

definition TCP_WND :: nat where "TCP_WND = 4 * 1460"
definition CLIENT_SOCKS_RECV_BUF_SIZE :: nat where "CLIENT_SOCKS_RECV_BUF_SIZE = 8192"

text \<open>\<open>tc_buf\<close> is the used part of \<open>buf\<close>, \<open>tc_socks_recv_buf\<close> what the last receive put into
  \<open>socks_recv_buf\<close>. The fields \<open>pcb_*\<close> are lwIP's side of the connection: the callbacks that
  are set, the receive window and the bytes written but not confirmed. \<open>if_*\<close> is the SOCKS
  client's side: the bytes of the send in progress, and whether a receive is.\<close>

record tcp_client =
  tc_local_addr :: baddr
  tc_remote_addr :: baddr
  tc_client_closed :: bool
  tc_buf :: "byte list"
  tc_socks_username :: "cstr option"
  tc_socks_up :: bool
  tc_socks_closed :: bool
  tc_socks_recv_buf :: "byte list"
  tc_socks_recv_buf_used :: int
  tc_socks_recv_buf_sent :: int
  tc_socks_recv_waiting :: bool
  tc_socks_recv_tcp_pending :: int
  pcb_err :: bool
  pcb_recv :: bool
  pcb_sent :: bool
  pcb_window :: nat
  pcb_unacked :: nat
  if_sending :: "byte list option"
  if_receiving :: bool

datatype callback = In_accept | In_recv | In_sent

text \<open>The variable \<open>badvpn__dead\<close> that a callback catches \<open>dead_client\<close> with is the last
  component of \<open>tt_ctx\<close>. \<open>tt_auth_owner\<close> is the string
  \<open>socks_auth_info[1].password.username\<close> points at: \<open>None\<close> for \<open>options.username\<close>, else the
  \<open>socks_username\<close> that belongs to that client.\<close>

record tun_tcp =
  tt_clients :: "nat \<Rightarrow> tcp_client option"
  tt_tcp_clients :: "nat list"
  tt_num_clients :: int
  tt_ctx :: "(callback \<times> nat \<times> bool) option"
  tt_auth_owner :: "nat option"

datatype err_t = ERR_OK | ERR_MEM | ERR_ABRT

datatype tcp_action =
  Tcp_accepted
| Socks_init nat baddr
| Socks_free nat
| Socks_send nat "byte list"
| Socks_recv nat
| Tcp_close nat
| Tcp_abort nat
| Tcp_recved nat nat
| Tcp_write nat "byte list"
| Tcp_output nat
| Dealloc nat
| Pbuf_freed
| Return err_t

type_synonym tcp_result = "(tun_tcp \<times> tcp_action list) option"

text \<open>What lwIP answers within one event: \<open>tcp_sndbuf\<close> and \<open>tcp_write\<close> at each turn of the
  queuing loop, \<open>tcp_output\<close>, and \<open>tcp_close\<close>.\<close>

datatype write_result = Write_ok | Write_mem | Write_failed

record lwip =
  lw_sndbuf :: "nat \<Rightarrow> nat"
  lw_write :: "nat \<Rightarrow> write_result"
  lw_output :: bool
  lw_close :: bool

definition put_client :: "tun_tcp \<Rightarrow> nat \<Rightarrow> tcp_client \<Rightarrow> tun_tcp" where
  "put_client ts p c = ts\<lparr>tt_clients := (tt_clients ts)(p \<mapsto> c)\<rparr>"

text \<open>\<open>DEAD_KILL(client->dead_client)\<close>.\<close>

definition kill_client :: "tun_tcp \<Rightarrow> nat \<Rightarrow> tun_tcp" where
  "kill_client ts p =
     (case tt_ctx ts of None \<Rightarrow> ts
      | Some (cb, q, killed) \<Rightarrow> if q = p then ts\<lparr>tt_ctx := Some (cb, q, True)\<rparr> else ts)"

section \<open>Closing\<close>

definition client_dealloc :: "tun_tcp \<Rightarrow> nat \<Rightarrow> tcp_result" where
  "client_dealloc ts p = do {
     c \<leftarrow> tt_clients ts p;
     assert_that (tc_client_closed c);
     assert_that (tc_socks_closed c);
     assert_that (tt_num_clients ts > 0);
     Some (ts\<lparr>tt_num_clients := tt_num_clients ts - 1,
              tt_tcp_clients := remove1 p (tt_tcp_clients ts),
              tt_clients := (tt_clients ts)(p := None)\<rparr>, [Dealloc p])
   }"

text \<open>\<open>BSocksClient_Free\<close> ends the transfers in progress.\<close>

definition socks_freed :: "tcp_client \<Rightarrow> tcp_client" where
  "socks_freed c = c\<lparr>tc_socks_closed := True, if_sending := None, if_receiving := False\<rparr>"

definition no_callbacks :: "tcp_client \<Rightarrow> tcp_client" where
  "no_callbacks c = c\<lparr>pcb_err := False, pcb_recv := False, pcb_sent := False\<rparr>"

text \<open>How many of the two sides are open.\<close>

definition open_sides :: "tun_tcp \<Rightarrow> nat \<Rightarrow> nat" where
  "open_sides ts p = (case tt_clients ts p of None \<Rightarrow> 0
     | Some c \<Rightarrow> of_bool (\<not> tc_client_closed c) + of_bool (\<not> tc_socks_closed c))"

text \<open>The three functions call each other; each call closes a side, so the recursion ends.\<close>

function client_handle_freed_client :: "lwip \<Rightarrow> tun_tcp \<Rightarrow> nat \<Rightarrow> tcp_result"
  and client_free_client :: "lwip \<Rightarrow> tun_tcp \<Rightarrow> nat \<Rightarrow> tcp_result"
  and client_free_socks :: "lwip \<Rightarrow> tun_tcp \<Rightarrow> nat \<Rightarrow> tcp_result" where
  "client_handle_freed_client w ts p =
     (case tt_clients ts p of None \<Rightarrow> None
      | Some c \<Rightarrow>
          if tc_client_closed c then None else
          let ts = put_client (kill_client ts p) p (c\<lparr>tc_client_closed := True\<rparr>) in
          if length (tc_buf c) > 0 \<and> \<not> tc_socks_closed c then Some (ts, [])
          else if \<not> tc_socks_closed c then client_free_socks w ts p
          else client_dealloc ts p)"
| "client_free_client w ts p =
     (case tt_clients ts p of None \<Rightarrow> None
      | Some c \<Rightarrow>
          if tc_client_closed c then None else
          case client_handle_freed_client w (put_client ts p (no_callbacks c)) p of None \<Rightarrow> None
          | Some (ts, os) \<Rightarrow> Some (ts, (if lw_close w then [Tcp_close p] else [Tcp_close p, Tcp_abort p]) @ os))"
| "client_free_socks w ts p =
     (case tt_clients ts p of None \<Rightarrow> None
      | Some c \<Rightarrow>
          if tc_socks_closed c then None else
          let c = (if tc_socks_up c \<and> \<not> tc_client_closed c then c\<lparr>pcb_recv := False\<rparr> else c);
              ts = put_client ts p (socks_freed c) in
          if tc_socks_up c \<and> (tc_socks_recv_buf_used c \<ge> 0 \<or> tc_socks_recv_tcp_pending c > 0) \<and> \<not> tc_client_closed c
          then Some (ts, [Socks_free p])
          else case (if \<not> tc_client_closed c then client_free_client w ts p else client_dealloc ts p) of
                 None \<Rightarrow> None
               | Some (ts, os) \<Rightarrow> Some (ts, Socks_free p # os))"
  by pat_completeness auto
termination
  by (relation "measure (\<lambda>x. case x of Inl (w, ts, p) \<Rightarrow> 2 * open_sides ts p
      | Inr (Inl (w, ts, p)) \<Rightarrow> 2 * open_sides ts p + 1
      | Inr (Inr (w, ts, p)) \<Rightarrow> 2 * open_sides ts p)")
    (auto simp: open_sides_def put_client_def kill_client_def no_callbacks_def socks_freed_def
      split: option.splits)

declare client_handle_freed_client.simps [simp del] client_free_client.simps [simp del]
  client_free_socks.simps [simp del]

definition client_abort_client :: "lwip \<Rightarrow> tun_tcp \<Rightarrow> nat \<Rightarrow> tcp_result" where
  "client_abort_client w ts p = do {
     c \<leftarrow> tt_clients ts p;
     assert_that (\<not> tc_client_closed c);
     (ts, os) \<leftarrow> client_handle_freed_client w (put_client ts p (no_callbacks c)) p;
     Some (ts, Tcp_abort p # os)
   }"

definition client_murder :: "tun_tcp \<Rightarrow> nat \<Rightarrow> tcp_result" where
  "client_murder ts p = do {
     c \<leftarrow> tt_clients ts p;
     let (ts, c, os1) =
       (if \<not> tc_client_closed c
        then (kill_client ts p, (no_callbacks c)\<lparr>tc_client_closed := True\<rparr>, [Tcp_abort p])
        else (ts, c, []));
     let (c, os2) = (if \<not> tc_socks_closed c then (socks_freed c, [Socks_free p]) else (c, []));
     (ts, os3) \<leftarrow> client_dealloc (put_client ts p c) p;
     Some (ts, os1 @ os2 @ os3)
   }"

text \<open>The loop of \<open>run\<close> that frees the clients.\<close>

function free_clients :: "tun_tcp \<Rightarrow> tcp_result" where
  "free_clients ts =
     (case tt_tcp_clients ts of [] \<Rightarrow> Some (ts, [])
      | p # _ \<Rightarrow>
          (case client_murder ts p of None \<Rightarrow> None
           | Some (ts1, o1) \<Rightarrow>
               (case free_clients ts1 of None \<Rightarrow> None | Some (ts2, o2) \<Rightarrow> Some (ts2, o1 @ o2))))"
  by pat_completeness auto
termination
  by (relation "measure (length \<circ> tt_tcp_clients)")
    (auto simp: client_murder_def client_dealloc_def put_client_def kill_client_def Let_def bind_eq_Some_conv
      split: if_splits option.splits)

declare free_clients.simps [simp del]

section \<open>From the client to SOCKS\<close>

definition client_send_to_socks :: "tun_tcp \<Rightarrow> nat \<Rightarrow> tcp_result" where
  "client_send_to_socks ts p = do {
     c \<leftarrow> tt_clients ts p;
     assert_that (\<not> tc_socks_closed c);
     assert_that (tc_socks_up c);
     assert_that (length (tc_buf c) > 0);
     assert_that (if_sending c = None);
     Some (put_client ts p (c\<lparr>if_sending := Some (tc_buf c)\<rparr>), [Socks_send p (tc_buf c)])
   }"

definition client_err_func :: "lwip \<Rightarrow> tun_tcp \<Rightarrow> nat \<Rightarrow> tcp_result" where
  "client_err_func w ts p = do {
     c \<leftarrow> tt_clients ts p;
     assert_that (\<not> tc_client_closed c);
     client_handle_freed_client w ts p
   }"

text \<open>The packet buffer is its bytes, \<open>None\<close> for \<open>NULL\<close>.\<close>

definition client_recv_func :: "lwip \<Rightarrow> tun_tcp \<Rightarrow> nat \<Rightarrow> byte list option \<Rightarrow> tcp_result" where
  "client_recv_func w ts p pb = do {
     c \<leftarrow> tt_clients ts p;
     assert_that (\<not> tc_client_closed c);
     case pb of
       None \<Rightarrow> do {
         (ts, os) \<leftarrow> client_free_client w ts p;
         Some (ts, os @ [Return ERR_ABRT])
       }
     | Some data \<Rightarrow> do {
         assert_that (length data > 0);
         if length data > TCP_WND - length (tc_buf c) then Some (ts, [Return ERR_MEM]) else do {
           let c = c\<lparr>tc_buf := tc_buf c @ data\<rparr>;
           let ts = put_client ts p c;
           if length (tc_buf c) = length data \<and> tc_socks_up c then do {
             assert_that (\<not> tc_socks_closed c);
             (ts, os) \<leftarrow> client_send_to_socks ts p;
             Some (ts\<lparr>tt_ctx := Some (In_recv, p, False)\<rparr>, os)
           } else Some (ts, [Pbuf_freed, Return ERR_OK])
         }
       }
   }"

definition client_socks_send_handler_done :: "lwip \<Rightarrow> tun_tcp \<Rightarrow> nat \<Rightarrow> nat \<Rightarrow> tcp_result" where
  "client_socks_send_handler_done w ts p data_len = do {
     c \<leftarrow> tt_clients ts p;
     assert_that (\<not> tc_socks_closed c);
     assert_that (tc_socks_up c);
     assert_that (length (tc_buf c) > 0);
     assert_that (data_len > 0);
     assert_that (data_len \<le> length (tc_buf c));
     let c = c\<lparr>tc_buf := drop data_len (tc_buf c)\<rparr>;
     let (c, os) = (if \<not> tc_client_closed c
                    then (c\<lparr>pcb_window := pcb_window c + data_len\<rparr>, [Tcp_recved p data_len]) else (c, []));
     let ts = put_client ts p c;
     if length (tc_buf c) > 0 then do {
       assert_that (if_sending c = None);
       Some (put_client ts p (c\<lparr>if_sending := Some (tc_buf c)\<rparr>), os @ [Socks_send p (tc_buf c)])
     }
     else if tc_client_closed c then do {
       (ts, os2) \<leftarrow> client_free_socks w ts p;
       Some (ts, os @ os2)
     }
     else Some (ts, os)
   }"

section \<open>From SOCKS to the client\<close>

definition client_socks_recv_initiate :: "tun_tcp \<Rightarrow> nat \<Rightarrow> tcp_result" where
  "client_socks_recv_initiate ts p = do {
     c \<leftarrow> tt_clients ts p;
     assert_that (\<not> tc_client_closed c);
     assert_that (\<not> tc_socks_closed c);
     assert_that (tc_socks_up c);
     assert_that (tc_socks_recv_buf_used c = - 1);
     assert_that (\<not> if_receiving c);
     Some (put_client ts p (c\<lparr>if_receiving := True\<rparr>), [Socks_recv p])
   }"

text \<open>The loop that queues data with lwIP, from turn \<open>i\<close> on; the flag is set where
  \<open>tcp_write\<close> fails for another reason than memory. The amount to write is never negative, so
  the test is the code's test for zero.\<close>

function queue_loop :: "lwip \<Rightarrow> nat \<Rightarrow> nat \<Rightarrow> tcp_client \<Rightarrow> tcp_client \<times> tcp_action list \<times> bool" where
  "queue_loop w p i c =
     (let to_write = min (tc_socks_recv_buf_used c - tc_socks_recv_buf_sent c) (int (lw_sndbuf w i)) in
      if to_write \<le> 0 then (c, [], False) else
      case lw_write w i of
        Write_mem \<Rightarrow> (c, [], False)
      | Write_failed \<Rightarrow> (c, [], True)
      | Write_ok \<Rightarrow>
          let c' = c\<lparr>tc_socks_recv_buf_sent := tc_socks_recv_buf_sent c + to_write,
                     tc_socks_recv_tcp_pending := tc_socks_recv_tcp_pending c + to_write,
                     pcb_unacked := pcb_unacked c + nat to_write\<rparr>;
              a = Tcp_write p (seg (nat (tc_socks_recv_buf_sent c)) (nat to_write) (tc_socks_recv_buf c)) in
          if tc_socks_recv_buf_sent c' < tc_socks_recv_buf_used c' then
            (case queue_loop w p (i + 1) c' of (c2, os, failed) \<Rightarrow> (c2, a # os, failed))
          else (c', [a], False))"
  by pat_completeness auto
termination
  by (relation "measure (\<lambda>(w, p, i, c). nat (tc_socks_recv_buf_used c - tc_socks_recv_buf_sent c))") auto

declare queue_loop.simps [simp del]

text \<open>The flag returned is whether the return value is -1.\<close>

definition client_socks_recv_send_out :: "lwip \<Rightarrow> tun_tcp \<Rightarrow> nat \<Rightarrow> (tun_tcp \<times> tcp_action list \<times> bool) option" where
  "client_socks_recv_send_out w ts p = do {
     c \<leftarrow> tt_clients ts p;
     assert_that (\<not> tc_client_closed c);
     assert_that (tc_socks_up c);
     assert_that (tc_socks_recv_buf_used c > 0);
     assert_that (tc_socks_recv_buf_sent c < tc_socks_recv_buf_used c);
     assert_that (\<not> tc_socks_recv_waiting c);
     let (c, os, failed) = queue_loop w p 0 c;
     let ts = put_client ts p c;
     if failed then do { (ts, os2) \<leftarrow> client_abort_client w ts p; Some (ts, os @ os2, True) } else
     if \<not> lw_output w then do { (ts, os2) \<leftarrow> client_abort_client w ts p; Some (ts, os @ [Tcp_output p] @ os2, True) } else
     if tc_socks_recv_buf_sent c < tc_socks_recv_buf_used c then
       (if tc_socks_recv_tcp_pending c = 0
        then do { (ts, os2) \<leftarrow> client_abort_client w ts p; Some (ts, os @ [Tcp_output p] @ os2, True) }
        else Some (put_client ts p (c\<lparr>tc_socks_recv_waiting := True\<rparr>), os @ [Tcp_output p], False))
     else Some (put_client ts p (c\<lparr>tc_socks_recv_buf_used := - 1\<rparr>), os @ [Tcp_output p], False)
   }"

definition client_socks_recv_handler_done :: "lwip \<Rightarrow> tun_tcp \<Rightarrow> nat \<Rightarrow> byte list \<Rightarrow> tcp_result" where
  "client_socks_recv_handler_done w ts p data = do {
     assert_that (length data > 0);
     assert_that (length data \<le> CLIENT_SOCKS_RECV_BUF_SIZE);
     c \<leftarrow> tt_clients ts p;
     assert_that (\<not> tc_socks_closed c);
     assert_that (tc_socks_up c);
     assert_that (tc_socks_recv_buf_used c = - 1);
     if tc_client_closed c then Some (ts, []) else do {
       let ts = put_client ts p (c\<lparr>tc_socks_recv_buf := data, tc_socks_recv_buf_used := int (length data),
                                   tc_socks_recv_buf_sent := 0, tc_socks_recv_waiting := False\<rparr>);
       (ts, os, aborted) \<leftarrow> client_socks_recv_send_out w ts p;
       if aborted then Some (ts, os) else do {
         c \<leftarrow> tt_clients ts p;
         if tc_socks_recv_buf_used c = - 1 then do {
           (ts, os2) \<leftarrow> client_socks_recv_initiate ts p;
           Some (ts, os @ os2)
         } else Some (ts, os)
       }
     }
   }"

definition client_sent_func :: "lwip \<Rightarrow> tun_tcp \<Rightarrow> nat \<Rightarrow> nat \<Rightarrow> tcp_result" where
  "client_sent_func w ts p len = do {
     c \<leftarrow> tt_clients ts p;
     assert_that (\<not> tc_client_closed c);
     assert_that (tc_socks_up c);
     assert_that (len > 0);
     assert_that (int len \<le> tc_socks_recv_tcp_pending c);
     let c = c\<lparr>tc_socks_recv_tcp_pending := tc_socks_recv_tcp_pending c - int len\<rparr>;
     if tc_socks_recv_buf_used c > 0 then do {
       assert_that (tc_socks_recv_waiting c);
       assert_that (tc_socks_recv_buf_sent c < tc_socks_recv_buf_used c);
       (ts, os, aborted) \<leftarrow> client_socks_recv_send_out w (put_client ts p (c\<lparr>tc_socks_recv_waiting := False\<rparr>)) p;
       if aborted then Some (ts, os @ [Return ERR_ABRT]) else do {
         c \<leftarrow> tt_clients ts p;
         assert_that (tc_socks_recv_tcp_pending c > 0);
         if tc_socks_recv_buf_used c = - 1 \<and> \<not> tc_socks_closed c then do {
           (ts, os2) \<leftarrow> client_socks_recv_initiate ts p;
           Some (ts\<lparr>tt_ctx := Some (In_sent, p, False)\<rparr>, os @ os2)
         } else Some (ts, os @ [Return ERR_OK])
       }
     }
     else if tc_socks_closed c \<and> tc_socks_recv_tcp_pending c = 0 then do {
       (ts, os) \<leftarrow> client_free_client w (put_client ts p c) p;
       Some (ts, os @ [Return ERR_ABRT])
     }
     else Some (put_client ts p c, [Return ERR_OK])
   }"

definition client_socks_handler :: "lwip \<Rightarrow> tun_tcp \<Rightarrow> nat \<Rightarrow> socks_event \<Rightarrow> tcp_result" where
  "client_socks_handler w ts p event = do {
     c \<leftarrow> tt_clients ts p;
     assert_that (\<not> tc_socks_closed c);
     case event of
       BSOCKSCLIENT_EVENT_ERROR \<Rightarrow> client_free_socks w ts p
     | BSOCKSCLIENT_EVENT_UP \<Rightarrow> do {
         assert_that (\<not> tc_socks_up c);
         let c = c\<lparr>tc_socks_recv_buf_used := - 1, tc_socks_recv_tcp_pending := 0\<rparr>;
         let c = (if \<not> tc_client_closed c then c\<lparr>pcb_sent := True\<rparr> else c);
         let c = c\<lparr>tc_socks_up := True\<rparr>;
         let ts = put_client ts p c;
         (ts, os1) \<leftarrow> (if length (tc_buf c) > 0 then client_send_to_socks ts p else Some (ts, []));
         (ts, os2) \<leftarrow> (if \<not> tc_client_closed c then client_socks_recv_initiate ts p else Some (ts, []));
         Some (ts, os1 @ os2)
       }
     | BSOCKSCLIENT_EVENT_ERROR_CLOSED \<Rightarrow> do {
         assert_that (tc_socks_up c);
         client_free_socks w ts p
       }
   }"

section \<open>Accepting, and returning from a callback\<close>

definition baddr_from_lwip :: "bool \<Rightarrow> u32 \<Rightarrow> byte list \<Rightarrow> u16 \<Rightarrow> baddr" where
  "baddr_from_lwip is_ipv6 ip4 ip6 port_hostorder =
     (if is_ipv6 then BAddr_MakeIPv6 ip6 (hton16 port_hostorder) else BAddr_MakeIPv4 ip4 (hton16 port_hostorder))"

text \<open>The part of \<open>listener_accept_func\<close> that makes the user name, when the option asks for it:
  \<open>None\<close> where it fails, \<open>Some None\<close> where there is none.\<close>

definition source_username :: "cstr option \<Rightarrow> bool \<Rightarrow> baddr \<Rightarrow> bool \<Rightarrow> cstr option option" where
  "source_username user append_source remote_addr malloc_ok =
     (case user of None \<Rightarrow> Some None
      | Some u \<Rightarrow>
          if append_source then
            (case concat_strings [u, [at_sign], BAddr_Print remote_addr] malloc_ok of
               None \<Rightarrow> None | Some s \<Rightarrow> Some (Some s))
          else Some None)"

text \<open>\<open>mem\<close> is the address \<open>malloc\<close> returned, \<open>socks_ok\<close> the result of \<open>BSocksClient_Init\<close>.\<close>

definition listener_accept_func ::
  "tun_tcp \<Rightarrow> cstr option \<Rightarrow> bool \<Rightarrow> baddr \<Rightarrow> baddr \<Rightarrow> nat option \<Rightarrow> bool \<Rightarrow> bool \<Rightarrow> tcp_result" where
  "listener_accept_func ts user append_source local_addr remote_addr mem malloc_ok socks_ok =
     (case mem of None \<Rightarrow> Some (ts, [Tcp_accepted, Return ERR_MEM])
      | Some p \<Rightarrow>
          (case source_username user append_source remote_addr malloc_ok of
             None \<Rightarrow> Some (ts, [Tcp_accepted, Return ERR_MEM])
           | Some name \<Rightarrow> do {
               let ts = (case name of None \<Rightarrow> ts | Some _ \<Rightarrow> ts\<lparr>tt_auth_owner := Some p\<rparr>);
               if \<not> socks_ok then Some (ts, [Tcp_accepted, Return ERR_MEM]) else do {
                 assert_that (tt_num_clients ts \<ge> 0);
                 let c = \<lparr>tc_local_addr = local_addr, tc_remote_addr = remote_addr, tc_client_closed = False,
                   tc_buf = [], tc_socks_username = name, tc_socks_up = False, tc_socks_closed = False,
                   tc_socks_recv_buf = [], tc_socks_recv_buf_used = 0, tc_socks_recv_buf_sent = 0,
                   tc_socks_recv_waiting = False, tc_socks_recv_tcp_pending = 0,
                   pcb_err = True, pcb_recv = True, pcb_sent = False, pcb_window = TCP_WND, pcb_unacked = 0,
                   if_sending = None, if_receiving = False\<rparr>;
                 Some ((put_client ts p c)\<lparr>tt_tcp_clients := tt_tcp_clients ts @ [p],
                         tt_num_clients := tt_num_clients ts + 1,
                         tt_ctx := Some (In_accept, p, False)\<rparr>,
                       [Tcp_accepted, Socks_init p local_addr])
               }
             }))"

text \<open>What the callbacks do after \<open>SYNC_COMMIT\<close>.\<close>

definition sync_commit_return :: "tun_tcp \<Rightarrow> tcp_result" where
  "sync_commit_return ts = do {
     (cb, p, killed) \<leftarrow> tt_ctx ts;
     let ts = ts\<lparr>tt_ctx := None\<rparr>;
     if killed then Some (ts, [Return ERR_ABRT])
     else if cb = In_recv then Some (ts, [Pbuf_freed, Return ERR_OK])
     else Some (ts, [Return ERR_OK])
   }"

text \<open>The user name a SOCKS client reads when it authenticates: \<open>options.username\<close>, or the string of
  the client it belongs to; \<open>None\<close> where that has been freed.\<close>

definition auth_username :: "tun_tcp \<Rightarrow> cstr \<Rightarrow> cstr option" where
  "auth_username ts user = (case tt_auth_owner ts of None \<Rightarrow> Some user
     | Some p \<Rightarrow> (case tt_clients ts p of None \<Rightarrow> None | Some c \<Rightarrow> tc_socks_username c))"

section \<open>Events\<close>

text \<open>The calls of lwIP, of the SOCKS clients, and the return from \<open>SYNC_COMMIT\<close>. A send and a receive
  that finish carry the bytes transferred.\<close>

datatype tcp_event =
  Accept "cstr option" bool baddr baddr "nat option" bool bool
| Lwip_err nat lwip
| Lwip_recv nat "byte list option" lwip
| Lwip_sent nat nat lwip
| Socks_event nat socks_event lwip
| Send_done nat "byte list" lwip
| Recv_done nat "byte list" lwip
| Commit_return

fun tcp_step :: "tun_tcp \<Rightarrow> tcp_event \<Rightarrow> tcp_result" where
  "tcp_step ts (Accept user app l r mem malloc_ok socks_ok) =
     listener_accept_func ts user app l r mem malloc_ok socks_ok"
| "tcp_step ts (Lwip_err p w) = client_err_func w ts p"
| "tcp_step ts (Lwip_recv p pb w) = do {
     c \<leftarrow> tt_clients ts p;
     let c = c\<lparr>pcb_window := pcb_window c - (case pb of None \<Rightarrow> 0 | Some data \<Rightarrow> length data)\<rparr>;
     client_recv_func w (put_client ts p c) p pb
   }"
| "tcp_step ts (Lwip_sent p len w) = do {
     c \<leftarrow> tt_clients ts p;
     client_sent_func w (put_client ts p (c\<lparr>pcb_unacked := pcb_unacked c - len\<rparr>)) p len
   }"
| "tcp_step ts (Socks_event p ev w) = client_socks_handler w ts p ev"
| "tcp_step ts (Send_done p data w) = do {
     c \<leftarrow> tt_clients ts p;
     client_socks_send_handler_done w (put_client ts p (c\<lparr>if_sending := None\<rparr>)) p (length data)
   }"
| "tcp_step ts (Recv_done p data w) = do {
     c \<leftarrow> tt_clients ts p;
     client_socks_recv_handler_done w (put_client ts p (c\<lparr>if_receiving := False\<rparr>)) p data
   }"
| "tcp_step ts Commit_return = sync_commit_return ts"

text \<open>What lwIP and the SOCKS clients promise. lwIP calls the callbacks that are set on a connection
  that is open, delivers no more than the receive window and confirms no more than was
  written, and not from within one of its own callbacks. A SOCKS client that was not freed
  reports an error, or that it is up once, or its end once it was up; a send that finishes took
  some of the bytes given, a receive that finishes gives some bytes that fit. \<open>malloc\<close> returns an
  address not in use.\<close>

definition tcp_contract :: "tun_tcp \<Rightarrow> tcp_event \<Rightarrow> bool" where
  "tcp_contract ts e = (case e of
     Accept user app l r mem malloc_ok socks_ok \<Rightarrow>
       tt_ctx ts = None \<and> (case mem of None \<Rightarrow> True | Some p \<Rightarrow> tt_clients ts p = None)
   | Lwip_err p w \<Rightarrow> tt_ctx ts = None \<and>
       (case tt_clients ts p of None \<Rightarrow> False | Some c \<Rightarrow> \<not> tc_client_closed c \<and> pcb_err c)
   | Lwip_recv p pb w \<Rightarrow> tt_ctx ts = None \<and>
       (case tt_clients ts p of None \<Rightarrow> False
        | Some c \<Rightarrow> \<not> tc_client_closed c \<and> pcb_recv c \<and>
            (case pb of None \<Rightarrow> True | Some data \<Rightarrow> 0 < length data \<and> length data \<le> pcb_window c))
   | Lwip_sent p len w \<Rightarrow> tt_ctx ts = None \<and>
       (case tt_clients ts p of None \<Rightarrow> False
        | Some c \<Rightarrow> \<not> tc_client_closed c \<and> pcb_sent c \<and> 0 < len \<and> len \<le> pcb_unacked c)
   | Socks_event p ev w \<Rightarrow>
       (case tt_clients ts p of None \<Rightarrow> False
        | Some c \<Rightarrow> \<not> tc_socks_closed c \<and>
            (ev = BSOCKSCLIENT_EVENT_UP \<longrightarrow> \<not> tc_socks_up c) \<and>
            (ev = BSOCKSCLIENT_EVENT_ERROR_CLOSED \<longrightarrow> tc_socks_up c))
   | Send_done p data w \<Rightarrow>
       (case tt_clients ts p of None \<Rightarrow> False
        | Some c \<Rightarrow> (case if_sending c of None \<Rightarrow> False
            | Some sent \<Rightarrow> 0 < length data \<and> data = take (length data) sent))
   | Recv_done p data w \<Rightarrow>
       (case tt_clients ts p of None \<Rightarrow> False
        | Some c \<Rightarrow> if_receiving c \<and> 0 < length data \<and> length data \<le> CLIENT_SOCKS_RECV_BUF_SIZE)
   | Commit_return \<Rightarrow> tt_ctx ts \<noteq> None)"

definition tcp_initial :: tun_tcp where
  "tcp_initial = \<lparr>tt_clients = (\<lambda>_. None), tt_tcp_clients = [], tt_num_clients = 0, tt_ctx = None,
     tt_auth_owner = None\<rparr>"

end
