(* ===== verification/Tcp_Relay.thy ===== *)
theory Tcp_Relay
  imports Tcp_Client
begin

text \<open>
  The TCP relay as a machine: no assertion of tun2socks/tun2socks.c fails and no freed client is
  used, under the contract of lwIP and of the SOCKS clients; the bytes of both directions are
  relayed in order; a closed side is drained before the client is freed; shutdown frees every client.
\<close>

section \<open>Closing in closed form\<close>

definition removed :: "tun_tcp \<Rightarrow> nat \<Rightarrow> tun_tcp" where
  "removed ts p = ts\<lparr>tt_num_clients := tt_num_clients ts - 1,
     tt_tcp_clients := remove1 p (tt_tcp_clients ts), tt_clients := (tt_clients ts)(p := None)\<rparr>"

text \<open>The list holds every client once, and the counter is its length.\<close>

definition tt_wf :: "tun_tcp \<Rightarrow> bool" where
  "tt_wf ts \<longleftrightarrow> distinct (tt_tcp_clients ts) \<and> set (tt_tcp_clients ts) = dom (tt_clients ts) \<and>
     tt_num_clients ts = int (length (tt_tcp_clients ts))"

lemma put_client_sel [simp]:
  "tt_clients (put_client ts p c) = (tt_clients ts)(p \<mapsto> c)"
  "tt_tcp_clients (put_client ts p c) = tt_tcp_clients ts"
  "tt_num_clients (put_client ts p c) = tt_num_clients ts"
  "tt_ctx (put_client ts p c) = tt_ctx ts"
  "tt_auth_owner (put_client ts p c) = tt_auth_owner ts"
  by (simp_all add: put_client_def)

lemma kill_client_sel [simp]:
  "tt_clients (kill_client ts p) = tt_clients ts"
  "tt_tcp_clients (kill_client ts p) = tt_tcp_clients ts"
  "tt_num_clients (kill_client ts p) = tt_num_clients ts"
  "tt_auth_owner (kill_client ts p) = tt_auth_owner ts"
  by (auto simp: kill_client_def split: option.split)

lemma kill_put [simp]: "kill_client (put_client ts p c) q = put_client (kill_client ts q) p c"
  by (auto simp: kill_client_def put_client_def split: option.split)

lemma put_put [simp]: "put_client (put_client ts p c) p c' = put_client ts p c'"
  by (simp add: put_client_def)

lemma removed_put [simp]: "removed (put_client ts p c) p = removed ts p"
  by (simp add: removed_def put_client_def)

lemma removed_sel [simp]:
  "tt_clients (removed ts p) = (tt_clients ts)(p := None)"
  "tt_ctx (removed ts p) = tt_ctx ts"
  "tt_auth_owner (removed ts p) = tt_auth_owner ts"
  by (simp_all add: removed_def)

lemma tt_wf_put [simp]: "tt_clients ts p = Some c \<Longrightarrow> tt_wf (put_client ts p c') = tt_wf ts"
  by (auto simp: tt_wf_def)

lemma tt_wf_kill [simp]: "tt_wf (kill_client ts p) = tt_wf ts"
  by (simp add: tt_wf_def)

lemma tt_wf_ctx [simp]: "tt_wf (ts\<lparr>tt_ctx := x\<rparr>) = tt_wf ts"
  by (simp add: tt_wf_def)

lemma tt_wf_positive: "tt_wf ts \<Longrightarrow> tt_clients ts p = Some c \<Longrightarrow> 0 < tt_num_clients ts"
  by (auto simp: tt_wf_def dom_def)

lemma tt_wf_removed: "tt_wf ts \<Longrightarrow> tt_clients ts p = Some c \<Longrightarrow> tt_wf (removed ts p)"
proof -
  assume wf: "tt_wf ts" and p: "tt_clients ts p = Some c"
  then have "p \<in> set (tt_tcp_clients ts)" by (auto simp: tt_wf_def)
  then have "length (remove1 p (tt_tcp_clients ts)) = length (tt_tcp_clients ts) - 1" "1 \<le> length (tt_tcp_clients ts)"
    by (auto simp: length_remove1 Suc_le_eq)
  then show ?thesis using wf by (auto simp: tt_wf_def removed_def of_nat_diff)
qed

lemma client_dealloc_eq:
  "tt_wf ts \<Longrightarrow> tt_clients ts p = Some c \<Longrightarrow> tc_client_closed c \<Longrightarrow> tc_socks_closed c \<Longrightarrow>
   client_dealloc ts p = Some (removed ts p, [Dealloc p])"
  using tt_wf_positive [of ts p c] by (simp add: client_dealloc_def removed_def)

text \<open>Once one side is closed, closing the other frees the client.\<close>

lemma free_socks_closed:
  "tt_wf ts \<Longrightarrow> tt_clients ts p = Some c \<Longrightarrow> tc_client_closed c \<Longrightarrow> \<not> tc_socks_closed c \<Longrightarrow>
   client_free_socks w ts p = Some (removed ts p, [Socks_free p, Dealloc p])"
  by (subst client_free_socks.simps)
    (simp add: Let_def socks_freed_def client_dealloc_eq [where c = "socks_freed c", unfolded socks_freed_def])

lemma handle_freed_eq:
  assumes "tt_wf ts" "tt_clients ts p = Some c" "\<not> tc_client_closed c"
  shows "client_handle_freed_client w ts p = Some
    (if tc_buf c \<noteq> [] \<and> \<not> tc_socks_closed c
     then (put_client (kill_client ts p) p (c\<lparr>tc_client_closed := True\<rparr>), [])
     else (removed (kill_client ts p) p, (if tc_socks_closed c then [] else [Socks_free p]) @ [Dealloc p]))"
  using assms
  by (subst client_handle_freed_client.simps)
    (simp add: Let_def free_socks_closed [where c = "c\<lparr>tc_client_closed := True\<rparr>"]
      client_dealloc_eq [where c = "c\<lparr>tc_client_closed := True\<rparr>"])

definition close_actions :: "lwip \<Rightarrow> nat \<Rightarrow> tcp_action list" where
  "close_actions w p = (if lw_close w then [Tcp_close p] else [Tcp_close p, Tcp_abort p])"

lemma free_client_eq:
  assumes "tt_wf ts" "tt_clients ts p = Some c" "\<not> tc_client_closed c"
  shows "client_free_client w ts p = Some
    (if tc_buf c \<noteq> [] \<and> \<not> tc_socks_closed c
     then (put_client (kill_client ts p) p ((no_callbacks c)\<lparr>tc_client_closed := True\<rparr>), close_actions w p)
     else (removed (kill_client ts p) p,
           close_actions w p @ (if tc_socks_closed c then [] else [Socks_free p]) @ [Dealloc p]))"
proof -
  have n: "tc_buf (no_callbacks c) = tc_buf c" "tc_socks_closed (no_callbacks c) = tc_socks_closed c"
    "tc_client_closed (no_callbacks c) = tc_client_closed c"
    by (simp_all add: no_callbacks_def)
  show ?thesis
    using assms handle_freed_eq [of "put_client ts p (no_callbacks c)" p "no_callbacks c" w]
    by (subst client_free_client.simps) (simp add: n close_actions_def)
qed

lemma abort_client_eq:
  assumes "tt_wf ts" "tt_clients ts p = Some c" "\<not> tc_client_closed c"
  shows "client_abort_client w ts p = Some
    (if tc_buf c \<noteq> [] \<and> \<not> tc_socks_closed c
     then (put_client (kill_client ts p) p ((no_callbacks c)\<lparr>tc_client_closed := True\<rparr>), [Tcp_abort p])
     else (removed (kill_client ts p) p,
           [Tcp_abort p] @ (if tc_socks_closed c then [] else [Socks_free p]) @ [Dealloc p]))"
proof -
  have n: "tc_buf (no_callbacks c) = tc_buf c" "tc_socks_closed (no_callbacks c) = tc_socks_closed c"
    "tc_client_closed (no_callbacks c) = tc_client_closed c"
    by (simp_all add: no_callbacks_def)
  show ?thesis
    using assms handle_freed_eq [of "put_client ts p (no_callbacks c)" p "no_callbacks c" w]
    by (simp add: client_abort_client_def n)
qed

lemma free_socks_eq:
  assumes "tt_wf ts" "tt_clients ts p = Some c" "\<not> tc_socks_closed c"
  shows "client_free_socks w ts p = Some
    (if tc_client_closed c then (removed ts p, [Socks_free p, Dealloc p])
     else if tc_socks_up c \<and> (tc_socks_recv_buf_used c \<ge> 0 \<or> tc_socks_recv_tcp_pending c > 0)
     then (put_client ts p (socks_freed (c\<lparr>pcb_recv := False\<rparr>)), [Socks_free p])
     else (removed (kill_client ts p) p, Socks_free p # close_actions w p @ [Dealloc p]))"
proof (cases "tc_client_closed c")
  case False
  let ?c = "if tc_socks_up c then c\<lparr>pcb_recv := False\<rparr> else c"
  have "tc_socks_closed (socks_freed ?c)" "tc_client_closed (socks_freed ?c) = tc_client_closed c"
    by (simp_all add: socks_freed_def)
  then show ?thesis
    using assms False free_client_eq [of "put_client ts p (socks_freed ?c)" p "socks_freed ?c" w]
    by (subst client_free_socks.simps) (auto simp: Let_def)
qed (use assms free_socks_closed in simp)

section \<open>Invariant\<close>

text \<open>Of one client. At most one side is closed, and a closed side only while the other has
  something left to deliver. The buffer and lwIP's window together make \<open>TCP_WND\<close>. While
  SOCKS is up, a send is in progress exactly when the buffer is not empty, of the buffer's first
  bytes; while the client is up too, either nothing from SOCKS is held and a receive is in
  progress, or some is held, waiting for lwIP to confirm what was written.\<close>

definition sending_ok :: "byte list \<Rightarrow> byte list option \<Rightarrow> bool" where
  "sending_ok buf sending \<longleftrightarrow> (case sending of None \<Rightarrow> buf = []
     | Some d \<Rightarrow> d \<noteq> [] \<and> d = take (length d) buf)"

lemma prefix_length: "d = take (length d) buf \<Longrightarrow> length d \<le> length buf"
  by (metis length_take min.cobounded1)

lemma sending_ok_append: "sending_ok buf s \<Longrightarrow> buf \<noteq> [] \<Longrightarrow> sending_ok (buf @ data) s"
  using prefix_length by (auto simp: sending_ok_def split: option.splits)

definition holding :: "tcp_client \<Rightarrow> bool" where
  "holding c \<longleftrightarrow> 0 < tc_socks_recv_buf_used c \<and> tc_socks_recv_buf_used c = int (length (tc_socks_recv_buf c)) \<and>
     0 \<le> tc_socks_recv_buf_sent c \<and> tc_socks_recv_buf_sent c < tc_socks_recv_buf_used c"

definition receiving_ok :: "tcp_client \<Rightarrow> bool" where
  "receiving_ok c \<longleftrightarrow> tc_socks_recv_tcp_pending c = int (pcb_unacked c) \<and>
     (tc_socks_recv_buf_used c = - 1 \<and> if_receiving c = (\<not> tc_socks_closed c) \<or>
      holding c \<and> tc_socks_recv_waiting c \<and> 0 < pcb_unacked c \<and> \<not> if_receiving c)"

definition client_base :: "tcp_client \<Rightarrow> bool" where
  "client_base c \<longleftrightarrow>
     (tc_client_closed c \<longrightarrow> \<not> tc_socks_closed c \<and> tc_buf c \<noteq> []) \<and>
     (tc_socks_closed c \<longrightarrow> tc_socks_up c \<and> if_sending c = None \<and> \<not> pcb_recv c) \<and>
     (\<not> tc_client_closed c \<and> \<not> tc_socks_closed c \<longrightarrow> pcb_window c + length (tc_buf c) = TCP_WND) \<and>
     (\<not> tc_socks_up c \<longrightarrow> if_sending c = None \<and> \<not> if_receiving c \<and> \<not> pcb_sent c \<and> pcb_unacked c = 0) \<and>
     (tc_socks_up c \<and> \<not> tc_socks_closed c \<longrightarrow> sending_ok (tc_buf c) (if_sending c)) \<and>
     (tc_socks_up c \<and> if_receiving c \<longrightarrow> tc_socks_recv_buf_used c = - 1)"

definition client_inv :: "tcp_client \<Rightarrow> bool" where
  "client_inv c \<longleftrightarrow> client_base c \<and>
     (tc_socks_up c \<and> \<not> tc_client_closed c \<longrightarrow> receiving_ok c) \<and>
     (tc_socks_closed c \<longrightarrow> tc_socks_recv_buf_used c > 0 \<or> pcb_unacked c > 0)"

lemma client_inv_base: "client_inv c \<Longrightarrow> client_base c"
  by (simp add: client_inv_def)

definition tcp_inv :: "tun_tcp \<Rightarrow> bool" where
  "tcp_inv ts \<longleftrightarrow> tt_wf ts \<and> (\<forall>p c. tt_clients ts p = Some c \<longrightarrow> client_inv c)"

lemma tcp_inv_put: "tcp_inv ts \<Longrightarrow> tt_clients ts p = Some c \<Longrightarrow> client_inv c' \<Longrightarrow> tcp_inv (put_client ts p c')"
  by (auto simp: tcp_inv_def)

lemma tcp_inv_kill [simp]: "tcp_inv (kill_client ts p) = tcp_inv ts"
  by (simp add: tcp_inv_def)

lemma tcp_inv_ctx [simp]: "tcp_inv (ts\<lparr>tt_ctx := x\<rparr>) = tcp_inv ts"
  by (simp add: tcp_inv_def)

lemma tcp_inv_removed: "tcp_inv ts \<Longrightarrow> tt_clients ts p = Some c \<Longrightarrow> tcp_inv (removed ts p)"
  using tt_wf_removed by (auto simp: tcp_inv_def split: if_splits)

text \<open>What a step does to the client \<open>p\<close> it is about: either the client is gone, or it satisfies the
  invariant and stands in the relation \<open>R\<close> to what it was; the others are as they were. \<open>tt_ctx\<close>
  and \<open>tt_auth_owner\<close> are not looked at here.\<close>

definition moves :: "tun_tcp \<Rightarrow> nat \<Rightarrow> tun_tcp \<Rightarrow> (tcp_client \<Rightarrow> bool) \<Rightarrow> bool" where
  "moves ts p ts' R \<longleftrightarrow> tcp_inv ts' \<and> (\<forall>q. q \<noteq> p \<longrightarrow> tt_clients ts' q = tt_clients ts q) \<and>
     (\<forall>c'. tt_clients ts' p = Some c' \<longrightarrow> R c')"

text \<open>The bookkeeping of one client while an operation on it is under way: everything but this
  client is in order.\<close>

definition others_ok :: "tun_tcp \<Rightarrow> nat \<Rightarrow> bool" where
  "others_ok ts p \<longleftrightarrow> tt_wf ts \<and> (\<forall>q c. q \<noteq> p \<longrightarrow> tt_clients ts q = Some c \<longrightarrow> client_inv c)"

lemma others_ok_put [simp]: "tt_clients ts p = Some c \<Longrightarrow> others_ok (put_client ts p c') p = others_ok ts p"
  by (auto simp: others_ok_def)

lemma tcp_inv_others: "tcp_inv ts \<Longrightarrow> others_ok ts p"
  by (simp add: tcp_inv_def others_ok_def)

lemma moves_put:
  "others_ok ts p \<Longrightarrow> tt_clients ts p = Some c \<Longrightarrow> client_inv c' \<Longrightarrow> R c' \<Longrightarrow> moves ts p (put_client ts p c') R"
  by (auto simp: moves_def tcp_inv_def others_ok_def)

lemma moves_put_kill:
  "others_ok ts p \<Longrightarrow> tt_clients ts p = Some c \<Longrightarrow> client_inv c' \<Longrightarrow> R c' \<Longrightarrow>
   moves ts p (put_client (kill_client ts p) p c') R"
  by (auto simp: moves_def tcp_inv_def others_ok_def)

lemma moves_removed: "others_ok ts p \<Longrightarrow> tt_clients ts p = Some c \<Longrightarrow> moves ts p (removed ts p) R"
  using tt_wf_removed [of ts p c] by (auto simp: moves_def tcp_inv_def others_ok_def split: if_splits)

lemma moves_removed_kill:
  "others_ok ts p \<Longrightarrow> tt_clients ts p = Some c \<Longrightarrow> moves ts p (removed (kill_client ts p) p) R"
  using tt_wf_removed [of "kill_client ts p" p c]
  by (auto simp: moves_def tcp_inv_def others_ok_def split: if_splits)

lemma moves_ctx [simp]: "moves ts p (ts'\<lparr>tt_ctx := x\<rparr>) R = moves ts p ts' R"
  by (simp add: moves_def)

lemma moves_mono: "moves ts p ts' R \<Longrightarrow> (\<And>c. R c \<Longrightarrow> S c) \<Longrightarrow> moves ts p ts' S"
  by (simp add: moves_def)

lemma moves_from: "moves (put_client ts p c) p ts' R = moves ts p ts' R"
  by (auto simp: moves_def)

section \<open>Data under way\<close>

text \<open>The bytes from SOCKS that are held, and the bytes an action hands to lwIP.\<close>

definition held :: "tcp_client \<Rightarrow> byte list" where
  "held c = (if tc_socks_up c \<and> tc_socks_recv_buf_used c > 0
             then drop (nat (tc_socks_recv_buf_sent c)) (tc_socks_recv_buf c) else [])"

fun written :: "nat \<Rightarrow> tcp_action \<Rightarrow> byte list" where
  "written p (Tcp_write q bs) = (if p = q then bs else [])"
| "written p _ = []"

definition writes :: "nat \<Rightarrow> tcp_action list \<Rightarrow> byte list" where
  "writes p os = concat (map (written p) os)"

lemma writes_simps [simp]:
  "writes p [] = []" "writes p (a # os) = written p a @ writes p os"
  "writes p (xs @ ys) = writes p xs @ writes p ys"
  by (simp_all add: writes_def)

lemma writes_close [simp]: "writes p (close_actions w q) = []"
  by (simp add: close_actions_def)

text \<open>Only \<open>Socks_init\<close> starts a client's history; \<open>about p os\<close>: the actions write nothing for another
  client and start none.\<close>

definition about :: "nat \<Rightarrow> tcp_action list \<Rightarrow> bool" where
  "about p os \<longleftrightarrow> (\<forall>q. q \<noteq> p \<longrightarrow> writes q os = []) \<and> (\<forall>q a. Socks_init q a \<notin> set os)"

lemma about_simps [simp]:
  "about p []" "about p (xs @ ys) = (about p xs \<and> about p ys)"
  "about p (Socks_free q # os) = about p os" "about p (Socks_send q bs # os) = about p os"
  "about p (Socks_recv q # os) = about p os" "about p (Tcp_close q # os) = about p os"
  "about p (Tcp_abort q # os) = about p os" "about p (Tcp_recved q n # os) = about p os"
  "about p (Tcp_output q # os) = about p os" "about p (Dealloc q # os) = about p os"
  "about p (Pbuf_freed # os) = about p os" "about p (Return e # os) = about p os"
  "about p (Tcp_write p bs # os) = about p os" "about p (close_actions w q)"
  by (auto simp: about_def close_actions_def)

text \<open>What a step may do to a client: \<open>uin\<close> arrives from lwIP and \<open>uout\<close> is taken by SOCKS, \<open>din\<close>
  arrives from SOCKS and \<open>dout\<close> is written to lwIP; the latter is only followed while the client is
  open.\<close>

definition flow :: "tcp_client \<Rightarrow> byte list \<Rightarrow> byte list \<Rightarrow> byte list \<Rightarrow> byte list \<Rightarrow> tcp_client \<Rightarrow> bool" where
  "flow c uin uout din dout c' \<longleftrightarrow> tc_buf c @ uin = uout @ tc_buf c' \<and>
     (\<not> tc_client_closed c' \<longrightarrow> \<not> tc_client_closed c \<and> held c @ din = dout @ held c')"

lemma flow_closed: "tc_client_closed c' \<Longrightarrow> flow c uin uout din dout c' = (tc_buf c @ uin = uout @ tc_buf c')"
  by (simp add: flow_def)

lemma client_base_close:
  "client_base c \<Longrightarrow> \<not> tc_socks_closed c \<Longrightarrow> tc_buf c \<noteq> [] \<Longrightarrow> client_inv (c\<lparr>tc_client_closed := True\<rparr>)"
  by (auto simp: client_inv_def client_base_def)

lemma client_base_no_callbacks [simp]: "client_base c \<Longrightarrow> client_base (no_callbacks c)"
  by (auto simp: client_base_def no_callbacks_def)

lemma no_callbacks_sel [simp]:
  "tc_buf (no_callbacks c) = tc_buf c" "tc_socks_closed (no_callbacks c) = tc_socks_closed c"
  "tc_client_closed (no_callbacks c) = tc_client_closed c"
  by (simp_all add: no_callbacks_def)

text \<open>The client side closes: the client stays with its buffer, or is gone.\<close>

lemma handle_freed_moves:
  assumes ok: "others_ok ts p" and c: "tt_clients ts p = Some c" "\<not> tc_client_closed c" "client_base c"
  shows "\<exists>ts' os. client_handle_freed_client w ts p = Some (ts', os) \<and> about p os \<and>
    moves ts p ts' (\<lambda>c'. tc_client_closed c' \<and> tc_buf c' = tc_buf c)"
proof -
  have wf: "tt_wf ts" using ok by (simp add: others_ok_def)
  show ?thesis
    using handle_freed_eq [OF wf c(1,2), of w] client_base_close [OF c(3)]
      moves_put_kill [OF ok c(1), of "c\<lparr>tc_client_closed := True\<rparr>"] moves_removed_kill [OF ok c(1)]
    by auto
qed

lemma free_client_moves:
  assumes ok: "others_ok ts p" and c: "tt_clients ts p = Some c" "\<not> tc_client_closed c" "client_base c"
  shows "\<exists>ts' os. client_free_client w ts p = Some (ts', os) \<and> about p os \<and>
    moves ts p ts' (\<lambda>c'. tc_client_closed c' \<and> tc_buf c' = tc_buf c)"
proof -
  have wf: "tt_wf ts" using ok by (simp add: others_ok_def)
  show ?thesis
    using free_client_eq [OF wf c(1,2), of w] client_base_close [OF client_base_no_callbacks [OF c(3)]]
      moves_put_kill [OF ok c(1), of "(no_callbacks c)\<lparr>tc_client_closed := True\<rparr>"] moves_removed_kill [OF ok c(1)]
    by auto
qed

lemma abort_client_moves:
  assumes ok: "others_ok ts p" and c: "tt_clients ts p = Some c" "\<not> tc_client_closed c" "client_base c"
  shows "\<exists>ts' os. client_abort_client w ts p = Some (ts', os) \<and> about p os \<and>
    moves ts p ts' (\<lambda>c'. tc_client_closed c' \<and> tc_buf c' = tc_buf c)"
proof -
  have wf: "tt_wf ts" using ok by (simp add: others_ok_def)
  show ?thesis
    using abort_client_eq [OF wf c(1,2), of w] client_base_close [OF client_base_no_callbacks [OF c(3)]]
      moves_put_kill [OF ok c(1), of "(no_callbacks c)\<lparr>tc_client_closed := True\<rparr>"] moves_removed_kill [OF ok c(1)]
    by auto
qed

text \<open>The SOCKS side closes.\<close>

lemma socks_freed_inv:
  assumes "client_inv c" "tc_socks_up c" "\<not> tc_client_closed c"
    and "tc_socks_recv_buf_used c \<ge> 0 \<or> tc_socks_recv_tcp_pending c > 0"
  shows "client_inv (socks_freed (c\<lparr>pcb_recv := False\<rparr>))"
  using assms
  by (auto simp: client_inv_def client_base_def socks_freed_def receiving_ok_def holding_def)

lemma free_socks_moves:
  assumes ok: "others_ok ts p" and c: "tt_clients ts p = Some c" "\<not> tc_socks_closed c"
    and i: "tc_client_closed c \<or> client_inv c"
  shows "\<exists>ts' os. client_free_socks w ts p = Some (ts', os) \<and> about p os \<and> writes p os = [] \<and>
    moves ts p ts' (\<lambda>c'. c' = socks_freed (c\<lparr>pcb_recv := False\<rparr>) \<and> \<not> tc_client_closed c)"
proof -
  have wf: "tt_wf ts" using ok by (simp add: others_ok_def)
  show ?thesis
    using free_socks_eq [OF wf c(1,2), of w] moves_removed [OF ok c(1)] moves_removed_kill [OF ok c(1)]
      moves_put [OF ok c(1), of "socks_freed (c\<lparr>pcb_recv := False\<rparr>)"] socks_freed_inv [of c] i
    by auto
qed

section \<open>Queuing with lwIP\<close>

lemma seg_seg_join: "a \<le> b \<Longrightarrow> b \<le> e \<Longrightarrow> seg (nat a) (nat (b - a)) xs @ seg (nat b) (nat (e - b)) xs =
    seg (nat a) (nat (e - a)) xs" if "0 \<le> a"
  using that by (subst seg_join) (auto simp: nat_diff_distrib)

lemma queue_loop_turn:
  assumes "min (tc_socks_recv_buf_used c - tc_socks_recv_buf_sent c) (int (lw_sndbuf w i)) = n" "0 < n"
    and "lw_write w i = Write_ok" "tc_socks_recv_buf_sent c + n < tc_socks_recv_buf_used c"
  shows "queue_loop w p i c =
    (case queue_loop w p (i + 1) (c\<lparr>tc_socks_recv_buf_sent := tc_socks_recv_buf_sent c + n,
              tc_socks_recv_tcp_pending := tc_socks_recv_tcp_pending c + n,
              pcb_unacked := pcb_unacked c + nat n\<rparr>) of (c2, os, failed) \<Rightarrow>
       (c2, Tcp_write p (seg (nat (tc_socks_recv_buf_sent c)) (nat n) (tc_socks_recv_buf c)) # os, failed))"
  using assms(2-4) by (subst queue_loop.simps) (simp add: assms(1))

lemma queue_loop_queues:
  assumes "holding c"
  shows "\<exists>s os failed. queue_loop w p i c =
      (c\<lparr>tc_socks_recv_buf_sent := s,
         tc_socks_recv_tcp_pending := tc_socks_recv_tcp_pending c + (s - tc_socks_recv_buf_sent c),
         pcb_unacked := pcb_unacked c + nat (s - tc_socks_recv_buf_sent c)\<rparr>, os, failed) \<and>
    tc_socks_recv_buf_sent c \<le> s \<and> s \<le> tc_socks_recv_buf_used c \<and> about p os \<and>
    writes p os = seg (nat (tc_socks_recv_buf_sent c)) (nat (s - tc_socks_recv_buf_sent c)) (tc_socks_recv_buf c)"
  using assms
proof (induction w p i c rule: queue_loop.induct)
  case (1 w p i c)
  let ?n = "min (tc_socks_recv_buf_used c - tc_socks_recv_buf_sent c) (int (lw_sndbuf w i))"
  let ?c = "c\<lparr>tc_socks_recv_buf_sent := tc_socks_recv_buf_sent c + ?n,
              tc_socks_recv_tcp_pending := tc_socks_recv_tcp_pending c + ?n,
              pcb_unacked := pcb_unacked c + nat ?n\<rparr>"
  let ?a = "Tcp_write p (seg (nat (tc_socks_recv_buf_sent c)) (nat ?n) (tc_socks_recv_buf c))"
  consider (stop) "?n \<le> 0 \<or> lw_write w i \<noteq> Write_ok"
    | (last) "0 < ?n" "lw_write w i = Write_ok" "\<not> tc_socks_recv_buf_sent ?c < tc_socks_recv_buf_used ?c"
    | (more) "0 < ?n" "lw_write w i = Write_ok" "tc_socks_recv_buf_sent ?c < tc_socks_recv_buf_used ?c"
    by linarith
  then show ?case
  proof cases
    case stop
    then have "\<exists>failed. queue_loop w p i c = (c, [], failed)"
      by (subst queue_loop.simps) (auto simp: Let_def split: write_result.split)
    then show ?thesis using 1(2) by (intro exI [of _ "tc_socks_recv_buf_sent c"]) (auto simp: holding_def)
  next
    case last
    then have "queue_loop w p i c = (?c, [?a], False)"
      by (subst queue_loop.simps) (simp add: Let_def)
    then show ?thesis using last 1(2)
      by (intro exI [of _ "tc_socks_recv_buf_sent c + ?n"] exI [of _ "[?a]"] exI [of _ False]) (auto simp: holding_def)
  next
    case more
    have hold: "holding ?c" using more 1(2) by (auto simp: holding_def min_def split: if_splits)
    have "\<not> ?n \<le> 0" using more(1) by linarith
    then obtain s os failed where ih: "queue_loop w p (i + 1) ?c =
        (?c\<lparr>tc_socks_recv_buf_sent := s,
           tc_socks_recv_tcp_pending := tc_socks_recv_tcp_pending ?c + (s - tc_socks_recv_buf_sent ?c),
           pcb_unacked := pcb_unacked ?c + nat (s - tc_socks_recv_buf_sent ?c)\<rparr>, os, failed)"
      "tc_socks_recv_buf_sent ?c \<le> s" "s \<le> tc_socks_recv_buf_used ?c" "about p os"
      "writes p os = seg (nat (tc_socks_recv_buf_sent ?c)) (nat (s - tc_socks_recv_buf_sent ?c)) (tc_socks_recv_buf ?c)"
      using 1(1) [OF refl _ more(2) refl refl more(3) hold] by blast
    have q: "queue_loop w p i c = (case queue_loop w p (i + 1) ?c of (c2, os, failed) \<Rightarrow> (c2, ?a # os, failed))"
      using more by (intro queue_loop_turn refl) simp_all
    have "seg (nat (tc_socks_recv_buf_sent c)) (nat ?n) (tc_socks_recv_buf c) @ writes p os =
        seg (nat (tc_socks_recv_buf_sent c)) (nat (s - tc_socks_recv_buf_sent c)) (tc_socks_recv_buf c)"
      using seg_seg_join [of "tc_socks_recv_buf_sent c" "tc_socks_recv_buf_sent c + ?n" s "tc_socks_recv_buf c"]
        ih(2,5) more 1(2) by (simp add: holding_def)
    moreover have "nat ?n + nat (s - (tc_socks_recv_buf_sent c + ?n)) = nat (s - tc_socks_recv_buf_sent c)"
      using ih(2) more by simp
    ultimately show ?thesis
      using q ih more by (intro exI [of _ s] exI [of _ "?a # os"] exI [of _ failed]) (simp add: add.assoc)
  qed
qed

text \<open>After queuing, everything was written (nothing is held), or lwIP has unconfirmed bytes and
  the rest waits, or the client was aborted.\<close>

definition queued :: "tcp_client \<Rightarrow> tcp_client \<Rightarrow> bool" where
  "queued c c' \<longleftrightarrow> (\<exists>s n. 0 < n \<and>
     (c' = c\<lparr>tc_socks_recv_buf_sent := s, tc_socks_recv_tcp_pending := int n, pcb_unacked := n,
             tc_socks_recv_buf_used := - 1\<rparr> \<or>
      c' = c\<lparr>tc_socks_recv_buf_sent := s, tc_socks_recv_tcp_pending := int n, pcb_unacked := n,
             tc_socks_recv_waiting := True\<rparr> \<and> holding c'))"

lemma abort_client_aborts: "client_abort_client w ts p = Some (ts', os) \<Longrightarrow> Tcp_abort p \<in> set os"
  by (auto simp: client_abort_client_def bind_eq_Some_conv)

lemma send_out_done:
  "client_socks_recv_send_out w ts p = Some (put_client ts p c', os, False) \<Longrightarrow> about p os \<Longrightarrow> queued c c' \<Longrightarrow>
   held c = writes p os @ held c' \<Longrightarrow>
   \<exists>ts' os aborted. client_socks_recv_send_out w ts p = Some (ts', os, aborted) \<and> about p os \<and>
    (if aborted then Tcp_abort p \<in> set os \<and> moves ts p ts' (\<lambda>c'. tc_client_closed c' \<and> tc_buf c' = tc_buf c)
     else \<exists>c'. ts' = put_client ts p c' \<and> queued c c' \<and> held c = writes p os @ held c')"
  by auto

lemma send_out_moves:
  assumes ok: "others_ok ts p"
    and c: "tt_clients ts p = Some c" "\<not> tc_client_closed c" "client_base c" "tc_socks_up c"
    and h: "holding c" "\<not> tc_socks_recv_waiting c" "\<not> if_receiving c"
      "tc_socks_recv_tcp_pending c = int (pcb_unacked c)"
  shows "\<exists>ts' os aborted. client_socks_recv_send_out w ts p = Some (ts', os, aborted) \<and> about p os \<and>
    (if aborted then Tcp_abort p \<in> set os \<and> moves ts p ts' (\<lambda>c'. tc_client_closed c' \<and> tc_buf c' = tc_buf c)
     else \<exists>c'. ts' = put_client ts p c' \<and> queued c c' \<and> held c = writes p os @ held c')"
proof -
  obtain s os failed where q: "queue_loop w p 0 c =
      (c\<lparr>tc_socks_recv_buf_sent := s,
         tc_socks_recv_tcp_pending := tc_socks_recv_tcp_pending c + (s - tc_socks_recv_buf_sent c),
         pcb_unacked := pcb_unacked c + nat (s - tc_socks_recv_buf_sent c)\<rparr>, os, failed)"
    and s: "tc_socks_recv_buf_sent c \<le> s" "s \<le> tc_socks_recv_buf_used c" and os: "about p os"
    and wr: "writes p os = seg (nat (tc_socks_recv_buf_sent c)) (nat (s - tc_socks_recv_buf_sent c)) (tc_socks_recv_buf c)"
    using queue_loop_queues [OF h(1), of w p 0] by blast
  let ?n = "pcb_unacked c + nat (s - tc_socks_recv_buf_sent c)"
  let ?c = "c\<lparr>tc_socks_recv_buf_sent := s,
         tc_socks_recv_tcp_pending := tc_socks_recv_tcp_pending c + (s - tc_socks_recv_buf_sent c), pcb_unacked := ?n\<rparr>"
  have pend: "tc_socks_recv_tcp_pending c + (s - tc_socks_recv_buf_sent c) = int ?n" using h(4) s by simp
  have base: "client_base ?c" using c(3,4) by (simp add: client_base_def)
  obtain ts2 os2 where ab: "client_abort_client w (put_client ts p ?c) p = Some (ts2, os2)" "about p os2"
      "moves ts p ts2 (\<lambda>c'. tc_client_closed c' \<and> tc_buf c' = tc_buf c)"
    using abort_client_moves [of "put_client ts p ?c" p ?c w] ok c base by (auto simp: moves_from)
  let ?k = "nat (s - tc_socks_recv_buf_sent c)" and ?a = "nat (tc_socks_recv_buf_sent c)"
  have "0 \<le> tc_socks_recv_buf_sent c" using h(1) by (simp add: holding_def)
  then have "?k + ?a = nat s" using s(1) by linarith
  then have "drop ?a (tc_socks_recv_buf c) = take ?k (drop ?a (tc_socks_recv_buf c)) @ drop (nat s) (tc_socks_recv_buf c)"
    using append_take_drop_id [of ?k "drop ?a (tc_socks_recv_buf c)"] by (simp only: drop_drop)
  moreover have "held c = drop ?a (tc_socks_recv_buf c)" using h(1) c(4) by (simp add: held_def holding_def)
  ultimately have split: "held c = writes p os @ drop (nat s) (tc_socks_recv_buf c)"
    by (simp only: wr seg_def)
  define c1 where "c1 = ?c"
  have c1: "tc_socks_recv_buf_sent c1 = s" "tc_socks_recv_buf_used c1 = tc_socks_recv_buf_used c"
    "tc_socks_recv_tcp_pending c1 = int ?n" using pend by (simp_all add: c1_def)
  show ?thesis
  proof (cases "failed \<or> \<not> lw_output w \<or> s < tc_socks_recv_buf_used c \<and> ?n = 0")
    case True
    let ?os = "os @ (if failed then [] else [Tcp_output p]) @ os2"
    have "client_socks_recv_send_out w ts p = Some (ts2, ?os, True)"
      using True q [folded c1_def] ab(1) [folded c1_def] c1 c h(1,2)
      by (auto simp: client_socks_recv_send_out_def holding_def Let_def)
    moreover have "about p ?os" using os ab(2) by simp
    ultimately show ?thesis
      using ab(3) abort_client_aborts [OF ab(1)] by (intro exI [of _ ts2] exI [of _ ?os] exI [of _ True]) simp
  next
    case False
    let ?c' = "if s < tc_socks_recv_buf_used c then ?c\<lparr>tc_socks_recv_waiting := True\<rparr> else ?c\<lparr>tc_socks_recv_buf_used := - 1\<rparr>"
    have u: "0 < tc_socks_recv_buf_used c" "tc_socks_recv_buf_sent c < tc_socks_recv_buf_used c"
      using h(1) unfolding holding_def by blast+
    have f: "\<not> failed" "lw_output w" "s < tc_socks_recv_buf_used c \<Longrightarrow> tc_socks_recv_tcp_pending c1 \<noteq> 0"
      using False c1(3) by auto
    have "client_socks_recv_send_out w ts p = Some (put_client ts p
        (if s < tc_socks_recv_buf_used c then c1\<lparr>tc_socks_recv_waiting := True\<rparr> else c1\<lparr>tc_socks_recv_buf_used := - 1\<rparr>),
        os @ [Tcp_output p], False)"
      using f q [folded c1_def] c1(1,2) c h(2) u by (simp add: client_socks_recv_send_out_def Let_def)
    then have "client_socks_recv_send_out w ts p = Some (put_client ts p ?c', os @ [Tcp_output p], False)"
      by (simp only: c1_def)
    moreover have "queued c ?c'"
    proof (cases "s < tc_socks_recv_buf_used c")
      case True
      then have "0 < ?n" using False by auto
      moreover have "holding (?c\<lparr>tc_socks_recv_waiting := True\<rparr>)"
        using True s(1) h(1) unfolding holding_def by auto
      ultimately show ?thesis using True unfolding queued_def pend if_P [OF True] by blast
    next
      case all: False
      then have "0 < ?n" using u s by linarith
      then show ?thesis unfolding queued_def pend if_not_P [OF all] by blast
    qed
    moreover have "held ?c' = drop (nat s) (tc_socks_recv_buf c)"
      using s h(1) c(4) by (auto simp: held_def holding_def)
    ultimately show ?thesis
      using split os by (intro send_out_done [where c' = ?c' and os = "os @ [Tcp_output p]"]) (simp_all del: if_split)
  qed
qed

definition after_queuing :: "tcp_client \<Rightarrow> tcp_client \<Rightarrow> bool" where
  "after_queuing c c' \<longleftrightarrow> client_base c' \<and> tc_buf c' = tc_buf c \<and> tc_client_closed c' = tc_client_closed c \<and>
     tc_socks_up c' \<and> tc_socks_closed c' = tc_socks_closed c \<and> \<not> if_receiving c' \<and>
     tc_socks_recv_tcp_pending c' = int (pcb_unacked c') \<and> 0 < pcb_unacked c' \<and>
     (tc_socks_recv_buf_used c' = - 1 \<or> holding c' \<and> tc_socks_recv_waiting c')"

lemma queued_after:
  assumes q: "queued c c'" and c: "client_base c" "\<not> if_receiving c" "tc_socks_up c"
  shows "after_queuing c c'"
proof -
  have b: "client_base (c\<lparr>tc_socks_recv_buf_sent := s, tc_socks_recv_tcp_pending := k, pcb_unacked := n,
      tc_socks_recv_buf_used := u\<rparr>)"
    "client_base (c\<lparr>tc_socks_recv_buf_sent := s, tc_socks_recv_tcp_pending := k, pcb_unacked := n,
      tc_socks_recv_waiting := wt\<rparr>)" for s k n u wt
    using c by (simp_all add: client_base_def)
  obtain s n where n: "0 < n" and d: "c' = c\<lparr>tc_socks_recv_buf_sent := s, tc_socks_recv_tcp_pending := int n,
        pcb_unacked := n, tc_socks_recv_buf_used := - 1\<rparr> \<or>
      c' = c\<lparr>tc_socks_recv_buf_sent := s, tc_socks_recv_tcp_pending := int n, pcb_unacked := n,
        tc_socks_recv_waiting := True\<rparr> \<and> holding c'"
    using q unfolding queued_def by blast
  from d show ?thesis
  proof (elim disjE conjE)
    assume e: "c' = c\<lparr>tc_socks_recv_buf_sent := s, tc_socks_recv_tcp_pending := int n,
        pcb_unacked := n, tc_socks_recv_buf_used := - 1\<rparr>"
    show ?thesis unfolding after_queuing_def e using b(1) c n by simp
  next
    assume e: "c' = c\<lparr>tc_socks_recv_buf_sent := s, tc_socks_recv_tcp_pending := int n, pcb_unacked := n,
        tc_socks_recv_waiting := True\<rparr>" and h: "holding c'"
    show ?thesis unfolding after_queuing_def using b(2) c n h unfolding e by simp
  qed
qed

text \<open>Going on to receive, or waiting.\<close>

lemma queued_receive_inv:
  assumes "queued c c'" "client_base c" "\<not> if_receiving c" "tc_socks_up c" "\<not> tc_socks_closed c"
    and "tc_socks_recv_buf_used c' = - 1"
  shows "client_inv (c'\<lparr>if_receiving := True\<rparr>)"
  using queued_after [OF assms(1-4)] assms(5,6)
  by (auto simp: after_queuing_def client_inv_def client_base_def receiving_ok_def)

lemma queued_wait_inv:
  assumes "queued c c'" "client_base c" "\<not> if_receiving c" "tc_socks_up c" "tc_socks_closed c \<or> tc_socks_recv_buf_used c' \<noteq> - 1"
  shows "client_inv c'"
  using queued_after [OF assms(1-4)] assms(5) by (auto simp: after_queuing_def client_inv_def receiving_ok_def)

lemma held_receiving [simp]: "held (c\<lparr>if_receiving := b\<rparr>) = held c"
  by (simp add: held_def)

section \<open>Events\<close>

lemma moves_start: "tcp_inv ts \<Longrightarrow> tt_clients ts p = Some c \<Longrightarrow> others_ok (put_client ts p c') p"
  by (simp add: tcp_inv_others)

lemma err_moves:
  assumes inv: "tcp_inv ts" and c: "tt_clients ts p = Some c" and ok: "tcp_contract ts (Lwip_err p w)"
  shows "\<exists>ts' os. tcp_step ts (Lwip_err p w) = Some (ts', os) \<and> about p os \<and>
    moves ts p ts' (flow c [] [] [] (writes p os))"
proof -
  have i: "client_base c" "\<not> tc_client_closed c"
    using inv c ok by (auto simp: tcp_inv_def client_inv_def tcp_contract_def)
  obtain ts' os where r: "client_handle_freed_client w ts p = Some (ts', os)" "about p os"
      "moves ts p ts' (\<lambda>c'. tc_client_closed c' \<and> tc_buf c' = tc_buf c)"
    using handle_freed_moves [OF tcp_inv_others [OF inv] c i(2,1)] by blast
  have "moves ts p ts' (flow c [] [] [] (writes p os))"
    using r(3) by (rule moves_mono) (simp add: flow_def)
  then show ?thesis using r(1,2) c i(2) by (simp add: client_err_func_def)
qed

lemma recv_closed_moves:
  assumes inv: "tcp_inv ts" and c: "tt_clients ts p = Some c" and ok: "tcp_contract ts (Lwip_recv p None w)"
  shows "\<exists>ts' os. tcp_step ts (Lwip_recv p None w) = Some (ts', os) \<and> about p os \<and>
    moves ts p ts' (flow c [] [] [] (writes p os))"
proof -
  have i: "client_base c" "\<not> tc_client_closed c"
    using inv c ok by (auto simp: tcp_inv_def client_inv_def tcp_contract_def)
  have same: "put_client ts p c = ts" using c by (simp add: put_client_def fun_upd_idem)
  obtain ts' os where r: "client_free_client w ts p = Some (ts', os)" "about p os"
      "moves ts p ts' (\<lambda>c'. tc_client_closed c' \<and> tc_buf c' = tc_buf c)"
    using free_client_moves [OF tcp_inv_others [OF inv] c i(2,1)] by blast
  have "moves ts p ts' (flow c [] [] [] (writes p (os @ [Return ERR_ABRT])))"
    using r(3) by (rule moves_mono) (simp add: flow_def)
  then show ?thesis using r(1,2) c i(2) by (simp add: client_recv_func_def same)
qed

lemma recv_moves:
  assumes inv: "tcp_inv ts" and c: "tt_clients ts p = Some c" and ok: "tcp_contract ts (Lwip_recv p (Some data) w)"
  shows "\<exists>ts' os. tcp_step ts (Lwip_recv p (Some data) w) = Some (ts', os) \<and> about p os \<and>
    Return ERR_MEM \<notin> set os \<and> moves ts p ts' (flow c data [] [] (writes p os))"
proof -
  have i: "client_inv c" using inv c by (simp add: tcp_inv_def)
  have o: "\<not> tc_client_closed c" "pcb_recv c" "data \<noteq> []" "length data \<le> pcb_window c"
    using ok c by (auto simp: tcp_contract_def)
  then have nc: "\<not> tc_socks_closed c" and w: "pcb_window c + length (tc_buf c) = TCP_WND"
    using i by (auto simp: client_inv_def client_base_def)
  let ?c = "c\<lparr>pcb_window := pcb_window c - length data, tc_buf := tc_buf c @ data\<rparr>"
  have fits: "\<not> length data > TCP_WND - length (tc_buf c)" using o w by simp
  show ?thesis
  proof (cases "tc_buf c = [] \<and> tc_socks_up c")
    case True
    then have s: "if_sending c = None"
      using i nc by (auto simp: client_inv_def client_base_def sending_ok_def split: option.splits)
    let ?c2 = "?c\<lparr>if_sending := Some data\<rparr>"
    have "client_inv ?c2"
      using i o w True nc by (auto simp: client_inv_def client_base_def sending_ok_def receiving_ok_def holding_def)
    moreover have "flow c data [] [] [] ?c2" using o by (simp add: flow_def held_def)
    ultimately have "moves ts p (put_client ts p ?c2) (flow c data [] [] [])"
      by (intro moves_put [OF tcp_inv_others [OF inv] c])
    then show ?thesis
      using True s o nc fits
      by (simp add: c client_recv_func_def client_send_to_socks_def Let_def)
  next
    case False
    have "client_inv ?c"
      using i o w False nc sending_ok_append [of "tc_buf c" "if_sending c" data]
      by (auto simp: client_inv_def client_base_def receiving_ok_def holding_def)
    moreover have "flow c data [] [] [] ?c" using o by (simp add: flow_def held_def)
    ultimately have "moves ts p (put_client ts p ?c) (flow c data [] [] [])"
      by (intro moves_put [OF tcp_inv_others [OF inv] c])
    then show ?thesis
      using False o nc fits by (auto simp: c client_recv_func_def Let_def)
  qed
qed

lemma socks_freed_flow:
  "\<not> tc_client_closed c \<Longrightarrow> flow c [] [] [] [] (socks_freed (c\<lparr>pcb_recv := False\<rparr>))"
  by (simp add: flow_def socks_freed_def held_def)

lemma socks_error_moves:
  assumes inv: "tcp_inv ts" and c: "tt_clients ts p = Some c" and ok: "tcp_contract ts (Socks_event p ev w)"
    and ev: "ev \<noteq> BSOCKSCLIENT_EVENT_UP"
  shows "\<exists>ts' os. tcp_step ts (Socks_event p ev w) = Some (ts', os) \<and> about p os \<and>
    moves ts p ts' (flow c [] [] [] (writes p os))"
proof -
  have o: "\<not> tc_socks_closed c" "ev = BSOCKSCLIENT_EVENT_ERROR_CLOSED \<Longrightarrow> tc_socks_up c" and i: "client_inv c"
    using ok c inv by (auto simp: tcp_contract_def tcp_inv_def)
  obtain ts' os where r: "client_free_socks w ts p = Some (ts', os)" "about p os" "writes p os = []"
      "moves ts p ts' (\<lambda>c'. c' = socks_freed (c\<lparr>pcb_recv := False\<rparr>) \<and> \<not> tc_client_closed c)"
    using free_socks_moves [OF tcp_inv_others [OF inv] c o(1)] i by blast
  have "moves ts p ts' (flow c [] [] [] (writes p os))"
    using r(4) by (rule moves_mono) (simp add: r(3) socks_freed_flow)
  moreover have "tcp_step ts (Socks_event p ev w) = Some (ts', os)"
    using r(1) c o ev by (cases ev) (simp_all add: client_socks_handler_def)
  ultimately show ?thesis using r(2) by blast
qed

lemma socks_up_moves:
  assumes inv: "tcp_inv ts" and c: "tt_clients ts p = Some c"
    and ok: "tcp_contract ts (Socks_event p BSOCKSCLIENT_EVENT_UP w)"
  shows "\<exists>ts' os. tcp_step ts (Socks_event p BSOCKSCLIENT_EVENT_UP w) = Some (ts', os) \<and> about p os \<and>
    moves ts p ts' (flow c [] [] [] (writes p os))"
proof -
  have o: "\<not> tc_socks_closed c" "\<not> tc_socks_up c" and i: "client_inv c"
    using ok c inv by (auto simp: tcp_contract_def tcp_inv_def)
  then have s: "if_sending c = None" "\<not> if_receiving c" "pcb_unacked c = 0"
    by (auto simp: client_inv_def client_base_def)
  define c1 where "c1 = c\<lparr>tc_socks_recv_buf_used := - 1, tc_socks_recv_tcp_pending := 0,
    pcb_sent := (if tc_client_closed c then pcb_sent c else True), tc_socks_up := True,
    if_sending := (if tc_buf c = [] then None else Some (tc_buf c)), if_receiving := \<not> tc_client_closed c\<rparr>"
  have "client_inv c1"
    using i s o by (auto simp: c1_def client_inv_def client_base_def receiving_ok_def sending_ok_def)
  moreover have "flow c [] [] [] [] c1" using o(2) by (simp add: flow_def held_def c1_def)
  ultimately have "moves ts p (put_client ts p c1) (flow c [] [] [] [])"
    by (intro moves_put [OF tcp_inv_others [OF inv] c])
  moreover have "tcp_step ts (Socks_event p BSOCKSCLIENT_EVENT_UP w) = Some (put_client ts p c1,
      (if tc_buf c = [] then [] else [Socks_send p (tc_buf c)]) @ (if tc_client_closed c then [] else [Socks_recv p]))"
    using c o s by (cases "tc_client_closed c"; cases "tc_buf c = []")
      (simp_all add: c1_def client_socks_handler_def client_send_to_socks_def client_socks_recv_initiate_def Let_def,
        (rule arg_cong [where f = "put_client ts p"], rule tcp_client.equality, simp_all)+)
  ultimately show ?thesis by simp
qed

lemma sending_ok_drop: "sending_ok buf (Some d) \<Longrightarrow> n \<le> length d \<Longrightarrow> n \<le> length buf"
  using prefix_length [of d buf] by (simp add: sending_ok_def)

lemma send_done_moves:
  assumes inv: "tcp_inv ts" and c: "tt_clients ts p = Some c" and ok: "tcp_contract ts (Send_done p data w)"
  shows "\<exists>ts' os. tcp_step ts (Send_done p data w) = Some (ts', os) \<and> about p os \<and>
    moves ts p ts' (flow c [] data [] (writes p os)) \<and> (tt_clients ts' p = None \<longrightarrow> tc_buf c = data)"
proof -
  have i: "client_inv c" using inv c by (simp add: tcp_inv_def)
  obtain d where d: "if_sending c = Some d" "data \<noteq> []" "data = take (length data) d"
    using ok c by (auto simp: tcp_contract_def split: option.splits)
  then have o: "tc_socks_up c" "\<not> tc_socks_closed c" "d = take (length d) (tc_buf c)"
    using i by (auto simp: client_inv_def client_base_def sending_ok_def)
  have n: "length data \<le> length (tc_buf c)" "length data \<le> length d"
    using prefix_length [OF d(3)] prefix_length [OF o(3)] by simp_all
  have data: "tc_buf c = data @ drop (length data) (tc_buf c)"
    using n d(3) o(3) by (metis append_take_drop_id min_def take_take)
  have ne: "tc_buf c \<noteq> []" "0 < length data" using d(2) n by auto
  define c1 where "c1 = c\<lparr>if_sending := None, tc_buf := drop (length data) (tc_buf c),
    pcb_window := (if tc_client_closed c then pcb_window c else pcb_window c + length data)\<rparr>"
  define os1 where "os1 = (if tc_client_closed c then [] else [Tcp_recved p (length data)])"
  have os1: "about p os1" "writes p os1 = []" by (simp_all add: os1_def)
  show ?thesis
  proof (cases "drop (length data) (tc_buf c) = []")
    case False
    let ?c2 = "c1\<lparr>if_sending := Some (tc_buf c1)\<rparr>"
    have "client_inv ?c2"
      using i False o n by (auto simp: c1_def client_inv_def client_base_def receiving_ok_def sending_ok_def holding_def)
    moreover have "flow c [] data [] [] ?c2" using data by (simp add: flow_def held_def c1_def)
    ultimately have "moves ts p (put_client ts p ?c2) (flow c [] data [] [])"
      by (intro moves_put [OF tcp_inv_others [OF inv] c])
    moreover have "tcp_step ts (Send_done p data w) = Some (put_client ts p ?c2, os1 @ [Socks_send p (tc_buf c1)])"
      using c o ne n False by (simp add: client_socks_send_handler_done_def c1_def os1_def Let_def)
    ultimately show ?thesis using os1 by simp
  next
    case True
    then have all: "tc_buf c = data" using data by simp
    have b: "tc_buf c1 = []" "tc_client_closed c1 = tc_client_closed c" "tc_socks_closed c1 = tc_socks_closed c"
      using True by (simp_all add: c1_def)
    show ?thesis
    proof (cases "tc_client_closed c")
      case opened: False
      have "client_inv c1"
        using i True o n all opened by (auto simp: c1_def client_inv_def client_base_def receiving_ok_def sending_ok_def holding_def)
      moreover have "flow c [] data [] [] c1" using all b by (simp add: flow_def held_def c1_def)
      ultimately have "moves ts p (put_client ts p c1) (flow c [] data [] [])"
        by (intro moves_put [OF tcp_inv_others [OF inv] c])
      moreover have "tcp_step ts (Send_done p data w) = Some (put_client ts p c1, os1)"
        using c o ne n True opened by (simp add: client_socks_send_handler_done_def c1_def os1_def Let_def)
      ultimately show ?thesis using os1 all by simp
    next
      case closed: True
      have others: "others_ok (put_client ts p c1) p" by (rule moves_start [OF inv c])
      obtain ts' os where r: "client_free_socks w (put_client ts p c1) p = Some (ts', os)" "about p os" "writes p os = []"
          "moves ts p ts' (\<lambda>c'. c' = socks_freed (c1\<lparr>pcb_recv := False\<rparr>) \<and> \<not> tc_client_closed c1)"
        using free_socks_moves [OF others, of c1 w] b o closed by (auto simp: moves_from)
      have "moves ts p ts' (flow c [] data [] [])"
        using r(4) by (rule moves_mono) (use b closed in simp)
      moreover have "tcp_step ts (Send_done p data w) = Some (ts', os1 @ os)"
        using c o ne n True closed r(1) by (simp add: client_socks_send_handler_done_def c1_def os1_def Let_def)
      ultimately show ?thesis using os1 r(2,3) all by simp
    qed
  qed
qed

lemma flow_aborted: "tc_client_closed c' \<and> tc_buf c' = tc_buf c \<Longrightarrow> flow c [] [] din dout c'"
  by (simp add: flow_def)

lemma recv_done_moves:
  assumes inv: "tcp_inv ts" and c: "tt_clients ts p = Some c" and ok: "tcp_contract ts (Recv_done p data w)"
  shows "\<exists>ts' os. tcp_step ts (Recv_done p data w) = Some (ts', os) \<and> about p os \<and>
    moves ts p ts' (flow c [] [] data (writes p os))"
proof -
  have o: "if_receiving c" "data \<noteq> []" "length data \<le> CLIENT_SOCKS_RECV_BUF_SIZE" and i: "client_inv c"
    using ok c inv by (auto simp: tcp_contract_def tcp_inv_def)
  then have u: "tc_socks_up c" "tc_socks_recv_buf_used c = - 1" "\<not> tc_socks_closed c"
    by (auto simp: client_inv_def client_base_def receiving_ok_def)
  show ?thesis
  proof (cases "tc_client_closed c")
    case True
    let ?c = "c\<lparr>if_receiving := False\<rparr>"
    have "client_inv ?c" using i True by (auto simp: client_inv_def client_base_def)
    moreover have "flow c [] [] data [] ?c" using True by (simp add: flow_def)
    ultimately have "moves ts p (put_client ts p ?c) (flow c [] [] data [])"
      by (intro moves_put [OF tcp_inv_others [OF inv] c])
    then show ?thesis using True o u c by (simp add: client_socks_recv_handler_done_def)
  next
    case False
    define c1 where "c1 = c\<lparr>if_receiving := False, tc_socks_recv_buf := data, tc_socks_recv_buf_used := int (length data),
      tc_socks_recv_buf_sent := 0, tc_socks_recv_waiting := False\<rparr>"
    have base: "client_base c1" using i by (auto simp: c1_def client_inv_def client_base_def)
    have f: "tt_clients (put_client ts p c1) p = Some c1" "\<not> tc_client_closed c1" "tc_socks_up c1" "holding c1"
      "\<not> tc_socks_recv_waiting c1" "\<not> if_receiving c1" "tc_socks_recv_tcp_pending c1 = int (pcb_unacked c1)"
      "tc_buf c1 = tc_buf c" "held c1 = data" "held c = []" "\<not> tc_socks_closed c1"
      using False u o i by (auto simp: c1_def holding_def held_def client_inv_def receiving_ok_def)
    obtain ts' os ab where r: "client_socks_recv_send_out w (put_client ts p c1) p = Some (ts', os, ab)" "about p os"
        "if ab then Tcp_abort p \<in> set os \<and> moves ts p ts' (\<lambda>c'. tc_client_closed c' \<and> tc_buf c' = tc_buf c1)
         else \<exists>c'. ts' = put_client ts p c' \<and> queued c1 c' \<and> held c1 = writes p os @ held c'"
      using send_out_moves [OF moves_start [OF inv c] f(1,2) base f(3-7), of w] unfolding moves_from put_put by blast
    have step: "tcp_step ts (Recv_done p data w) = (if ab then Some (ts', os) else do {
        c \<leftarrow> tt_clients ts' p;
        if tc_socks_recv_buf_used c = - 1 then do { (ts, os2) \<leftarrow> client_socks_recv_initiate ts' p; Some (ts, os @ os2) }
        else Some (ts', os) })"
      using c u o False r(1) by (simp add: client_socks_recv_handler_done_def c1_def)
    show ?thesis
    proof (cases ab)
      case True
      then have "moves ts p ts' (flow c [] [] data (writes p os))"
        using r(3) f(8) by (auto intro: moves_mono [OF _ flow_aborted])
      then show ?thesis using step r(2) True by simp
    next
      case nab: False
      then obtain c' where c': "ts' = put_client ts p c'" "queued c1 c'" "data = writes p os @ held c'"
        using r(3) f(9) by auto
      note a = queued_after [OF c'(2) base f(6,3), unfolded after_queuing_def]
      have fl: "flow c [] [] data (writes p os) (c'\<lparr>if_receiving := b\<rparr>)" for b
        using a f(2,8,10) c'(3) False by (simp add: flow_def)
      show ?thesis
      proof (cases "tc_socks_recv_buf_used c' = - 1")
        case True
        have "moves ts p (put_client ts p (c'\<lparr>if_receiving := True\<rparr>)) (flow c [] [] data (writes p os))"
          using queued_receive_inv [OF c'(2) base f(6,3,11) True] fl
          by (intro moves_put [OF tcp_inv_others [OF inv] c])
        moreover have "tcp_step ts (Recv_done p data w) = Some (put_client ts p (c'\<lparr>if_receiving := True\<rparr>), os @ [Socks_recv p])"
          using step nab True a f(2,11) by (simp add: c'(1) client_socks_recv_initiate_def)
        ultimately show ?thesis using r(2) by simp
      next
        case wait: False
        have "flow c [] [] data (writes p os) c'" using a f(2,8,10) c'(3) False by (simp add: flow_def)
        then have "moves ts p (put_client ts p c') (flow c [] [] data (writes p os))"
          using queued_wait_inv [OF c'(2) base f(6,3)] wait
          by (intro moves_put [OF tcp_inv_others [OF inv] c]) auto
        then show ?thesis using step nab wait r(2) by (simp add: c'(1))
      qed
    qed
  qed
qed

lemma sent_moves:
  assumes inv: "tcp_inv ts" and c: "tt_clients ts p = Some c" and ok: "tcp_contract ts (Lwip_sent p len w)"
  shows "\<exists>ts' os. tcp_step ts (Lwip_sent p len w) = Some (ts', os) \<and> about p os \<and>
    moves ts p ts' (flow c [] [] [] (writes p os)) \<and>
    (tt_clients ts' p = None \<and> Tcp_abort p \<notin> set os \<longrightarrow> tc_socks_closed c \<and> held c = [] \<and> pcb_unacked c = len)"
proof -
  have o: "\<not> tc_client_closed c" "pcb_sent c" "0 < len" "len \<le> pcb_unacked c" and i: "client_inv c"
    using ok c inv by (auto simp: tcp_contract_def tcp_inv_def)
  then have u: "tc_socks_up c" "receiving_ok c" by (auto simp: client_inv_def client_base_def)
  then have pend: "tc_socks_recv_tcp_pending c = int (pcb_unacked c)" by (simp add: receiving_ok_def)
  define c1 where "c1 = c\<lparr>pcb_unacked := pcb_unacked c - len,
    tc_socks_recv_tcp_pending := int (pcb_unacked c - len)\<rparr>"
  show ?thesis
  proof (cases "tc_socks_recv_buf_used c > 0")
    case True
    then have h: "holding c" "tc_socks_recv_waiting c" "\<not> if_receiving c"
      using u(2) by (auto simp: receiving_ok_def)
    define c2 where "c2 = c1\<lparr>tc_socks_recv_waiting := False\<rparr>"
    have base: "client_base c2" using i u(1) by (auto simp: c1_def c2_def client_inv_def client_base_def)
    have f: "tt_clients (put_client ts p c2) p = Some c2" "\<not> tc_client_closed c2" "tc_socks_up c2" "holding c2"
      "\<not> tc_socks_recv_waiting c2" "\<not> if_receiving c2" "tc_socks_recv_tcp_pending c2 = int (pcb_unacked c2)"
      "tc_buf c2 = tc_buf c" "held c2 = held c" "tc_socks_closed c2 = tc_socks_closed c"
      using h u o by (auto simp: c1_def c2_def holding_def held_def)
    obtain ts' os ab where r: "client_socks_recv_send_out w (put_client ts p c2) p = Some (ts', os, ab)" "about p os"
        "if ab then Tcp_abort p \<in> set os \<and> moves ts p ts' (\<lambda>c'. tc_client_closed c' \<and> tc_buf c' = tc_buf c2)
         else \<exists>c'. ts' = put_client ts p c' \<and> queued c2 c' \<and> held c2 = writes p os @ held c'"
      using send_out_moves [OF moves_start [OF inv c] f(1,2) base f(3-7), of w] unfolding moves_from put_put by blast
    have step: "tcp_step ts (Lwip_sent p len w) = (if ab then Some (ts', os @ [Return ERR_ABRT]) else do {
        c \<leftarrow> tt_clients ts' p;
        assert_that (tc_socks_recv_tcp_pending c > 0);
        if tc_socks_recv_buf_used c = - 1 \<and> \<not> tc_socks_closed c then do {
          (ts, os2) \<leftarrow> client_socks_recv_initiate ts' p;
          Some (ts\<lparr>tt_ctx := Some (In_sent, p, False)\<rparr>, os @ os2)
        } else Some (ts', os @ [Return ERR_OK]) })"
      using c u(1) o h(1,2) r(1) pend True by (simp add: client_sent_func_def c1_def c2_def holding_def of_nat_diff)
    show ?thesis
    proof (cases ab)
      case ab: True
      then have "moves ts p ts' (flow c [] [] [] (writes p os))"
        using r(3) f(8) by (auto intro: moves_mono [OF _ flow_aborted])
      moreover have "Tcp_abort p \<in> set os" using r(3) ab by simp
      ultimately show ?thesis using step r(2) ab by simp
    next
      case nab: False
      then obtain c' where c': "ts' = put_client ts p c'" "queued c2 c'" "held c = writes p os @ held c'"
        using r(3) f(9) by auto
      note a = queued_after [OF c'(2) base f(6,3), unfolded after_queuing_def]
      have fl: "flow c [] [] [] (writes p os) c'" "flow c [] [] [] (writes p os) (c'\<lparr>if_receiving := True\<rparr>)"
        using a f(2,8) c'(3) o(1) by (simp_all add: flow_def)
      show ?thesis
      proof (cases "tc_socks_recv_buf_used c' = - 1 \<and> \<not> tc_socks_closed c")
        case True
        have "moves ts p (put_client ts p (c'\<lparr>if_receiving := True\<rparr>)) (flow c [] [] [] (writes p os))"
          using queued_receive_inv [OF c'(2) base f(6,3)] f(10) True fl(2)
          by (intro moves_put [OF tcp_inv_others [OF inv] c]) auto
        moreover have "tcp_step ts (Lwip_sent p len w) =
            Some ((put_client ts p (c'\<lparr>if_receiving := True\<rparr>))\<lparr>tt_ctx := Some (In_sent, p, False)\<rparr>, os @ [Socks_recv p])"
          using step nab True a f(2,10) by (simp add: c'(1) client_socks_recv_initiate_def)
        ultimately show ?thesis using r(2) by simp
      next
        case wait: False
        have "moves ts p (put_client ts p c') (flow c [] [] [] (writes p os))"
          using queued_wait_inv [OF c'(2) base f(6,3)] wait f(10) fl(1)
          by (intro moves_put [OF tcp_inv_others [OF inv] c]) auto
        moreover have "tcp_step ts (Lwip_sent p len w) = Some (put_client ts p c', os @ [Return ERR_OK])"
          using step nab wait a f(10) by (auto simp: c'(1))
        ultimately show ?thesis using r(2) by simp
      qed
    qed
  next
    case False
    then have idle: "tc_socks_recv_buf_used c = - 1" "if_receiving c = (\<not> tc_socks_closed c)" "held c = []"
      using u(2) by (auto simp: receiving_ok_def holding_def held_def)
    show ?thesis
    proof (cases "tc_socks_closed c \<and> pcb_unacked c = len")
      case True
      have base: "client_base c1" using i u(1) by (auto simp: c1_def client_inv_def client_base_def)
      obtain ts' os where r: "client_free_client w (put_client ts p c1) p = Some (ts', os)" "about p os"
          "moves ts p ts' (\<lambda>c'. tc_client_closed c' \<and> tc_buf c' = tc_buf c1)"
        using free_client_moves [OF moves_start [OF inv c, of c1], of c1 w] base o(1) by (auto simp: c1_def moves_from)
      have "moves ts p ts' (flow c [] [] [] (writes p os))"
        using r(3) by (rule moves_mono) (simp add: flow_def c1_def)
      moreover have "tcp_step ts (Lwip_sent p len w) = Some (ts', os @ [Return ERR_ABRT])"
        using c u(1) o pend False True r(1) by (simp add: client_sent_func_def c1_def of_nat_diff)
      ultimately show ?thesis using r(2) True idle(3) by simp
    next
      case more: False
      have "client_inv c1"
        using i u o idle more by (auto simp: c1_def client_inv_def client_base_def receiving_ok_def)
      moreover have "flow c [] [] [] [] c1" using o(1) by (simp add: c1_def flow_def held_def)
      ultimately have "moves ts p (put_client ts p c1) (flow c [] [] [] [])"
        by (intro moves_put [OF tcp_inv_others [OF inv] c])
      moreover have "tcp_step ts (Lwip_sent p len w) = Some (put_client ts p c1, [Return ERR_OK])"
        using c u(1) o pend False more by (auto simp: client_sent_func_def c1_def of_nat_diff)
      ultimately show ?thesis by simp
    qed
  qed
qed

section \<open>Histories\<close>

text \<open>The bytes that arrived from a client, that SOCKS took, that arrived from SOCKS, in order, since the
  client was accepted; and the bytes written to the client.\<close>

fun client_data :: "nat \<Rightarrow> tcp_event \<Rightarrow> byte list" where
  "client_data p (Lwip_recv q (Some data) w) = (if p = q then data else [])"
| "client_data p _ = []"

fun socks_taken :: "nat \<Rightarrow> tcp_event \<Rightarrow> byte list" where
  "socks_taken p (Send_done q data w) = (if p = q then data else [])"
| "socks_taken p _ = []"

fun socks_data :: "nat \<Rightarrow> tcp_event \<Rightarrow> byte list" where
  "socks_data p (Recv_done q data w) = (if p = q then data else [])"
| "socks_data p _ = []"

fun starts :: "nat \<Rightarrow> tcp_event \<Rightarrow> bool" where
  "starts p (Accept user app l r mem malloc_ok socks_ok) = (mem = Some p)"
| "starts p _ = False"

fun starts_action :: "nat \<Rightarrow> tcp_action \<Rightarrow> bool" where
  "starts_action p (Socks_init q a) = (p = q)"
| "starts_action p _ = False"

definition history :: "(nat \<Rightarrow> tcp_event \<Rightarrow> byte list) \<Rightarrow> nat \<Rightarrow> tcp_event list \<Rightarrow> byte list" where
  "history f p es = foldl (\<lambda>acc e. if starts p e then [] else acc @ f p e) [] es"

definition written_to_client :: "nat \<Rightarrow> tcp_action list \<Rightarrow> byte list" where
  "written_to_client p os = foldl (\<lambda>acc a. if starts_action p a then [] else acc @ written p a) [] os"

lemma history_snoc: "history f p (es @ [e]) = (if starts p e then [] else history f p es @ f p e)"
  by (simp add: history_def)

lemma written_append:
  assumes "\<And>a. a \<in> set os' \<Longrightarrow> \<not> starts_action p a"
  shows "written_to_client p (os @ os') = written_to_client p os @ writes p os'"
  using assms
proof (induction os' rule: rev_induct)
  case (snoc a os')
  then show ?case by (simp add: written_to_client_def flip: append_assoc)
qed (simp add: written_to_client_def)

lemma about_starts: "about p os \<Longrightarrow> a \<in> set os \<Longrightarrow> \<not> starts_action q a"
  by (cases a) (auto simp: about_def)

lemma written_about:
  "about p os' \<Longrightarrow> written_to_client q (os @ os') = written_to_client q os @ (if q = p then writes p os' else [])"
  using written_append [of os' q os] about_starts [of p os'] by (auto simp: about_def)

definition relay_inv :: "tun_tcp \<Rightarrow> tcp_event list \<Rightarrow> tcp_action list \<Rightarrow> bool" where
  "relay_inv ts es os \<longleftrightarrow> tcp_inv ts \<and> (\<forall>p c. tt_clients ts p = Some c \<longrightarrow>
     history socks_taken p es @ tc_buf c = history client_data p es \<and>
     (\<not> tc_client_closed c \<longrightarrow> written_to_client p os @ held c = history socks_data p es))"

text \<open>Every event of a client moves that client.\<close>

lemma event_moves:
  assumes inv: "tcp_inv ts" and ok: "tcp_contract ts e"
    and e: "e \<noteq> Commit_return" "\<And>user app l r mem m s. e \<noteq> Accept user app l r mem m s"
  shows "\<exists>p c ts' os. tt_clients ts p = Some c \<and> tcp_step ts e = Some (ts', os) \<and> about p os \<and>
    moves ts p ts' (flow c (client_data p e) (socks_taken p e) (socks_data p e) (writes p os)) \<and>
    (\<forall>q. \<not> starts q e \<and> (q \<noteq> p \<longrightarrow> client_data q e = [] \<and> socks_taken q e = [] \<and> socks_data q e = []))"
proof (cases e)
  case (Lwip_err p w)
  then obtain c where c: "tt_clients ts p = Some c" using ok by (auto simp: tcp_contract_def split: option.splits)
  show ?thesis using err_moves [OF inv c ok [unfolded Lwip_err]] c unfolding Lwip_err by fastforce
next
  case (Lwip_recv p pb w)
  then obtain c where c: "tt_clients ts p = Some c" using ok by (auto simp: tcp_contract_def split: option.splits)
  show ?thesis
  proof (cases pb)
    case None
    show ?thesis
      using recv_closed_moves [OF inv c ok [unfolded Lwip_recv None]] c unfolding Lwip_recv None by fastforce
  next
    case (Some data)
    show ?thesis
      using recv_moves [OF inv c ok [unfolded Lwip_recv Some]] c unfolding Lwip_recv Some by fastforce
  qed
next
  case (Lwip_sent p len w)
  then obtain c where c: "tt_clients ts p = Some c" using ok by (auto simp: tcp_contract_def split: option.splits)
  show ?thesis using sent_moves [OF inv c ok [unfolded Lwip_sent]] c unfolding Lwip_sent by fastforce
next
  case (Socks_event p ev w)
  then obtain c where c: "tt_clients ts p = Some c" using ok by (auto simp: tcp_contract_def split: option.splits)
  show ?thesis
  proof (cases "ev = BSOCKSCLIENT_EVENT_UP")
    case True
    show ?thesis
      using socks_up_moves [OF inv c ok [unfolded Socks_event True]] c unfolding Socks_event True by fastforce
  next
    case False
    show ?thesis
      using socks_error_moves [OF inv c ok [unfolded Socks_event] False] c unfolding Socks_event by fastforce
  qed
next
  case (Send_done p data w)
  then obtain c where c: "tt_clients ts p = Some c" using ok by (auto simp: tcp_contract_def split: option.splits)
  show ?thesis using send_done_moves [OF inv c ok [unfolded Send_done]] c unfolding Send_done by fastforce
next
  case (Recv_done p data w)
  then obtain c where c: "tt_clients ts p = Some c" using ok by (auto simp: tcp_contract_def split: option.splits)
  show ?thesis using recv_done_moves [OF inv c ok [unfolded Recv_done]] c unfolding Recv_done by fastforce
qed (use e in auto)

text \<open>Accepting.\<close>

lemma tcp_inv_auth [simp]: "tcp_inv (ts\<lparr>tt_auth_owner := x\<rparr>) = tcp_inv ts"
  by (simp add: tcp_inv_def tt_wf_def)

definition fresh_client :: "tcp_client \<Rightarrow> bool" where
  "fresh_client c \<longleftrightarrow> client_inv c \<and> tc_buf c = [] \<and> held c = []"

lemma accept_step:
  assumes inv: "tcp_inv ts" and ok: "tcp_contract ts (Accept user app l r mem m s)"
  shows "\<exists>ts' os. tcp_step ts (Accept user app l r mem m s) = Some (ts', os) \<and> tcp_inv ts' \<and>
    (\<forall>q. mem \<noteq> Some q \<longrightarrow> tt_clients ts' q = tt_clients ts q) \<and>
    (\<forall>p c. mem = Some p \<and> tt_clients ts' p = Some c \<longrightarrow>
       fresh_client c \<and> os = [Tcp_accepted, Socks_init p l]) \<and>
    (\<forall>q a. mem \<noteq> Some q \<longrightarrow> writes q os = [] \<and> Socks_init q a \<notin> set os)"
proof (cases "\<exists>p name. mem = Some p \<and> source_username user app r m = Some name \<and> s")
  case True
  then obtain p name where p: "mem = Some p" "source_username user app r m = Some name" s by blast
  have new: "tt_clients ts p = None" using ok p(1) by (simp add: tcp_contract_def)
  have wf: "tt_wf ts" using inv by (simp add: tcp_inv_def)
  define c where "c = \<lparr>tc_local_addr = l, tc_remote_addr = r, tc_client_closed = False,
                   tc_buf = [], tc_socks_username = name, tc_socks_up = False, tc_socks_closed = False,
                   tc_socks_recv_buf = [], tc_socks_recv_buf_used = 0, tc_socks_recv_buf_sent = 0,
                   tc_socks_recv_waiting = False, tc_socks_recv_tcp_pending = 0,
                   pcb_err = True, pcb_recv = True, pcb_sent = False, pcb_window = TCP_WND, pcb_unacked = 0,
                   if_sending = None, if_receiving = False\<rparr>"
  define ts1 where "ts1 = (case name of None \<Rightarrow> ts | Some _ \<Rightarrow> ts\<lparr>tt_auth_owner := Some p\<rparr>)"
  define ts' where "ts' = (put_client ts1 p c)\<lparr>tt_tcp_clients := tt_tcp_clients ts1 @ [p],
                         tt_num_clients := tt_num_clients ts1 + 1, tt_ctx := Some (In_accept, p, False)\<rparr>"
  have t1: "tt_clients ts1 = tt_clients ts" "tt_tcp_clients ts1 = tt_tcp_clients ts" "tt_num_clients ts1 = tt_num_clients ts"
    by (simp_all add: ts1_def split: option.split)
  have "fresh_client c"
    by (simp add: fresh_client_def c_def client_inv_def client_base_def held_def)
  moreover have "tt_wf ts'" using wf new by (auto simp: ts'_def tt_wf_def t1)
  moreover have "tt_clients ts' = (tt_clients ts)(p \<mapsto> c)" by (simp add: ts'_def t1)
  moreover have "tcp_step ts (Accept user app l r mem m s) = Some (ts', [Tcp_accepted, Socks_init p l])"
    using p wf by (simp add: listener_accept_func_def ts'_def ts1_def c_def tt_wf_def Let_def split: option.split)
  ultimately show ?thesis using inv p(1) by (auto simp: tcp_inv_def fresh_client_def)
next
  case False
  let ?ts = "if mem \<noteq> None \<and> (\<exists>n. source_username user app r m = Some (Some n)) then ts\<lparr>tt_auth_owner := mem\<rparr> else ts"
  have "tcp_step ts (Accept user app l r mem m s) = Some (?ts, [Tcp_accepted, Return ERR_MEM])"
    using False by (auto simp: listener_accept_func_def Let_def split: option.split)
  moreover have "tcp_inv ?ts" "tt_clients ?ts = tt_clients ts" using inv by simp_all
  moreover have "\<And>p. mem = Some p \<Longrightarrow> tt_clients ts p = None" using ok by (simp add: tcp_contract_def)
  ultimately show ?thesis by auto
qed

lemma commit_step:
  assumes "tcp_contract ts Commit_return"
  shows "\<exists>ts' os. tcp_step ts Commit_return = Some (ts', os) \<and> ts' = ts\<lparr>tt_ctx := None\<rparr> \<and> about q os \<and> writes q os = []"
  using assms by (auto simp: tcp_contract_def sync_commit_return_def Let_def)

lemma relay_moves:
  assumes rel: "relay_inv ts es os" and c: "tt_clients ts p = Some c"
    and m: "moves ts p ts' (flow c (client_data p e) (socks_taken p e) (socks_data p e) (writes p os'))"
    and a: "about p os'"
    and q: "\<forall>q. \<not> starts q e \<and> (q \<noteq> p \<longrightarrow> client_data q e = [] \<and> socks_taken q e = [] \<and> socks_data q e = [])"
  shows "relay_inv ts' (es @ [e]) (os @ os')"
proof -
  have "history socks_taken r (es @ [e]) @ tc_buf c' = history client_data r (es @ [e]) \<and>
      (\<not> tc_client_closed c' \<longrightarrow> written_to_client r (os @ os') @ held c' = history socks_data r (es @ [e]))"
    if r: "tt_clients ts' r = Some c'" for r c'
  proof (cases "r = p")
    case True
    have f: "flow c (client_data p e) (socks_taken p e) (socks_data p e) (writes p os') c'"
      using m r True by (simp add: moves_def)
    have h: "history socks_taken p es @ tc_buf c = history client_data p es"
      "\<not> tc_client_closed c \<Longrightarrow> written_to_client p os @ held c = history socks_data p es"
      using rel c by (auto simp: relay_inv_def)
    have "history client_data p es @ client_data p e = history socks_taken p es @ socks_taken p e @ tc_buf c'"
      using f h(1) by (metis append.assoc flow_def)
    moreover have "written_to_client p os @ writes p os' @ held c' = history socks_data p es @ socks_data p e"
      if "\<not> tc_client_closed c'"
      using f h(2) that by (metis append.assoc flow_def)
    ultimately show ?thesis using True q written_about [OF a, of p os] by (simp add: history_snoc)
  next
    case False
    then have "tt_clients ts r = Some c'" using m r by (simp add: moves_def)
    then show ?thesis
      using rel False q written_about [OF a, of r os] by (simp add: history_snoc relay_inv_def)
  qed
  then show ?thesis using m by (simp add: relay_inv_def moves_def)
qed

lemma relay_accept:
  assumes rel: "relay_inv ts es os" and ok: "tcp_contract ts (Accept user app l r mem m s)"
  shows "\<exists>ts' os'. tcp_step ts (Accept user app l r mem m s) = Some (ts', os') \<and>
    relay_inv ts' (es @ [Accept user app l r mem m s]) (os @ os')"
proof -
  have inv: "tcp_inv ts" using rel by (simp add: relay_inv_def)
  from accept_step [OF inv ok] obtain ts' os'
    where st: "tcp_step ts (Accept user app l r mem m s) = Some (ts', os')" "tcp_inv ts'"
    and same: "\<forall>q. mem \<noteq> Some q \<longrightarrow> tt_clients ts' q = tt_clients ts q"
    and new: "\<forall>p c. mem = Some p \<and> tt_clients ts' p = Some c \<longrightarrow> fresh_client c \<and> os' = [Tcp_accepted, Socks_init p l]"
    and os': "\<forall>q a. mem \<noteq> Some q \<longrightarrow> writes q os' = [] \<and> Socks_init q a \<notin> set os'"
    by (elim exE conjE) (rule that; assumption)
  have "history socks_taken q (es @ [Accept user app l r mem m s]) @ tc_buf c =
        history client_data q (es @ [Accept user app l r mem m s]) \<and>
      (\<not> tc_client_closed c \<longrightarrow> written_to_client q (os @ os') @ held c =
        history socks_data q (es @ [Accept user app l r mem m s]))"
    if q: "tt_clients ts' q = Some c" for q c
  proof (cases "mem = Some q")
    case True
    then show ?thesis using new True q by (simp add: history_snoc fresh_client_def written_to_client_def)
  next
    case False
    have "\<not> starts_action q a" if "a \<in> set os'" for a
      using os' False that by (cases a) auto
    then have "written_to_client q (os @ os') = written_to_client q os"
      using written_append [of os' q os] os' False by simp
    then show ?thesis using rel q same False by (simp add: history_snoc relay_inv_def)
  qed
  then show ?thesis using st by (auto simp: relay_inv_def)
qed

lemma relay_step:
  assumes rel: "relay_inv ts es os" and ok: "tcp_contract ts e"
  shows "\<exists>ts' os'. tcp_step ts e = Some (ts', os') \<and> relay_inv ts' (es @ [e]) (os @ os')"
proof -
  have inv: "tcp_inv ts" using rel by (simp add: relay_inv_def)
  consider (accept) user app l r mem m s where "e = Accept user app l r mem m s"
    | (commit) "e = Commit_return"
    | (other) "e \<noteq> Commit_return" "\<And>user app l r mem m s. e \<noteq> Accept user app l r mem m s"
    by blast
  then show ?thesis
  proof cases
    case accept
    then show ?thesis using relay_accept [OF rel] ok by blast
  next
    case commit
    obtain ts' os' where st: "tcp_step ts e = Some (ts', os')" "ts' = ts\<lparr>tt_ctx := None\<rparr>"
      and a: "\<And>q. about q os' \<and> writes q os' = []"
      using commit_step ok unfolding commit by (metis option.inject prod.inject)
    have "written_to_client q (os @ os') = written_to_client q os" for q
      using written_about [of q os' q os] a by simp
    then show ?thesis using st rel commit by (auto simp: relay_inv_def history_snoc)
  next
    case other
    from event_moves [OF inv ok other] obtain p c ts' os' where m: "tt_clients ts p = Some c"
      "tcp_step ts e = Some (ts', os')" "about p os'"
      "moves ts p ts' (flow c (client_data p e) (socks_taken p e) (socks_data p e) (writes p os'))"
      "\<forall>q. \<not> starts q e \<and> (q \<noteq> p \<longrightarrow> client_data q e = [] \<and> socks_taken q e = [] \<and> socks_data q e = [])"
      by blast
    then show ?thesis using relay_moves [OF rel m(1,4,3,5)] by blast
  qed
qed

interpretation relay: traced_machine tcp_step tcp_contract relay_inv
  by unfold_locales (rule relay_step)

lemma relay_inv_initial: "relay_inv tcp_initial [] []"
  by (simp add: relay_inv_def tcp_initial_def tcp_inv_def tt_wf_def)

lemma relay_run:
  assumes "admissible tcp_contract tcp_step tcp_initial es"
  obtains ts os where "run tcp_step tcp_initial es = Some (ts, os)" "relay_inv ts es os"
  using relay.run_traced [OF relay_inv_initial assms] by auto

text \<open>The loop that frees the clients at the end of \<open>run\<close>.\<close>

definition ends :: "nat \<Rightarrow> tcp_client \<Rightarrow> tcp_action \<Rightarrow> bool" where
  "ends p c a \<longleftrightarrow> a = Dealloc p \<or> a = Tcp_abort p \<and> \<not> tc_client_closed c \<or> a = Socks_free p \<and> \<not> tc_socks_closed c"

lemma murder_eq:
  assumes "tt_wf ts" "tt_clients ts p = Some c"
  shows "\<exists>os ts1. client_murder ts p = Some (removed ts1 p, os) \<and> (ts1 = ts \<or> ts1 = kill_client ts p) \<and>
    set os = {a. ends p c a}"
proof -
  let ?t = "if tc_client_closed c then ts else kill_client ts p"
  let ?c1 = "if tc_client_closed c then c else (no_callbacks c)\<lparr>tc_client_closed := True\<rparr>"
  let ?c2 = "if tc_socks_closed c then ?c1 else socks_freed ?c1"
  have e: "tc_client_closed ?c2" "tc_socks_closed ?c2" "tc_socks_closed ?c1 = tc_socks_closed c"
    by (simp_all add: socks_freed_def no_callbacks_def)
  have "client_dealloc (put_client ?t p ?c2) p = Some (removed ?t p, [Dealloc p])"
    using client_dealloc_eq [of "put_client ?t p ?c2" p ?c2] assms e(1,2) by simp
  then have "client_murder ts p = Some (removed ?t p,
      (if tc_client_closed c then [] else [Tcp_abort p]) @ (if tc_socks_closed c then [] else [Socks_free p]) @ [Dealloc p])"
    using assms(2) e(3) by (auto simp: client_murder_def Let_def)
  then show ?thesis
    by (intro exI [of _ "(if tc_client_closed c then [] else [Tcp_abort p]) @ (if tc_socks_closed c then [] else [Socks_free p]) @ [Dealloc p]"]
        exI [of _ ?t]) (auto simp: ends_def)
qed

lemma free_clients_all:
  assumes "tt_wf ts"
  shows "\<exists>ts' os. free_clients ts = Some (ts', os) \<and> tt_tcp_clients ts' = [] \<and> tt_clients ts' = (\<lambda>_. None) \<and>
    tt_num_clients ts' = 0 \<and>
    set os = {a. \<exists>p c. tt_clients ts p = Some c \<and> ends p c a}"
  using assms
proof (induction ts rule: free_clients.induct)
  case (1 ts)
  show ?case
  proof (cases "tt_tcp_clients ts")
    case Nil
    then show ?thesis using 1(2) by (subst free_clients.simps) (auto simp: tt_wf_def)
  next
    case (Cons p ps)
    then obtain c where c: "tt_clients ts p = Some c" using 1(2) by (auto simp: tt_wf_def)
    obtain o1 ts1 where m: "client_murder ts p = Some (removed ts1 p, o1)" "ts1 = ts \<or> ts1 = kill_client ts p"
        "set o1 = {a. ends p c a}"
      using murder_eq [OF 1(2) c] by blast
    have t1: "tt_clients ts1 = tt_clients ts" "tt_wf ts1" using m(2) 1(2) by auto
    have "tt_wf (removed ts1 p)" using t1 c by (intro tt_wf_removed) auto
    then obtain ts2 o2 where r: "free_clients (removed ts1 p) = Some (ts2, o2)" "tt_tcp_clients ts2 = []"
        "tt_clients ts2 = (\<lambda>_. None)" "tt_num_clients ts2 = 0"
        "set o2 = {a. \<exists>q c. tt_clients (removed ts1 p) q = Some c \<and> ends q c a}"
      using 1(1) [OF Cons m(1) refl] by blast
    have "free_clients ts = Some (ts2, o1 @ o2)"
      using Cons m(1) r(1) by (subst free_clients.simps) simp
    moreover have o2: "a \<in> set o2 \<longleftrightarrow> (\<exists>q c. q \<noteq> p \<and> tt_clients ts q = Some c \<and> ends q c a)" for a
      unfolding r(5) t1(1) removed_sel mem_Collect_eq by (metis fun_upd_other fun_upd_same option.distinct(1))
    have "a \<in> set (o1 @ o2) \<longleftrightarrow> (\<exists>q d. tt_clients ts q = Some d \<and> ends q d a)" for a
    proof (cases "ends p c a")
      case True
      then show ?thesis using c m(3) by auto
    next
      case False
      then have "(\<exists>q d. tt_clients ts q = Some d \<and> ends q d a) \<longleftrightarrow> (\<exists>q d. q \<noteq> p \<and> tt_clients ts q = Some d \<and> ends q d a)"
        using c by (metis option.inject)
      then show ?thesis using False o2 [of a] m(3) by simp
    qed
    then have "set (o1 @ o2) = {a. \<exists>q d. tt_clients ts q = Some d \<and> ends q d a}" by blast
    ultimately show ?thesis using r by blast
  qed
qed

section \<open>Properties\<close>

text \<open>C1. The relay is safe and keeps the bytes in order. As long as lwIP, the SOCKS clients and
  \<open>malloc\<close> keep their contracts, no assertion fails and no freed client is used, in whatever order
  connections, data, confirmations, errors and jobs arrive. At every moment, for every client: what
  SOCKS took followed by the buffer is exactly what lwIP delivered, and while the client is open,
  what was written to lwIP followed by what is held is exactly what SOCKS delivered. The client
  counter is the length of the client list, which holds every client once.\<close>
theorem tcp_relay_in_order:
  assumes "admissible tcp_contract tcp_step tcp_initial es"
  shows "\<exists>ts os. run tcp_step tcp_initial es = Some (ts, os) \<and>
    distinct (tt_tcp_clients ts) \<and> set (tt_tcp_clients ts) = dom (tt_clients ts) \<and>
    tt_num_clients ts = int (length (tt_tcp_clients ts)) \<and>
    (\<forall>p c. tt_clients ts p = Some c \<longrightarrow>
       history socks_taken p es @ tc_buf c = history client_data p es \<and>
       (\<not> tc_client_closed c \<longrightarrow> written_to_client p os @ held c = history socks_data p es))"
proof -
  obtain ts os where "run tcp_step tcp_initial es = Some (ts, os)" "relay_inv ts es os"
    using assms by (rule relay_run)
  then show ?thesis by (intro exI [of _ ts] exI [of _ os]) (auto simp: relay_inv_def tcp_inv_def tt_wf_def)
qed

text \<open>A client that sends two packets, the second while the first is being sent, and receives three
  bytes when lwIP has room for two.\<close>

definition calm :: lwip where
  "calm = \<lparr>lw_sndbuf = (\<lambda>i. if i = 0 then 2 else 0), lw_write = (\<lambda>_. Write_ok), lw_output = True, lw_close = True\<rparr>"

definition sample_relay :: "tcp_event list" where
  "sample_relay = [Accept None False (BADDR_IPV4 1 2) (BADDR_IPV4 3 4) (Some 7) True True, Commit_return,
     Lwip_recv 7 (Some [10, 11]) calm, Socks_event 7 BSOCKSCLIENT_EVENT_UP calm,
     Lwip_recv 7 (Some [12]) calm, Send_done 7 [10] calm, Recv_done 7 [20, 21, 22] calm]"

lemma sample_relay_admissible: "admissible tcp_contract tcp_step tcp_initial sample_relay"
  by code_simp

lemma sample_relay_run:
  obtains ts os where "run tcp_step tcp_initial sample_relay = Some (ts, os)" "tt_num_clients ts = 1"
proof -
  have "map_option (\<lambda>x. tt_num_clients (fst x)) (run tcp_step tcp_initial sample_relay) = Some 1" by code_simp
  then show ?thesis using that by auto
qed

theorem tcp_relay_in_order_witness:
  "\<exists>ts os. run tcp_step tcp_initial sample_relay = Some (ts, os) \<and> tt_num_clients ts = 1 \<and>
    history client_data 7 sample_relay = [10, 11, 12] \<and> history socks_taken 7 sample_relay = [10] \<and>
    (\<forall>c. tt_clients ts 7 = Some c \<longrightarrow> [10] @ tc_buf c = [10, 11, 12])"
proof -
  have h: "history client_data 7 sample_relay = [10, 11, 12]" "history socks_taken 7 sample_relay = [10]"
    by code_simp+
  have n: "\<forall>ts os. run tcp_step tcp_initial sample_relay = Some (ts, os) \<longrightarrow> tt_num_clients ts = 1"
    using sample_relay_run by (metis option.inject prod.inject)
  obtain ts os where "run tcp_step tcp_initial sample_relay = Some (ts, os)"
    "\<forall>p c. tt_clients ts p = Some c \<longrightarrow> history socks_taken p sample_relay @ tc_buf c = history client_data p sample_relay"
    using tcp_relay_in_order [OF sample_relay_admissible] by blast
  then show ?thesis using h n by (intro exI [of _ ts] exI [of _ os]) (metis h)
qed



text \<open>C31. No received data is refused. \<open>client_recv_func\<close> can answer \<open>ERR_MEM\<close> when data does not fit the
  client's buffer, and lwIP would then hold the data back; since the window is reopened only by
  what SOCKS has taken, a peer that respects its window never meets that answer, after any run.\<close>
theorem recv_never_refused:
  assumes "admissible tcp_contract tcp_step tcp_initial (es @ [Lwip_recv p (Some data) w])"
    and "run tcp_step tcp_initial es = Some (ts, os)"
  shows "\<exists>ts' os'. tcp_step ts (Lwip_recv p (Some data) w) = Some (ts', os') \<and> Return ERR_MEM \<notin> set os'"
proof -
  have adm: "admissible tcp_contract tcp_step tcp_initial es" "tcp_contract ts (Lwip_recv p (Some data) w)"
    using assms(1) admissible_append [OF assms(2), of tcp_contract "[Lwip_recv p (Some data) w]"] by auto
  then have "tcp_inv ts"
    using relay_run [OF adm(1)] assms(2) by (metis option.inject prod.inject relay_inv_def)
  moreover obtain c where "tt_clients ts p = Some c"
    using adm(2) by (auto simp: tcp_contract_def split: option.splits)
  ultimately show ?thesis using recv_moves adm(2) by blast
qed

theorem recv_never_refused_witness:
  "\<exists>ts os ts' os'. run tcp_step tcp_initial sample_relay = Some (ts, os) \<and>
    tcp_step ts (Lwip_recv 7 (Some (replicate 100 1)) calm) = Some (ts', os') \<and> Return ERR_MEM \<notin> set os'"
proof -
  have a: "admissible tcp_contract tcp_step tcp_initial
    (sample_relay @ [Lwip_recv 7 (Some (replicate 100 1)) calm])" by code_simp
  obtain ts os where "run tcp_step tcp_initial sample_relay = Some (ts, os)" using sample_relay_run .
  then show ?thesis using recv_never_refused [OF a] by blast
qed

text \<open>C32. Shutting down frees everything. Whatever happened before, \<open>run\<close>'s loop over the client list
  ends, no client is left and the counter is zero; every client is freed, every connection lwIP still
  holds is aborted and every SOCKS client still in use is freed, and nothing else is.\<close>
theorem shutdown_frees_all:
  assumes "admissible tcp_contract tcp_step tcp_initial es"
    and "run tcp_step tcp_initial es = Some (ts, os)"
  shows "\<exists>ts' os'. free_clients ts = Some (ts', os') \<and> tt_tcp_clients ts' = [] \<and>
    tt_clients ts' = (\<lambda>_. None) \<and> tt_num_clients ts' = 0 \<and>
    set os' = {a. \<exists>p c. tt_clients ts p = Some c \<and>
      (a = Dealloc p \<or> a = Tcp_abort p \<and> \<not> tc_client_closed c \<or> a = Socks_free p \<and> \<not> tc_socks_closed c)}"
proof -
  have "tt_wf ts"
    using relay_run [OF assms(1)] assms(2) by (metis option.inject prod.inject relay_inv_def tcp_inv_def)
  then show ?thesis using free_clients_all [of ts] by (simp only: ends_def)
qed

theorem shutdown_frees_all_witness:
  "\<exists>ts os ts' os'. run tcp_step tcp_initial sample_relay = Some (ts, os) \<and> tt_num_clients ts = 1 \<and>
    free_clients ts = Some (ts', os') \<and> tt_num_clients ts' = 0"
proof -
  obtain ts os where r: "run tcp_step tcp_initial sample_relay = Some (ts, os)" "tt_num_clients ts = 1"
    using sample_relay_run .
  then show ?thesis using shutdown_frees_all [OF sample_relay_admissible r(1)] by blast
qed

definition leaking_run :: "tcp_event list" where
  "leaking_run = [Accept None False (BADDR_IPV4 1 2) (BADDR_IPV4 3 4) (Some 7) True True, Commit_return,
     Socks_event 7 BSOCKSCLIENT_EVENT_UP calm, Lwip_recv 7 (Some [65]) calm,
     Socks_event 7 BSOCKSCLIENT_EVENT_ERROR calm, Commit_return]"

text \<open>C33. A buffer of lwIP can be leaked. When the SOCKS client fails while \<open>client_recv_func\<close> waits in
  \<open>SYNC_COMMIT\<close> for the data it just queued to be sent, the client is aborted and the function
  returns \<open>ERR_ABRT\<close> without freeing the pbuf, which lwIP leaves to the application on that answer.\<close>
theorem recv_abort_leaks_pbuf:
  "admissible tcp_contract tcp_step tcp_initial leaking_run \<and>
   (\<exists>ts os. run tcp_step tcp_initial leaking_run = Some (ts, os) \<and> tt_num_clients ts = 0 \<and>
     tt_ctx ts = None \<and> last os = Return ERR_ABRT \<and> Pbuf_freed \<notin> set os)"
proof -
  have "admissible tcp_contract tcp_step tcp_initial leaking_run" by code_simp
  moreover have "(case run tcp_step tcp_initial leaking_run of None \<Rightarrow> False | Some (ts, os) \<Rightarrow>
    tt_num_clients ts = 0 \<and> tt_ctx ts = None \<and> last os = Return ERR_ABRT \<and> Pbuf_freed \<notin> set os)" by code_simp
  ultimately show ?thesis by (auto split: option.splits)
qed

definition two_clients :: "tcp_event list" where
  "two_clients = [Accept (Some [117]) True (BADDR_IPV4 1 2) (BADDR_IPV4 3 1024) (Some 1) True True, Commit_return,
     Accept (Some [117]) True (BADDR_IPV4 1 2) (BADDR_IPV4 5 1536) (Some 2) True True, Commit_return]"


end
