(* ===== verification/Parse_Number.thy ===== *)
theory Parse_Number
  imports Addr_Print
begin

text \<open>
  Numbers as text, misc/parse_number.h: the parsers of unsigned decimal, hexadecimal and signed
  numbers into a \<open>uintmax_t\<close> of 64 bits, and the generator of decimal text. Text is a list of
  bytes; a failed parse (return value 0) is \<open>None\<close>.
\<close>

section \<open>Operations\<close>

definition decode_decimal_digit :: "byte \<Rightarrow> int" where
  "decode_decimal_digit c = (if 48 \<le> c \<and> c \<le> 57 then uint c - 48 else - 1)"

definition decode_hex_digit :: "byte \<Rightarrow> int" where
  "decode_hex_digit c =
     (if 48 \<le> c \<and> c \<le> 57 then uint c - 48
      else if 65 \<le> c \<and> c \<le> 70 then uint c - 55
      else if 97 \<le> c \<and> c \<le> 102 then uint c - 87
      else - 1)"

fun parse__no_overflow :: "cstr \<Rightarrow> u64 \<Rightarrow> u64 option" where
  "parse__no_overflow [] n = Some n"
| "parse__no_overflow (c # cs) n =
     (if c < 48 \<or> c > 57 then None else parse__no_overflow cs (10 * n + (ucast c - 48)))"

text \<open>\<open>"18446744073709551615"\<close>\<close>

definition parse_number__uintmax_max_str :: cstr where
  "parse_number__uintmax_max_str =
     [49, 56, 52, 52, 54, 55, 52, 52, 48, 55, 51, 55, 48, 57, 53, 53, 49, 54, 49, 53]"

text \<open>\<open>memcmp\<close> of two texts of the same length gives a positive number.\<close>

fun memcmp_greater :: "cstr \<Rightarrow> cstr \<Rightarrow> bool" where
  "memcmp_greater (x # xs) (y # ys) = (if x = y then memcmp_greater xs ys else x > y)"
| "memcmp_greater _ _ = False"

definition parse_unsigned_integer_bin :: "cstr \<Rightarrow> u64 option" where
  "parse_unsigned_integer_bin str =
     (if length str = 0 then None else
      let str = dropWhile (\<lambda>c. c = 48) str in
      if length str > length parse_number__uintmax_max_str \<or>
         length str = length parse_number__uintmax_max_str \<and> memcmp_greater str parse_number__uintmax_max_str
      then None
      else parse__no_overflow str 0)"

fun parse_hex_loop :: "cstr \<Rightarrow> u64 \<Rightarrow> u64 option" where
  "parse_hex_loop [] n = Some n"
| "parse_hex_loop (c # cs) n =
     (let digit = decode_hex_digit c in
      if digit < 0 then None else
      if n > (- 1) div 16 then None else
      let n = n * 16 in
      if word_of_int digit > - 1 - n then None else parse_hex_loop cs (n + word_of_int digit))"

definition parse_unsigned_hex_integer_bin :: "cstr \<Rightarrow> u64 option" where
  "parse_unsigned_hex_integer_bin str = (if length str = 0 then None else parse_hex_loop str 0)"

definition parse_signmag_integer_bin :: "cstr \<Rightarrow> (int \<times> u64) option" where
  "parse_signmag_integer_bin str =
     (let (sign, str) = (case str of
            c # cs \<Rightarrow> if c = 43 \<or> c = 45 then (1 - 2 * of_bool (c = 45), cs) else (1, str)
          | [] \<Rightarrow> (1, str))
      in case parse_unsigned_integer_bin str of None \<Rightarrow> None | Some mag \<Rightarrow> Some (sign, mag))"

lemma u64_div_10:
  fixes x :: u64
  shows "unat (x div 10) = unat x div 10" "0 < x div 10 \<longleftrightarrow> 10 \<le> unat x"
proof -
  show d: "unat (x div 10) = unat x div 10" by (simp add: unat_div)
  have "0 < x div 10 \<longleftrightarrow> unat (x div 10) \<noteq> 0" by (simp add: word_less_nat_alt)
  then show "0 < x div 10 \<longleftrightarrow> 10 \<le> unat x" using d by (simp add: div_eq_0_iff not_less)
qed

function compute_decimal_repr_size :: "u64 \<Rightarrow> int" where
  "compute_decimal_repr_size x =
     (let x' = x div 10 in if x' > 0 then 1 + compute_decimal_repr_size x' else 1)"
  by auto
termination
  by (relation "measure unat") (simp_all add: u64_div_10)

text \<open>The loop writes backwards from \<open>pos\<close>; writing outside the buffer is \<open>None\<close>.\<close>

function write_digits :: "u64 \<Rightarrow> cstr \<Rightarrow> int \<Rightarrow> cstr option" where
  "write_digits x out pos =
     (let pos = pos - 1 in
      if pos < 0 \<or> int (length out) \<le> pos then None else
      let out = out[nat pos := ucast (48 + x mod 10)];
          x' = x div 10 in
      if x' > 0 then write_digits x' out pos else Some out)"
  by auto
termination
  by (relation "measure (\<lambda>(x, out, pos). unat x)") (simp_all add: u64_div_10)

declare compute_decimal_repr_size.simps [simp del] write_digits.simps [simp del]

definition generate_decimal_repr :: "u64 \<Rightarrow> cstr \<Rightarrow> int \<Rightarrow> cstr option" where
  "generate_decimal_repr x out repr_size = do {
     assert_that (repr_size = compute_decimal_repr_size x);
     write_digits x out repr_size
   }"

definition generate_decimal_repr_string :: "u64 \<Rightarrow> cstr \<Rightarrow> (cstr \<times> int) option" where
  "generate_decimal_repr_string x out = do {
     let repr_size = compute_decimal_repr_size x;
     out \<leftarrow> generate_decimal_repr x out repr_size;
     if int (length out) \<le> repr_size then None else
     Some (out[nat repr_size := 0], repr_size)
   }"

section \<open>Decimal text\<close>

definition is_digit :: "byte \<Rightarrow> bool" where
  "is_digit c \<longleftrightarrow> 48 \<le> c \<and> c \<le> 57"

fun decimal_value :: "cstr \<Rightarrow> nat" where
  "decimal_value [] = 0"
| "decimal_value (c # cs) = (unat c - 48) * 10 ^ length cs + decimal_value cs"

lemma is_digit_nat: "is_digit c \<longleftrightarrow> 48 \<le> unat c \<and> unat c \<le> 57"
  by (simp add: is_digit_def word_le_nat_alt)

lemma mult_add_less: "a < b \<Longrightarrow> u < k \<Longrightarrow> a * k + u < b * k + v" for a b k u v :: nat
proof -
  assume "a < b" "u < k"
  then have "Suc a * k \<le> b * k" by (intro mult_le_mono1) simp
  with \<open>u < k\<close> show ?thesis by simp
qed

lemma decimal_value_bound: "list_all is_digit cs \<Longrightarrow> decimal_value cs < 10 ^ length cs"
proof (induction cs)
  case (Cons c cs)
  then have "unat c - 48 < 10" "decimal_value cs < 10 ^ length cs" by (auto simp: is_digit_nat)
  from mult_add_less [OF this, of 0] show ?case by simp
qed simp

lemma decimal_value_zeros: "decimal_value (dropWhile (\<lambda>c. c = 48) cs) = decimal_value cs"
  by (induction cs) auto

lemma digits_zeros: "list_all is_digit (dropWhile (\<lambda>c. c = 48) cs) = list_all is_digit cs"
  by (induction cs) (auto simp: is_digit_def)

lemma decimal_value_append: "decimal_value (xs @ ys) = decimal_value xs * 10 ^ length ys + decimal_value ys"
  by (induction xs) (auto simp: power_add algebra_simps)

lemma memcmp_decimal:
  assumes "length xs = length ys" "list_all is_digit xs" "list_all is_digit ys"
  shows "memcmp_greater xs ys \<longleftrightarrow> decimal_value ys < decimal_value xs"
  using assms
proof (induction xs ys rule: list_induct2)
  case (Cons x xs y ys)
  have b: "decimal_value xs < 10 ^ length ys" "decimal_value ys < 10 ^ length ys"
    using Cons decimal_value_bound [of xs] decimal_value_bound [of ys] by auto
  have d: "48 \<le> unat x" "48 \<le> unat y" using Cons.prems by (auto simp: is_digit_nat)
  let ?k = "10 ^ length ys :: nat"
  show ?case
  proof (cases "unat x" "unat y" rule: linorder_cases)
    case less
    then have "(unat x - 48) * ?k + decimal_value xs < (unat y - 48) * ?k + decimal_value ys"
      using d by (intro mult_add_less b(1)) simp
    then show ?thesis using less Cons.hyps by (auto simp: word_less_nat_alt)
  next
    case equal
    then show ?thesis using Cons by (simp add: word_unat_eq_iff)
  next
    case greater
    then have "(unat y - 48) * ?k + decimal_value ys < (unat x - 48) * ?k + decimal_value xs"
      using d by (intro mult_add_less b(2)) simp
    then show ?thesis using greater Cons.hyps by (auto simp: word_less_nat_alt)
  qed
qed simp

lemma parse__no_overflow_value:
  "parse__no_overflow cs (of_nat m) =
     (if list_all is_digit cs then Some (of_nat (m * 10 ^ length cs + decimal_value cs)) else None)"
proof (induction cs arbitrary: m)
  case (Cons c cs)
  show ?case
  proof (cases "is_digit c")
    case True
    then have "48 \<le> unat c" by (simp add: is_digit_nat)
    moreover have "ucast c = (of_nat (unat c) :: u64)" by simp
    ultimately have "10 * of_nat m + (ucast c - 48) = (of_nat (10 * m + (unat c - 48)) :: u64)"
      by (simp only: of_nat_add of_nat_mult of_nat_diff of_nat_numeral)
    moreover have "\<not> c < 48" "\<not> c > 57" using True by (simp_all add: is_digit_def not_less)
    moreover have "(10 * m + (unat c - 48)) * 10 ^ length cs + decimal_value cs =
        m * 10 ^ length (c # cs) + decimal_value (c # cs)"
      by (simp add: algebra_simps)
    ultimately show ?thesis using True Cons.IH [of "10 * m + (unat c - 48)"]
      by (simp only: parse__no_overflow.simps list.pred_inject if_False simp_thms)
  next
    case False
    then show ?thesis by (auto simp: is_digit_def not_le)
  qed
qed simp

lemma max_str:
  "list_all is_digit parse_number__uintmax_max_str" "length parse_number__uintmax_max_str = 20"
  "decimal_value parse_number__uintmax_max_str = 2 ^ 64 - 1"
  by (simp_all add: parse_number__uintmax_max_str_def is_digit_def)

lemma decimal_value_lower: "c \<noteq> 48 \<Longrightarrow> is_digit c \<Longrightarrow> 10 ^ length cs \<le> decimal_value (c # cs)"
proof -
  assume "c \<noteq> 48" "is_digit c"
  then have "1 \<le> unat c - 48" by (auto simp: is_digit_nat word_unat_eq_iff)
  then have "1 * 10 ^ length cs \<le> (unat c - 48) * 10 ^ length cs" by (rule mult_le_mono1)
  then show ?thesis unfolding decimal_value.simps mult_1 by (rule trans_le_add1)
qed

text \<open>The test for overflow, on the text without leading zeros.\<close>

lemma overflow_test:
  assumes "list_all is_digit cs" "cs = [] \<or> hd cs \<noteq> 48"
  shows "(length cs > length parse_number__uintmax_max_str \<or>
      length cs = length parse_number__uintmax_max_str \<and> memcmp_greater cs parse_number__uintmax_max_str) \<longleftrightarrow>
    2 ^ 64 \<le> decimal_value cs"
proof (cases "length cs" "20 :: nat" rule: linorder_cases)
  case less
  then have "(10::nat) ^ length cs \<le> 10 ^ 19" by (intro power_increasing) auto
  then have "decimal_value cs < 2 ^ 64" using decimal_value_bound [OF assms(1)] by simp
  with less show ?thesis by (simp add: max_str)
next
  case equal
  then have "memcmp_greater cs parse_number__uintmax_max_str \<longleftrightarrow> 2 ^ 64 - 1 < decimal_value cs"
    using memcmp_decimal [of cs parse_number__uintmax_max_str] assms(1) max_str by simp
  then show ?thesis using equal by (simp add: max_str) linarith
next
  case greater
  then obtain d ds where c: "cs = d # ds" by (cases cs) auto
  then have "(10::nat) ^ 20 \<le> 10 ^ length ds" using greater by (intro power_increasing) auto
  then have "2 ^ 64 \<le> decimal_value cs" using decimal_value_lower [of d ds] assms c by simp
  with greater show ?thesis by (simp add: max_str)
qed

section \<open>Generated text\<close>

lemma dec_small: "n < 10 \<Longrightarrow> dec n = [of_nat (48 + n)]"
  by (subst digits.simps) (simp add: digit_char_def)

lemma dec_large: "10 \<le> n \<Longrightarrow> dec n = dec (n div 10) @ [of_nat (48 + n mod 10)]"
  by (subst digits.simps) (simp add: digit_char_def)

lemma digit_byte:
  assumes "d < 10"
  shows "is_digit (of_nat (48 + d))" "unat (of_nat (48 + d) :: byte) - 48 = d"
proof -
  have "unat (of_nat (48 + d) :: byte) = 48 + d" using assms by (simp only: unat_of_nat) simp
  then show "is_digit (of_nat (48 + d))" "unat (of_nat (48 + d) :: byte) - 48 = d"
    using assms by (simp_all add: is_digit_nat del: of_nat_add)
qed

lemma dec_value: "list_all is_digit (dec n) \<and> decimal_value (dec n) = n"
proof (induction n rule: less_induct)
  case (less n)
  show ?case
  proof (cases "n < 10")
    case True
    then show ?thesis using digit_byte [of n] by (simp add: dec_small)
  next
    case False
    then show ?thesis using less [of "n div 10"] digit_byte [of "n mod 10"]
      by (simp add: dec_large decimal_value_append)
  qed
qed

lemma dec_not_empty [simp]: "dec n \<noteq> []"
  by (cases "n < 10") (simp_all add: dec_small dec_large)

lemma repr_size: "compute_decimal_repr_size x = int (length (dec (unat x)))"
proof (induction x rule: compute_decimal_repr_size.induct)
  case (1 x)
  then show ?case
    by (subst compute_decimal_repr_size.simps) (simp add: Let_def u64_div_10 dec_small dec_large)
qed

lemma digit_of_u64: "ucast (48 + x mod 10) = (of_nat (48 + unat x mod 10) :: byte)" for x :: u64
proof -
  have m: "unat x mod 10 < 10" by simp
  have "unat (x mod 10) = unat x mod 10" by (simp add: unat_mod)
  then have "unat (48 + x mod 10) = 48 + unat x mod 10" using m by (subst unat_add_lem [THEN iffD1]) simp_all
  moreover have "ucast (48 + x mod 10) = (of_nat (unat (48 + x mod 10)) :: byte)" by simp
  ultimately show ?thesis by simp
qed

lemma write_digits_ok:
  assumes "pos = int (length (dec (unat x)))" "length (dec (unat x)) \<le> length out"
  shows "write_digits x out pos = Some (dec (unat x) @ drop (length (dec (unat x))) out)"
  using assms
proof (induction x out pos rule: write_digits.induct)
  case (1 x out pos)
  show ?case
  proof (cases "unat x < 10")
    case True
    then show ?thesis using 1(2,3)
      by (subst write_digits.simps) (cases out; simp add: Let_def u64_div_10 dec_small digit_of_u64)
  next
    case False
    let ?n = "length (dec (unat x div 10))"
    have d: "dec (unat x) = dec (unat x div 10) @ [of_nat (48 + unat x mod 10)]" using False by (simp add: dec_large)
    then have l: "length (dec (unat x)) = Suc ?n" by simp
    let ?out = "out[?n := of_nat (48 + unat x mod 10)]"
    have "write_digits (x div 10) ?out (int ?n) =
        Some (dec (unat x div 10) @ drop ?n ?out)"
      using 1(1) [OF refl _ refl refl] 1(2,3) False l by (simp add: u64_div_10 digit_of_u64)
    moreover have "drop ?n ?out = of_nat (48 + unat x mod 10) # drop (Suc ?n) out"
      using 1(3) l by (simp add: drop_update_swap Cons_nth_drop_Suc [symmetric])
    ultimately show ?thesis using 1(2,3) False l d
      by (subst write_digits.simps) (simp add: Let_def u64_div_10 digit_of_u64)
  qed
qed

lemma parse_unsigned_eq:
  "parse_unsigned_integer_bin str =
     (if str \<noteq> [] \<and> list_all is_digit str \<and> decimal_value str < 2 ^ 64
      then Some (of_nat (decimal_value str)) else None)"
proof -
  let ?cs = "dropWhile (\<lambda>c. c = 48) str"
  have hd: "?cs = [] \<or> hd ?cs \<noteq> 48" using hd_dropWhile [of "\<lambda>c. c = 48" str] by blast
  have p: "parse__no_overflow ?cs 0 = (if list_all is_digit str then Some (of_nat (decimal_value str)) else None)"
    using parse__no_overflow_value [of ?cs 0] by (simp add: decimal_value_zeros digits_zeros)
  show ?thesis
  proof (cases "list_all is_digit str")
    case True
    then show ?thesis using overflow_test [OF _ hd] p
      by (auto simp: parse_unsigned_integer_bin_def Let_def digits_zeros decimal_value_zeros not_less)
  qed (use p in \<open>simp add: parse_unsigned_integer_bin_def Let_def\<close>)
qed

section \<open>Properties\<close>

text \<open>C36. The decimal parser is exact: it accepts precisely the texts that have at least one character,
  only digits, and a value that fits 64 bits, however many leading zeros there are, and returns that
  value; the overflow test by comparing text never errs and the arithmetic never wraps around.\<close>
theorem parse_unsigned_exact:
  "parse_unsigned_integer_bin str =
     (if str \<noteq> [] \<and> list_all is_digit str \<and> decimal_value str < 2 ^ 64
      then Some (of_nat (decimal_value str)) else None)"
  by (rule parse_unsigned_eq)

text \<open>C37. Generating the decimal text of any number and parsing it gives the number back; the text
  has at most 20 characters, is written with its terminating zero into the buffer, and nothing else
  of the buffer changes.\<close>
theorem decimal_roundtrip:
  assumes "21 \<le> length out"
  shows "\<exists>t. generate_decimal_repr_string x out = Some (t @ [0] @ drop (length t + 1) out, int (length t)) \<and>
    length t \<le> 20 \<and> parse_unsigned_integer_bin t = Some x"
proof -
  let ?t = "dec (unat x)"
  have u: "unat x < 2 ^ 64" using unsigned_less [of x] by simp
  then have "unat x < 10 ^ 20" by simp
  then have l: "length ?t \<le> 20" by (intro digits_length) simp_all
  then have "write_digits x out (int (length ?t)) = Some (?t @ drop (length ?t) out)"
    using assms by (intro write_digits_ok) simp_all
  moreover have "drop (length ?t) out = out ! length ?t # drop (length ?t + 1) out"
    using assms l by (simp add: Cons_nth_drop_Suc)
  ultimately have "generate_decimal_repr_string x out = Some (?t @ [0] @ drop (length ?t + 1) out, int (length ?t))"
    using assms l by (simp add: generate_decimal_repr_string_def generate_decimal_repr_def repr_size list_update_append Let_def)
  moreover have "parse_unsigned_integer_bin ?t = Some x"
    using u by (simp add: parse_unsigned_eq dec_value)
  ultimately show ?thesis using l by blast
qed

theorem decimal_roundtrip_witness:
  "\<exists>t. generate_decimal_repr_string 1205 (replicate 21 7) = Some (t @ [0] @ drop (length t + 1) (replicate 21 7), int (length t)) \<and>
    parse_unsigned_integer_bin t = Some 1205"
  using decimal_roundtrip [of "replicate 21 7" 1205] by auto

end
