(* ===== verification/Ip4_Text.thy ===== *)
theory Ip4_Text
  imports Parse_Number
begin

text \<open>
  IPv4 addresses, prefixes and masks, misc/ipaddr.h with misc/find_char.h. An address is the
  \<open>uint32_t\<close> the code holds, in network byte order; \<open>old\<close> is what the output argument held
  before, of which nothing is left on success. A return value 0 is \<open>None\<close>.
\<close>

section \<open>Operations\<close>

record ipv4_ifaddr =
  if4_addr :: u32
  if4_prefix :: int

definition b_find_char_bin :: "cstr \<Rightarrow> byte \<Rightarrow> nat option" where
  "b_find_char_bin str c =
     (let pos = length (takeWhile (\<lambda>x. x \<noteq> c) str) in if pos < length str then Some pos else None)"

function ipv4_parse_loop :: "nat \<Rightarrow> cstr \<Rightarrow> byte list \<Rightarrow> byte list option" where
  "ipv4_parse_loop i name out =
     (let j = length (takeWhile (\<lambda>c. c \<noteq> 46) name) in
      if (j = length name \<and> i < 3) \<or> (j < length name \<and> i = 3) then None else
      if j < 1 \<or> j > 3 then None else
      (case parse_unsigned_integer_bin (take j name) of None \<Rightarrow> None
       | Some d \<Rightarrow>
           if d > 255 then None else
           let out = out[i := ucast d] in
           if i = 3 then Some out else ipv4_parse_loop (i + 1) (drop (j + 1) name) out))"
  by auto
termination
proof (relation "measure (\<lambda>(i, name, out). length name)")
  fix i name and out out' :: "byte list" and j d
  assume "j = length (takeWhile (\<lambda>c. c \<noteq> 46) name)" "\<not> (j < 1 \<or> 3 < j)"
  then have "name \<noteq> []" by auto
  then show "((i + 1, drop (j + 1) name, out'), i, name, out) \<in> measure (\<lambda>(i, name, out). length name)" by simp
qed simp

declare ipv4_parse_loop.simps [simp del]

definition ipaddr_parse_ipv4_addr_bin :: "cstr \<Rightarrow> u32 \<Rightarrow> u32 option" where
  "ipaddr_parse_ipv4_addr_bin name old = map_option unmem32 (ipv4_parse_loop 0 name (mem32 old))"

definition ipaddr_parse_ipv4_prefix_bin :: "cstr \<Rightarrow> int option" where
  "ipaddr_parse_ipv4_prefix_bin str =
     (case parse_unsigned_integer_bin str of None \<Rightarrow> None
      | Some d \<Rightarrow> if d > 32 then None else Some (uint d))"

definition ipaddr_parse_ipv4_ifaddr_bin :: "cstr \<Rightarrow> ipv4_ifaddr \<Rightarrow> ipv4_ifaddr option" where
  "ipaddr_parse_ipv4_ifaddr_bin str old = do {
     slash_pos \<leftarrow> b_find_char_bin str 47;
     addr \<leftarrow> ipaddr_parse_ipv4_addr_bin (take slash_pos str) (if4_addr old);
     prefix \<leftarrow> ipaddr_parse_ipv4_prefix_bin (drop (slash_pos + 1) str);
     Some \<lparr>if4_addr = addr, if4_prefix = prefix\<rparr>
   }"

definition mask_bits :: "nat \<Rightarrow> u32" where
  "mask_bits n = foldl (\<lambda>t i. t OR push_bit (32 - i - 1) 1) 0 [0..<n]"

text \<open>\<open>None\<close> where an assertion fails.\<close>

definition ipaddr_ipv4_mask_from_prefix :: "int \<Rightarrow> u32 option" where
  "ipaddr_ipv4_mask_from_prefix prefix = do {
     assert_that (prefix \<ge> 0);
     assert_that (prefix \<le> 32);
     Some (hton32 (mask_bits (nat prefix)))
   }"

function prefix_loop :: "u32 \<Rightarrow> nat \<Rightarrow> u32 \<Rightarrow> int option" where
  "prefix_loop msk i t =
     (if i \<le> 32 then
        if ntoh32 msk = t then Some (int i)
        else prefix_loop msk (i + 1) (if i < 32 then t OR push_bit (32 - i - 1) 1 else t)
      else None)"
  by auto
termination
  by (relation "measure (\<lambda>(msk, i, t). 33 - i)") auto

declare prefix_loop.simps [simp del]

definition ipaddr_ipv4_prefix_from_mask :: "u32 \<Rightarrow> int option" where
  "ipaddr_ipv4_prefix_from_mask msk = prefix_loop msk 0 0"

definition ipaddr_ipv4_ifaddr_from_addr_mask :: "u32 \<Rightarrow> u32 \<Rightarrow> ipv4_ifaddr option" where
  "ipaddr_ipv4_ifaddr_from_addr_mask addr msk =
     (case ipaddr_ipv4_prefix_from_mask msk of None \<Rightarrow> None
      | Some prefix \<Rightarrow> Some \<lparr>if4_addr = addr, if4_prefix = prefix\<rparr>)"

definition ipaddr_ipv4_addrs_in_network :: "u32 \<Rightarrow> u32 \<Rightarrow> int \<Rightarrow> bool option" where
  "ipaddr_ipv4_addrs_in_network addr1 addr2 netprefix = do {
     assert_that (netprefix \<ge> 0);
     assert_that (netprefix \<le> 32);
     msk \<leftarrow> ipaddr_ipv4_mask_from_prefix netprefix;
     Some (addr1 AND msk = addr2 AND msk)
   }"

definition ipaddr_print_addr :: "u32 \<Rightarrow> cstr" where
  "ipaddr_print_addr addr =
     (let b = mem32 addr in
      dec (unat (b ! 0)) @ [dot] @ dec (unat (b ! 1)) @ [dot] @ dec (unat (b ! 2)) @ [dot] @ dec (unat (b ! 3)))"

definition ipaddr_print_ifaddr :: "ipv4_ifaddr \<Rightarrow> cstr option" where
  "ipaddr_print_ifaddr ifaddr = do {
     assert_that (if4_prefix ifaddr \<ge> 0);
     assert_that (if4_prefix ifaddr \<le> 32);
     Some (ipaddr_print_addr (if4_addr ifaddr) @ [47] @ dec (nat (if4_prefix ifaddr)))
   }"

section \<open>Reading what was printed\<close>

lemma not_digit: "c \<in> set (dec n) \<Longrightarrow> c \<noteq> 46 \<and> c \<noteq> 47 \<and> c \<noteq> 58"
  using dec_value [of n] by (auto simp: list_all_iff is_digit_nat)

lemma takeWhile_dec [simp]:
  "takeWhile (\<lambda>c. c \<noteq> 46) (dec n @ 46 # rest) = dec n" "takeWhile (\<lambda>c. c \<noteq> 46) (dec n) = dec n"
  using not_digit [of _ n] by (auto simp: takeWhile_append2 intro!: takeWhile_eq_all_conv [THEN iffD2])

lemma parse_dec: "n < 2 ^ 64 \<Longrightarrow> parse_unsigned_integer_bin (dec n) = Some (of_nat n)"
  by (simp add: parse_unsigned_eq dec_value)

lemma parse_byte:
  fixes b :: byte
  shows "parse_unsigned_integer_bin (dec (unat b)) = Some (ucast b)"
    "1 \<le> length (dec (unat b))" "length (dec (unat b)) \<le> 3" "\<not> (ucast b :: u64) > 255"
proof -
  have b: "unat b < 256" using unsigned_less [of b] by simp
  show "parse_unsigned_integer_bin (dec (unat b)) = Some (ucast b)" using parse_dec [of "unat b"] b by simp
  show "1 \<le> length (dec (unat b))" by (simp add: Suc_le_eq)
  show "length (dec (unat b)) \<le> 3" using b by (intro digits_length) simp_all
  have "unat (of_nat (unat b) :: u64) = unat b" using b by (simp only: unat_of_nat) simp
  then show "\<not> (ucast b :: u64) > 255" using b by (simp add: not_less word_le_nat_alt)
qed

lemma ucast_back [simp]: "ucast (ucast b :: u64) = b" for b :: byte
  by (rule bit_word_eqI) (simp add: bit_simps)

lemma ipv4_step:
  fixes b :: byte
  assumes "i < 3"
  shows "ipv4_parse_loop i (dec (unat b) @ 46 # rest) out = ipv4_parse_loop (i + 1) rest (out[i := b])"
  using assms parse_byte [of b] by (subst ipv4_parse_loop.simps) (simp add: Let_def)

lemma ipv4_last: "ipv4_parse_loop 3 (dec (unat b)) out = Some (out[3 := b])"
  using parse_byte [of b] by (subst ipv4_parse_loop.simps) (simp add: Let_def)

lemma list_update_4: "length out = 4 \<Longrightarrow> out[0 := a, 1 := b, 2 := c, 3 := d] = [a, b, c, d]"
  by (auto simp: length_Suc_conv numeral_eq_Suc)

lemma print_addr_parse: "ipaddr_parse_ipv4_addr_bin (ipaddr_print_addr addr) old = Some addr"
proof -
  have m: "mem32 addr = [mem32 addr ! 0, mem32 addr ! 1, mem32 addr ! 2, mem32 addr ! 3]" by (simp add: mem32_def)
  have "length (mem32 old) = 4" by (simp add: mem32_def)
  from list_update_4 [OF this] m show ?thesis
    using ipv4_step [of 0 "mem32 addr ! 0"] ipv4_step [of 1 "mem32 addr ! 1"] ipv4_step [of 2 "mem32 addr ! 2"]
    by (simp add: ipaddr_parse_ipv4_addr_bin_def ipaddr_print_addr_def Let_def
        ipv4_last [unfolded numeral_3_eq_3] numeral_2_eq_2 numeral_3_eq_3)
qed

lemma print_ifaddr_parse:
  assumes "0 \<le> if4_prefix a" "if4_prefix a \<le> 32"
  shows "\<exists>t. ipaddr_print_ifaddr a = Some t \<and> ipaddr_parse_ipv4_ifaddr_bin t old = Some a"
proof -
  let ?a = "ipaddr_print_addr (if4_addr a)" and ?p = "dec (nat (if4_prefix a))"
  have "47 \<notin> set ?a" using not_digit by (auto simp: ipaddr_print_addr_def Let_def)
  then have "takeWhile (\<lambda>x. x \<noteq> 47) (?a @ 47 # ?p) = ?a" by (subst takeWhile_append2) auto
  then have "b_find_char_bin (?a @ 47 # ?p) 47 = Some (length ?a)" by (simp add: b_find_char_bin_def Let_def)
  moreover have u: "unat (of_nat (nat (if4_prefix a)) :: u64) = nat (if4_prefix a)"
    using assms by (simp only: unat_of_nat) (simp add: nat_less_iff)
  then have "uint (of_nat (nat (if4_prefix a)) :: u64) = if4_prefix a" using assms by (simp only: uint_nat)
  then have "ipaddr_parse_ipv4_prefix_bin ?p = Some (if4_prefix a)"
    using assms u parse_dec [of "nat (if4_prefix a)"]
    by (simp add: ipaddr_parse_ipv4_prefix_bin_def word_less_nat_alt nat_less_iff)
  ultimately show ?thesis
    using assms by (simp add: ipaddr_print_ifaddr_def ipaddr_parse_ipv4_ifaddr_bin_def print_addr_parse)
qed

section \<open>Masks\<close>

lemma mask_bits_Suc: "mask_bits (Suc n) = mask_bits n OR push_bit (32 - n - 1) 1"
  by (simp add: mask_bits_def)

lemma bit_mask_bits: "n \<le> 32 \<Longrightarrow> bit (mask_bits n) k \<longleftrightarrow> 32 - n \<le> k \<and> k < 32"
proof (induction n)
  case (Suc n)
  then show ?case by (auto simp: mask_bits_Suc bit_or_iff bit_exp_iff)
qed (simp add: mask_bits_def)

lemma mask_bits_inj: "n \<le> 32 \<Longrightarrow> k \<le> 32 \<Longrightarrow> mask_bits n = mask_bits k \<longleftrightarrow> n = k"
proof -
  have "mask_bits n \<noteq> mask_bits k" if "n < k" "k \<le> 32" for n k
    using bit_mask_bits [of n "32 - k"] bit_mask_bits [of k "32 - k"] that by auto
  then show "n \<le> 32 \<Longrightarrow> k \<le> 32 \<Longrightarrow> mask_bits n = mask_bits k \<longleftrightarrow> n = k" by (metis linorder_neqE_nat)
qed

lemma prefix_loop_eq:
  "n \<le> 33 \<Longrightarrow> prefix_loop msk n (mask_bits (min n 32)) = Some p \<longleftrightarrow>
    int n \<le> p \<and> p \<le> 32 \<and> ntoh32 msk = mask_bits (nat p)"
proof (induction "33 - n" arbitrary: n)
  case 0
  then show ?case by (subst prefix_loop.simps) auto
next
  case (Suc k)
  then have n: "n \<le> 32" by simp
  have t: "(if n < 32 then mask_bits n OR push_bit (32 - n - 1) 1 else mask_bits n) = mask_bits (min (Suc n) 32)"
    using n by (cases "n = 32") (simp_all add: mask_bits_Suc)
  have step: "prefix_loop msk n (mask_bits n) =
      (if ntoh32 msk = mask_bits n then Some (int n) else prefix_loop msk (Suc n) (mask_bits (min (Suc n) 32)))"
    using n unfolding t [symmetric] by (subst prefix_loop.simps) simp
  have rest: "prefix_loop msk (Suc n) (mask_bits (min (Suc n) 32)) = Some p \<longleftrightarrow>
      int (Suc n) \<le> p \<and> p \<le> 32 \<and> ntoh32 msk = mask_bits (nat p)"
    using Suc n by (intro Suc.hyps(1)) simp_all
  have inj: "int n \<le> p \<Longrightarrow> p \<le> 32 \<Longrightarrow> mask_bits n = mask_bits (nat p) \<longleftrightarrow> int n = p"
    using mask_bits_inj [of n "nat p"] n by linarith
  have "min n 32 = n" using n by simp
  then show ?case
  proof (cases "ntoh32 msk = mask_bits n")
    case True
    then show ?thesis using step inj n \<open>min n 32 = n\<close> by auto
  next
    case False
    then have "int n = p \<Longrightarrow> ntoh32 msk \<noteq> mask_bits (nat p)" by auto
    then show ?thesis using step rest False \<open>min n 32 = n\<close> by auto
  qed
qed

text \<open>The prefix of a mask is found exactly for the masks that belong to a prefix.\<close>

lemma prefix_from_mask_iff:
  "ipaddr_ipv4_prefix_from_mask msk = Some p \<longleftrightarrow> ipaddr_ipv4_mask_from_prefix p = Some msk"
proof -
  have "ipaddr_ipv4_prefix_from_mask msk = Some p \<longleftrightarrow> 0 \<le> p \<and> p \<le> 32 \<and> ntoh32 msk = mask_bits (nat p)"
    using prefix_loop_eq [of 0 msk p] by (simp add: ipaddr_ipv4_prefix_from_mask_def mask_bits_def)
  moreover have "ntoh32 msk = t \<longleftrightarrow> hton32 t = msk" for t by (metis ntoh_hton(2,5))
  ultimately show ?thesis by (auto simp: ipaddr_ipv4_mask_from_prefix_def bind_eq_Some_conv)
qed

lemma ntoh32_and: "ntoh32 (a AND b) = ntoh32 a AND ntoh32 b"
proof (rule bit_word_eqI)
  fix n assume "n < LENGTH(32)"
  then consider "n < 8" | "8 \<le> n \<and> n < 16" | "16 \<le> n \<and> n < 24" | "24 \<le> n \<and> n < 32" by fastforce
  then show "bit (ntoh32 (a AND b)) n = bit (ntoh32 a AND ntoh32 b) n"
    by cases (auto simp: ntoh32_def hton32_def badvpn_reverse32_def mem32_def unmem32_def byte_at_def
        put_byte_def bit_simps Let_def)
qed

lemma in_network_iff:
  assumes "0 \<le> p" "p \<le> 32"
  shows "ipaddr_ipv4_addrs_in_network a b p = Some (\<forall>k < nat p. bit (ntoh32 a) (31 - k) = bit (ntoh32 b) (31 - k))"
proof -
  let ?m = "mask_bits (nat p)"
  have "a AND hton32 ?m = b AND hton32 ?m \<longleftrightarrow> ntoh32 a AND ?m = ntoh32 b AND ?m"
    by (metis ntoh32_and ntoh_hton(2,5))
  also have "\<dots> \<longleftrightarrow> (\<forall>k < nat p. bit (ntoh32 a) (31 - k) = bit (ntoh32 b) (31 - k))"
  proof
    assume e: "ntoh32 a AND ?m = ntoh32 b AND ?m"
    show "\<forall>k < nat p. bit (ntoh32 a) (31 - k) = bit (ntoh32 b) (31 - k)"
    proof (intro allI impI)
      fix k assume "k < nat p"
      then have "bit ?m (31 - k)" using assms by (subst bit_mask_bits) auto
      then show "bit (ntoh32 a) (31 - k) = bit (ntoh32 b) (31 - k)" using e by (metis bit_and_iff)
    qed
  next
    assume k: "\<forall>k < nat p. bit (ntoh32 a) (31 - k) = bit (ntoh32 b) (31 - k)"
    show "ntoh32 a AND ?m = ntoh32 b AND ?m"
    proof (rule bit_word_eqI)
      fix n assume "n < LENGTH(32)"
      then have "bit ?m n \<Longrightarrow> bit (ntoh32 a) n = bit (ntoh32 b) n"
        using k [rule_format, of "31 - n"] assms bit_mask_bits [of "nat p" n] by auto
      then show "bit (ntoh32 a AND ?m) n = bit (ntoh32 b AND ?m) n" by (auto simp: bit_and_iff)
    qed
  qed
  finally show ?thesis using assms by (simp add: ipaddr_ipv4_addrs_in_network_def ipaddr_ipv4_mask_from_prefix_def)
qed

end
