(* ===== verification/Ip6_Text.thy ===== *)
theory Ip6_Text
  imports Ip4_Text
begin

text \<open>
  IPv6 addresses, prefixes and masks, misc/ipaddr6.h. An address is its 16 bytes. The parser writes
  into the caller's 16 bytes as it goes: \<open>old\<close> is what they held, a write or a read outside an
  array is \<open>None\<close>, and a return value 0 is \<open>Some None\<close>.
\<close>

section \<open>Parsing\<close>

record v6_state =
  num_blocks :: int
  compress_pos :: int
  v6_block :: u16
  v6_empty :: bool
  v6_bytes :: "byte list"

datatype v6_exit = V6_reject | V6_dot nat v6_state | V6_end v6_state

text \<open>The two bytes of a block, written at the position of the next one.\<close>

definition block_bytes :: "u16 \<Rightarrow> byte list" where
  "block_bytes b = [ucast (drop_bit 8 b), ucast (b AND 0xFF)]"

definition store_block :: "v6_state \<Rightarrow> v6_state option" where
  "store_block st = do {
     let off = 2 * num_blocks st;
     assert_that (0 \<le> off \<and> nat off + 2 \<le> length (v6_bytes st));
     Some (st\<lparr>v6_bytes := blit (nat off) (block_bytes (v6_block st)) (v6_bytes st),
              num_blocks := num_blocks st + 1\<rparr>)
   }"

function v6_loop :: "cstr \<Rightarrow> nat \<Rightarrow> v6_state \<Rightarrow> v6_exit option" where
  "v6_loop name i st =
     (if i < length name then
        if name ! i = 46 then Some (V6_dot i st)
        else if name ! i = 58 then
          let is_double = i + 1 < length name \<and> name ! (i + 1) = 58 in
          if i > 0 \<and> (v6_empty st \<or> num_blocks st = 7) then Some V6_reject
          else if i = 0 \<and> \<not> is_double then Some V6_reject
          else
            (case (if i > 0 then store_block st else Some st) of None \<Rightarrow> None
             | Some st1 \<Rightarrow>
                 let st2 = (if i > 0 then st1\<lparr>v6_block := 0, v6_empty := True\<rparr> else st1) in
                 if is_double \<and> compress_pos st2 \<noteq> - 1 then Some V6_reject
                 else v6_loop name (i + 1 + of_bool is_double)
                        (if is_double then st2\<lparr>compress_pos := num_blocks st2\<rparr> else st2))
        else
          let digit = decode_hex_digit (name ! i) in
          if digit < 0 then Some V6_reject
          else if v6_block st > 65535 div 16 then Some V6_reject
          else
            let block = v6_block st * 16 in
            if digit > 65535 - uint block then Some V6_reject
            else v6_loop name (i + 1) (st\<lparr>v6_block := block + word_of_int digit, v6_empty := False\<rparr>)
      else Some (V6_end st))"
  by auto
termination
  by (relation "measure (\<lambda>(name, i, st). length name - i)") auto

declare v6_loop.simps [simp del]

text \<open>From the label \<open>ipv4_done\<close> on.\<close>

definition ipv4_done :: "v6_state \<Rightarrow> byte list option option" where
  "ipv4_done st =
     (if compress_pos st = - 1 \<and> num_blocks st \<noteq> 8 then Some None else do {
        let compress = (if compress_pos st = - 1 then 0 else compress_pos st);
        let num_rear = num_blocks st - compress;
        assert_that (0 \<le> compress \<and> 0 \<le> num_rear \<and> num_rear + compress \<le> 8 \<and> length (v6_bytes st) = 16);
        let bytes = blit (nat (2 * (8 - num_rear))) (seg (nat (2 * compress)) (nat (2 * num_rear)) (v6_bytes st))
                      (v6_bytes st);
        Some (Some (blit (nat (2 * compress)) (replicate (nat (2 * (8 - num_rear - compress))) 0) bytes))
      })"

fun last_colon :: "cstr \<Rightarrow> nat \<Rightarrow> nat option" where
  "last_colon name 0 = None"
| "last_colon name (Suc i) = (if name ! i = 58 then Some (Suc i) else last_colon name i)"

text \<open>The four bytes of the dotted ending: \<open>Some None\<close> is the return value 0.\<close>

fun dotted_loop :: "cstr \<Rightarrow> nat \<Rightarrow> byte \<Rightarrow> bool \<Rightarrow> byte list \<Rightarrow> byte list option option" where
  "dotted_loop [] cur_byte b emp bytes =
     (if cur_byte \<noteq> 3 \<or> emp then Some None else Some (Some (bytes[cur_byte := b])))"
| "dotted_loop (c # cs) cur_byte b emp bytes =
     (if c = 46 then
        if emp \<or> cur_byte = 3 then Some None
        else if cur_byte < length bytes then dotted_loop cs (cur_byte + 1) 0 True (bytes[cur_byte := b])
        else None
      else if \<not> emp \<and> b = 0 then Some None
      else
        let digit = decode_decimal_digit c in
        if digit < 0 then Some None
        else if b > 255 div 10 then Some None
        else
          let b = b * 10 in
          if digit > 255 - uint b then Some None
          else dotted_loop cs cur_byte (b + word_of_int digit) False bytes)"

definition ipv4_ending :: "cstr \<Rightarrow> nat \<Rightarrow> v6_state \<Rightarrow> byte list option option" where
  "ipv4_ending name i st =
     (if v6_empty st \<or> num_blocks st = 0 \<and> compress_pos st = - 1 then Some None else do {
        i \<leftarrow> last_colon name i;
        r \<leftarrow> dotted_loop (drop i name) 0 0 True (replicate 4 0);
        case r of None \<Rightarrow> Some None
        | Some bytes \<Rightarrow>
            if 8 - num_blocks st < 2 then Some None else do {
              let off = 2 * num_blocks st;
              assert_that (0 \<le> off \<and> nat off + 4 \<le> length (v6_bytes st));
              ipv4_done (st\<lparr>v6_bytes := blit (nat off) bytes (v6_bytes st), num_blocks := num_blocks st + 2\<rparr>)
            }
      })"

definition ipaddr6_parse_ipv6_addr_bin :: "cstr \<Rightarrow> byte list \<Rightarrow> byte list option option" where
  "ipaddr6_parse_ipv6_addr_bin name old = do {
     e \<leftarrow> v6_loop name 0 \<lparr>num_blocks = 0, compress_pos = - 1, v6_block = 0, v6_empty = True, v6_bytes = old\<rparr>;
     case e of
       V6_reject \<Rightarrow> Some None
     | V6_dot i st \<Rightarrow> ipv4_ending name i st
     | V6_end st \<Rightarrow>
         if \<not> v6_empty st then do { st \<leftarrow> store_block st; ipv4_done st }
         else if num_blocks st \<noteq> compress_pos st then Some None
         else ipv4_done st
   }"

record ipv6_ifaddr =
  if6_addr :: "byte list"
  if6_prefix :: int

definition ipaddr6_parse_ipv6_prefix_bin :: "cstr \<Rightarrow> int option" where
  "ipaddr6_parse_ipv6_prefix_bin str =
     (case parse_unsigned_integer_bin str of None \<Rightarrow> None
      | Some d \<Rightarrow> if d > 128 then None else Some (uint d))"

definition ipaddr6_parse_ipv6_ifaddr_bin :: "cstr \<Rightarrow> ipv6_ifaddr \<Rightarrow> ipv6_ifaddr option option" where
  "ipaddr6_parse_ipv6_ifaddr_bin str old =
     (case b_find_char_bin str 47 of None \<Rightarrow> Some None
      | Some slash_pos \<Rightarrow> do {
          r \<leftarrow> ipaddr6_parse_ipv6_addr_bin (take slash_pos str) (if6_addr old);
          case r of None \<Rightarrow> Some None
          | Some addr \<Rightarrow>
              (case ipaddr6_parse_ipv6_prefix_bin (drop (slash_pos + 1) str) of None \<Rightarrow> Some None
               | Some prefix \<Rightarrow> Some (Some \<lparr>if6_addr = addr, if6_prefix = prefix\<rparr>))
        })"

section \<open>Masks\<close>

definition top_bits :: "nat \<Rightarrow> byte" where
  "top_bits rem = foldl (\<lambda>t i. t OR push_bit (8 - i - 1) 1) 0 [0..<rem]"

text \<open>The mask is built in place, so its old contents do not matter: two \<open>memset\<close> and the bits of
  the byte between them.\<close>

definition ipaddr6_ipv6_mask_from_prefix :: "int \<Rightarrow> byte list option" where
  "ipaddr6_ipv6_mask_from_prefix prefix = do {
     assert_that (prefix \<ge> 0);
     assert_that (prefix \<le> 128);
     let quot = nat (prefix div 8);
     let rem = nat (prefix mod 8);
     let bytes = replicate quot 0xFF @ replicate (16 - quot) 0;
     if rem = 0 then Some bytes else Some (bytes[quot := bytes ! quot OR top_bits rem])
   }"

function top_bits_loop :: "byte \<Rightarrow> nat \<Rightarrow> byte \<Rightarrow> nat option" where
  "top_bits_loop m j t =
     (if j \<le> 8 then
        if m = t then Some j else top_bits_loop m (j + 1) (if j < 8 then t OR push_bit (8 - j - 1) 1 else t)
      else None)"
  by auto
termination
  by (relation "measure (\<lambda>(m, j, t). 9 - j)") auto

declare top_bits_loop.simps [simp del]

definition ipaddr6_ipv6_prefix_from_mask :: "byte list \<Rightarrow> int option" where
  "ipaddr6_ipv6_prefix_from_mask msk =
     (let i = length (takeWhile (\<lambda>b. b = 0xFF) msk) in
      if i < 16 then
        (case top_bits_loop (msk ! i) 0 0 of None \<Rightarrow> None
         | Some j \<Rightarrow> if list_all (\<lambda>b. b = 0) (drop (i + 1) msk) then Some (8 * int i + int j) else None)
      else Some (8 * int i))"

definition ipaddr6_ipv6_ifaddr_from_addr_mask :: "byte list \<Rightarrow> byte list \<Rightarrow> ipv6_ifaddr option" where
  "ipaddr6_ipv6_ifaddr_from_addr_mask addr msk =
     (case ipaddr6_ipv6_prefix_from_mask msk of None \<Rightarrow> None
      | Some prefix \<Rightarrow> Some \<lparr>if6_addr = addr, if6_prefix = prefix\<rparr>)"

definition ipaddr6_ipv6_addrs_in_network :: "byte list \<Rightarrow> byte list \<Rightarrow> int \<Rightarrow> bool option" where
  "ipaddr6_ipv6_addrs_in_network addr1 addr2 netprefix = do {
     assert_that (netprefix \<ge> 0);
     assert_that (netprefix \<le> 128);
     let quot = nat (netprefix div 8);
     let rem = nat (netprefix mod 8);
     if take quot addr1 \<noteq> take quot addr2 then Some False
     else if rem = 0 then Some True
     else do {
       assert_that (quot < length addr1 \<and> quot < length addr2);
       Some (addr1 ! quot AND top_bits rem = addr2 ! quot AND top_bits rem)
     }
   }"

section \<open>Printing\<close>

definition addr_block :: "byte list \<Rightarrow> nat \<Rightarrow> u16" where
  "addr_block addr i = push_bit 8 (ucast (addr ! (2 * i))) OR ucast (addr ! (2 * i + 1))"

text \<open>The state of the first loop: start and length of the longest run of zero blocks so far, and of
  the current one.\<close>

definition zero_run_step :: "byte list \<Rightarrow> nat \<times> nat \<times> nat \<times> nat \<Rightarrow> nat \<Rightarrow> nat \<times> nat \<times> nat \<times> nat" where
  "zero_run_step addr r i =
     (case r of (largest_start, largest_len, current_start, current_len) \<Rightarrow>
        if addr ! (2 * i) = 0 \<and> addr ! (2 * i + 1) = 0 then
          if current_len + 1 > largest_len then (current_start, current_len + 1, current_start, current_len + 1)
          else (largest_start, largest_len, current_start, current_len + 1)
        else (largest_start, largest_len, i + 1, 0))"

definition ipaddr6_print_addr :: "byte list \<Rightarrow> cstr" where
  "ipaddr6_print_addr addr =
     (case foldl (zero_run_step addr) (0, 0, 0, 0) [0..<8] of (largest_start, largest_len, _, _) \<Rightarrow>
        if largest_len > 1 then
          concat (map (\<lambda>i. hex (unat (addr_block addr i)) @ [colon]) [0..<largest_start]) @
          (if largest_start = 0 then [colon] else []) @
          concat (map (\<lambda>i. [colon] @ hex (unat (addr_block addr i))) [largest_start + largest_len..<8]) @
          (if largest_start + largest_len = 8 then [colon] else [])
        else
          concat (map (\<lambda>i. (if i = 0 then [] else [colon]) @ hex (unat (addr_block addr i))) [0..<8]))"

definition ipaddr6_print_ifaddr :: "ipv6_ifaddr \<Rightarrow> cstr option" where
  "ipaddr6_print_ifaddr addr = do {
     assert_that (if6_prefix addr \<ge> 0);
     assert_that (if6_prefix addr \<le> 128);
     Some (ipaddr6_print_addr (if6_addr addr) @ [47] @ dec (nat (if6_prefix addr)))
   }"

section \<open>The parser stays inside its arrays\<close>

definition v6_ok :: "v6_state \<Rightarrow> bool" where
  "v6_ok st \<longleftrightarrow> 0 \<le> num_blocks st \<and> num_blocks st \<le> 7 \<and> - 1 \<le> compress_pos st \<and>
     compress_pos st \<le> num_blocks st \<and> length (v6_bytes st) = 16"

definition v6_seen :: "cstr \<Rightarrow> nat \<Rightarrow> v6_state \<Rightarrow> bool" where
  "v6_seen name i st \<longleftrightarrow> num_blocks st = 0 \<and> compress_pos st = - 1 \<or> 58 \<in> set (take i name)"

fun exit_ok :: "cstr \<Rightarrow> v6_exit \<Rightarrow> bool" where
  "exit_ok name V6_reject = True"
| "exit_ok name (V6_dot i st) = (v6_ok st \<and> v6_seen name i st \<and> i < length name)"
| "exit_ok name (V6_end st) = v6_ok st"

lemma length_block_bytes [simp]: "length (block_bytes b) = 2"
  by (simp add: block_bytes_def)

definition stored :: "v6_state \<Rightarrow> v6_state" where
  "stored st = st\<lparr>v6_bytes := blit (nat (2 * num_blocks st)) (block_bytes (v6_block st)) (v6_bytes st),
     num_blocks := num_blocks st + 1, v6_block := 0, v6_empty := True\<rparr>"

definition has_room :: "v6_state \<Rightarrow> bool" where
  "has_room st \<longleftrightarrow> 0 \<le> num_blocks st \<and> num_blocks st \<le> 7 \<and> length (v6_bytes st) = 16"

lemma store_block_ok:
  "has_room st \<Longrightarrow> store_block st = Some (st\<lparr>v6_bytes := v6_bytes (stored st), num_blocks := num_blocks (stored st)\<rparr>)"
  by (simp add: store_block_def has_room_def stored_def Let_def nat_le_iff)

lemma v6_end: "length name \<le> i \<Longrightarrow> v6_loop name i st = Some (V6_end st)"
  by (subst v6_loop.simps) simp

lemma v6_dot: "i < length name \<Longrightarrow> name ! i = 46 \<Longrightarrow> v6_loop name i st = Some (V6_dot i st)"
  by (subst v6_loop.simps) simp

lemma v6_colon:
  assumes "i < length name" "name ! i = 58" "has_room st"
  shows "v6_loop name i st =
    (let is_double = i + 1 < length name \<and> name ! (i + 1) = 58;
         st2 = (if i > 0 then stored st else st) in
     if i > 0 \<and> (v6_empty st \<or> num_blocks st = 7) \<or> i = 0 \<and> \<not> is_double \<or> is_double \<and> compress_pos st \<noteq> - 1
     then Some V6_reject
     else v6_loop name (i + 1 + of_bool is_double) (if is_double then st2\<lparr>compress_pos := num_blocks st2\<rparr> else st2))"
proof -
  have "st\<lparr>v6_bytes := v6_bytes (stored st), num_blocks := num_blocks (stored st), v6_block := 0, v6_empty := True\<rparr> =
      stored st" by (simp add: stored_def)
  moreover have "compress_pos (stored st) = compress_pos st" by (simp add: stored_def)
  ultimately show ?thesis using assms
    by (subst v6_loop.simps, cases "i = 0"; cases "i + 1 < length name \<and> name ! (i + 1) = 58")
      (auto simp: store_block_ok Let_def)
qed

lemma v6_digit:
  assumes "i < length name" "name ! i \<noteq> 46" "name ! i \<noteq> 58"
  shows "v6_loop name i st =
    (let digit = decode_hex_digit (name ! i); block = v6_block st * 16 in
     if digit < 0 \<or> v6_block st > 65535 div 16 \<or> digit > 65535 - uint block then Some V6_reject
     else v6_loop name (i + 1) (st\<lparr>v6_block := block + word_of_int digit, v6_empty := False\<rparr>))"
  using assms by (subst v6_loop.simps) (simp add: Let_def)

lemma v6_seen_colon: "i < length name \<Longrightarrow> name ! i = 58 \<Longrightarrow> i < j \<Longrightarrow> v6_seen name j st"
  by (auto simp: v6_seen_def in_set_conv_nth intro!: exI [of _ i])

lemma v6_seen_mono: "v6_seen name i st \<Longrightarrow> v6_seen name (i + 1) (st\<lparr>v6_block := b, v6_empty := e\<rparr>)"
  using set_take_subset_set_take [of i "i + 1" name] by (auto simp: v6_seen_def)

lemma v6_ok_stored: "v6_ok st \<Longrightarrow> num_blocks st \<noteq> 7 \<Longrightarrow> v6_ok (stored st)"
  by (simp add: v6_ok_def stored_def nat_le_iff)

lemma v6_loop_safe:
  assumes "v6_ok st" "v6_seen name i st"
  shows "\<exists>e. v6_loop name i st = Some e \<and> exit_ok name e"
  using assms
proof (induction "length name - i" arbitrary: i st rule: less_induct)
  case less
  have room: "has_room st" using less.prems by (simp add: v6_ok_def has_room_def)
  consider "length name \<le> i" | "i < length name" "name ! i = 46" | "i < length name" "name ! i = 58"
    | "i < length name" "name ! i \<noteq> 46" "name ! i \<noteq> 58" by fastforce
  then show ?case
  proof cases
    case 3
    have go: "\<exists>e. v6_loop name j st' = Some e \<and> exit_ok name e" if "i < j" "v6_ok st'" for j st'
      using less.hyps [of j st'] that 3 v6_seen_colon by auto
    let ?d = "i + 1 < length name \<and> name ! (i + 1) = 58" and ?st = "if i > 0 then stored st else st"
    have "v6_ok (if ?d then ?st\<lparr>compress_pos := num_blocks ?st\<rparr> else ?st)" if "\<not> (i > 0 \<and> num_blocks st = 7)"
      using v6_ok_stored [of st] less.prems(1) that by (auto simp: v6_ok_def)
    then show ?thesis using go [of "i + 1 + of_bool ?d"] unfolding v6_colon [OF 3 room] Let_def by (auto split: if_splits)
  next
    case 4
    let ?st = "\<lambda>b. st\<lparr>v6_block := b, v6_empty := False\<rparr>"
    have "v6_ok (?st b)" "v6_seen name (i + 1) (?st b)" for b
      using less.prems v6_seen_mono by (auto simp: v6_ok_def)
    then have "\<exists>e. v6_loop name (i + 1) (?st b) = Some e \<and> exit_ok name e" for b
      using less.hyps [of "i + 1" "?st b"] 4 by simp
    then show ?thesis unfolding v6_digit [OF 4] Let_def by auto
  qed (use less.prems in \<open>simp_all add: v6_end v6_dot\<close>)
qed

lemma last_colon_some: "58 \<in> set (take i name) \<Longrightarrow> i \<le> length name \<Longrightarrow> \<exists>j. last_colon name i = Some j"
  by (induction i) (auto simp: take_Suc_conv_app_nth)

lemma dotted_loop_safe:
  assumes "length bytes = 4" "cur_byte \<le> 3"
  shows "\<exists>r. dotted_loop cs cur_byte b emp bytes = Some r \<and> (\<forall>x. r = Some x \<longrightarrow> length x = 4)"
  using assms
  by (induction cs cur_byte b emp bytes rule: dotted_loop.induct) (auto simp: Let_def)

lemma ipv4_done_safe:
  assumes "0 \<le> num_blocks st" "num_blocks st \<le> 8" "- 1 \<le> compress_pos st" "compress_pos st \<le> num_blocks st"
    and "length (v6_bytes st) = 16"
  shows "\<exists>r. ipv4_done st = Some r \<and> (\<forall>a. r = Some a \<longrightarrow> length a = 16)"
  using assms by (auto simp: ipv4_done_def Let_def length_blit seg_def nat_le_iff nat_add_distrib)

lemma ipv4_ending_safe:
  assumes ok: "v6_ok st" and seen: "v6_seen name i st" and i: "i < length name"
  shows "\<exists>r. ipv4_ending name i st = Some r \<and> (\<forall>a. r = Some a \<longrightarrow> length a = 16)"
proof (cases "v6_empty st \<or> num_blocks st = 0 \<and> compress_pos st = - 1")
  case False
  then obtain j where j: "last_colon name i = Some j"
    using seen i last_colon_some [of i name] by (auto simp: v6_seen_def)
  obtain r where r: "dotted_loop (drop j name) 0 0 True (replicate 4 0) = Some r" "\<forall>x. r = Some x \<longrightarrow> length x = 4"
    using dotted_loop_safe [of "replicate 4 0" 0 "drop j name" 0 True] by auto
  show ?thesis
  proof (cases "r = None \<or> 8 - num_blocks st < 2")
    case True
    then show ?thesis using False j r(1) by (cases r) (auto simp: ipv4_ending_def)
  next
    case room: False
    then obtain x where x: "r = Some x" by auto
    let ?st = "st\<lparr>v6_bytes := blit (nat (2 * num_blocks st)) x (v6_bytes st), num_blocks := num_blocks st + 2\<rparr>"
    have "ipv4_ending name i st = ipv4_done ?st"
      using False j r room x ok by (auto simp: ipv4_ending_def v6_ok_def Let_def nat_le_iff)
    moreover have "\<exists>r. ipv4_done ?st = Some r \<and> (\<forall>a. r = Some a \<longrightarrow> length a = 16)"
      using ok room by (intro ipv4_done_safe) (simp_all add: v6_ok_def nat_le_iff)
    ultimately show ?thesis by simp
  qed
qed (simp add: ipv4_ending_def)

lemma parse_ipv6_safe:
  assumes "length old = 16"
  shows "\<exists>r. ipaddr6_parse_ipv6_addr_bin name old = Some r \<and> (\<forall>a. r = Some a \<longrightarrow> length a = 16)"
proof -
  let ?st = "\<lparr>num_blocks = 0, compress_pos = - 1, v6_block = 0, v6_empty = True, v6_bytes = old\<rparr>"
  obtain e where e: "v6_loop name 0 ?st = Some e" "exit_ok name e"
    using v6_loop_safe [of ?st name 0] assms by (auto simp: v6_ok_def v6_seen_def)
  show ?thesis
  proof (cases e)
    case V6_reject
    then show ?thesis using e(1) by (simp add: ipaddr6_parse_ipv6_addr_bin_def)
  next
    case (V6_end st)
    then have ok: "v6_ok st" using e(2) by simp
    have "\<exists>r. ipv4_done st' = Some r \<and> (\<forall>a. r = Some a \<longrightarrow> length a = 16)"
      if "st' = st \<or> store_block st = Some st'" for st'
      using that ok store_block_ok [of st]
      by (intro ipv4_done_safe) (auto simp: v6_ok_def has_room_def stored_def nat_le_iff)
    moreover have "\<exists>st'. store_block st = Some st'" using ok store_block_ok by (simp add: v6_ok_def has_room_def)
    ultimately show ?thesis using e(1) V6_end by (auto simp: ipaddr6_parse_ipv6_addr_bin_def)
  next
    case (V6_dot i st)
    then have "\<exists>r. ipv4_ending name i st = Some r \<and> (\<forall>a. r = Some a \<longrightarrow> length a = 16)"
      using e(2) by (intro ipv4_ending_safe) simp_all
    then show ?thesis using e(1) V6_dot by (simp add: ipaddr6_parse_ipv6_addr_bin_def)
  qed
qed

section \<open>Reading what was printed\<close>

lemma drop_Cons_nth: "drop i xs = c # rest \<Longrightarrow> i < length xs \<and> xs ! i = c \<and> drop (Suc i) xs = rest"
  by (metis Cons_nth_drop_Suc drop_all linorder_not_less list.distinct(1) list.inject)

lemma drop_part: "drop i xs = ys @ zs \<Longrightarrow> drop (i + length ys) xs = zs"
  by (metis add.commute append_eq_conv_conj drop_drop)

lemma digit_char_hex:
  assumes "d < 16"
  shows "decode_hex_digit (digit_char d) = int d" "digit_char d \<noteq> 46" "digit_char d \<noteq> 47" "digit_char d \<noteq> 58"
proof -
  have "list_all (\<lambda>d. decode_hex_digit (digit_char d) = int d \<and> digit_char d \<noteq> 46 \<and> digit_char d \<noteq> 47 \<and>
      digit_char d \<noteq> 58) [0..<16]"
    by code_simp
  then have "decode_hex_digit (digit_char d) = int d \<and> digit_char d \<noteq> 46 \<and> digit_char d \<noteq> 47 \<and> digit_char d \<noteq> 58"
    unfolding list_all_iff by (rule bspec) (use assms in simp)
  then show "decode_hex_digit (digit_char d) = int d" "digit_char d \<noteq> 46" "digit_char d \<noteq> 47" "digit_char d \<noteq> 58"
    by simp_all
qed

lemma v6_digit_step:
  assumes "i < length name" "name ! i = digit_char d" "d < 16" "v6_block st = of_nat m" "16 * m + d < 65536"
  shows "v6_loop name i st = v6_loop name (i + 1) (st\<lparr>v6_block := of_nat (16 * m + d), v6_empty := False\<rparr>)"
proof -
  have m: "m \<le> 4095" using assms(5) by linarith
  have u: "unat (of_nat k :: u16) = k" if "k < 65536" for k using that by (simp only: unat_of_nat) simp
  have "\<not> v6_block st > 65535 div 16" using m u [of m] by (simp add: assms(4) word_less_nat_alt)
  moreover have e: "v6_block st * 16 = of_nat (16 * m)" by (simp add: assms(4) mult.commute)
  moreover have "uint (of_nat (16 * m) :: u16) = int (16 * m)" using assms(5) u [of "16 * m"] by (simp only: uint_nat)
  then have "\<not> int d > 65535 - uint (v6_block st * 16)" using assms(5) unfolding e by linarith
  moreover have "v6_block st * 16 + word_of_int (int d) = of_nat (16 * m + d)" by (simp add: assms(4) mult.commute)
  ultimately show ?thesis
    using v6_digit [of i name st] assms(1-3) digit_char_hex [of d] unfolding Let_def by (simp only: if_False) simp
qed

lemma v6_read_hex:
  assumes "drop i name = hex n @ rest" "n < 65536" "v6_block st = 0"
  shows "v6_loop name i st = v6_loop name (i + length (hex n)) (st\<lparr>v6_block := of_nat n, v6_empty := False\<rparr>)"
  using assms
proof (induction n arbitrary: rest rule: less_induct)
  case (less n)
  show ?case
  proof (cases "n < 16")
    case True
    then have h: "hex n = [digit_char n]" by (subst digits.simps) simp
    then have "i < length name" "name ! i = digit_char n"
      using less.prems(1) drop_Cons_nth [of i name "digit_char n" rest] by auto
    then show ?thesis using v6_digit_step [of i name n st 0] True less.prems h by simp
  next
    case False
    then have h: "hex n = hex (n div 16) @ [digit_char (n mod 16)]" by (subst digits.simps) simp
    let ?j = "i + length (hex (n div 16))"
    let ?st = "st\<lparr>v6_block := of_nat (n div 16), v6_empty := False\<rparr>"
    have d: "drop i name = hex (n div 16) @ digit_char (n mod 16) # rest" using less.prems(1) h by simp
    then have "v6_loop name i st = v6_loop name ?j ?st"
      using less.IH [of "n div 16" "digit_char (n mod 16) # rest"] less.prems False by simp
    moreover have "drop ?j name = digit_char (n mod 16) # rest" using drop_part [OF d] .
    then have "?j < length name" "name ! ?j = digit_char (n mod 16)" by (auto dest: drop_Cons_nth)
    then have "v6_loop name ?j ?st =
        v6_loop name (?j + 1) (?st\<lparr>v6_block := of_nat (16 * (n div 16) + n mod 16), v6_empty := False\<rparr>)"
      using less.prems(2) by (intro v6_digit_step) simp_all
    ultimately show ?thesis using h by simp
  qed
qed

lemma hex_chars: "c \<in> set (hex n) \<Longrightarrow> c \<noteq> 46 \<and> c \<noteq> 47 \<and> c \<noteq> 58"
proof (induction n rule: less_induct)
  case (less n)
  then show ?case
  proof (cases "n < 16")
    case True
    then have "hex n = [digit_char n]" by (subst digits.simps) simp
    then show ?thesis using less.prems digit_char_hex [of n] True by simp
  next
    case False
    then have "hex n = hex (n div 16) @ [digit_char (n mod 16)]" by (subst digits.simps) simp
    moreover have "n div 16 < n" using False by simp
    ultimately show ?thesis using less.IH [of "n div 16"] less.prems digit_char_hex [of "n mod 16"] by auto
  qed
qed

lemma hex_not_empty [simp]: "hex n \<noteq> []"
  by (subst digits.simps) simp

fun join :: "u16 list \<Rightarrow> cstr" where
  "join [] = []"
| "join [b] = hex (unat b)"
| "join (b # c # bs) = hex (unat b) @ colon # join (c # bs)"

lemma join_Cons: "join (b # bs) = hex (unat b) @ (if bs = [] then [] else colon # join bs)"
  by (cases bs) simp_all

lemma join_hd: "bs \<noteq> [] \<Longrightarrow> \<exists>x xs. join bs = x # xs \<and> x \<noteq> 58"
proof -
  assume "bs \<noteq> []"
  then obtain b cs where "bs = b # cs" by (meson list.exhaust)
  moreover obtain x xs where "hex (unat b) = x # xs" by (meson hex_not_empty list.exhaust)
  ultimately show ?thesis using hex_chars [of x "unat b"] by (simp add: join_Cons)
qed

definition store_all :: "v6_state \<Rightarrow> u16 list \<Rightarrow> v6_state" where
  "store_all st bs = foldl (\<lambda>st b. stored (st\<lparr>v6_block := b, v6_empty := False\<rparr>)) st bs"

lemma v6_read_colon:
  assumes "drop j name = 58 # rest" "0 < j" "has_room st" "\<not> v6_empty st" "num_blocks st \<noteq> 7"
    and "rest \<noteq> [] \<and> hd rest \<noteq> 58"
  shows "v6_loop name j st = v6_loop name (j + 1) (stored st)"
proof -
  have "j < length name" "name ! j = 58" "drop (Suc j) name = rest" using drop_Cons_nth [OF assms(1)] by auto
  moreover have "(j + 1 < length name \<and> name ! (j + 1) = 58) = False"
    using calculation(3) assms(6) by (metis Suc_eq_plus1 hd_drop_conv_nth)
  ultimately show ?thesis using v6_colon [of j name st] assms(2-5)
    by (simp only: Let_def simp_thms if_True if_False of_bool_eq add_0_right) simp
qed

lemma has_room_stored: "has_room st \<Longrightarrow> num_blocks st \<noteq> 7 \<Longrightarrow> has_room (stored st)"
  by (simp add: has_room_def stored_def nat_le_iff)

lemma v6_read_join:
  assumes "bs \<noteq> []" "drop i name = join bs @ rest" "v6_block st = 0" "has_room st"
    and "num_blocks st + int (length bs) \<le> 8"
  shows "v6_loop name i st = v6_loop name (i + length (join bs))
    ((store_all st (butlast bs))\<lparr>v6_block := last bs, v6_empty := False\<rparr>)"
  using assms
proof (induction bs arbitrary: i st rule: join.induct)
  case (2 b)
  then show ?case using v6_read_hex [of i name "unat b" rest st] unsigned_less [of b] by (simp add: store_all_def)
next
  case (3 b c bs)
  let ?st = "st\<lparr>v6_block := b, v6_empty := False\<rparr>"
  let ?j = "i + length (hex (unat b))"
  have d: "drop i name = hex (unat b) @ 58 # join (c # bs) @ rest" using 3(3) by simp
  have "v6_loop name i st = v6_loop name ?j ?st"
    using v6_read_hex [OF d] 3(4) unsigned_less [of b] by simp
  also have "\<dots> = v6_loop name (?j + 1) (stored ?st)"
    using 3(5,6) drop_part [OF d] join_hd [of "c # bs"] by (intro v6_read_colon) (auto simp: has_room_def)
  also have "\<dots> = v6_loop name (?j + 1 + length (join (c # bs)))
      ((store_all (stored ?st) (butlast (c # bs)))\<lparr>v6_block := last (c # bs), v6_empty := False\<rparr>)"
    using 3(5,6) drop_Cons_nth [OF drop_part [OF d]] has_room_stored [of ?st]
    by (intro 3(1)) (auto simp: stored_def has_room_def)
  finally show ?case by (cases "bs = []") (simp_all add: store_all_def add.assoc)
qed simp

lemma blit_fits: "off + length bs \<le> length arr \<Longrightarrow> blit off bs arr = take off arr @ bs @ drop (off + length bs) arr"
  by (simp add: blit_def)

lemma blit_blit:
  "off + length xs + length ys \<le> length arr \<Longrightarrow>
   blit (off + length xs) ys (blit off xs arr) = blit off (xs @ ys) arr"
proof -
  assume a: "off + length xs + length ys \<le> length arr"
  then have "blit (off + length xs) ys (blit off xs arr) =
      take (off + length xs) (blit off xs arr) @ ys @ drop (off + length xs + length ys) (blit off xs arr)"
    by (intro blit_fits) simp
  also have "blit off xs arr = take off arr @ xs @ drop (off + length xs) arr" using a by (intro blit_fits) simp
  finally show ?thesis using a by (simp add: blit_fits min_absorb2 ac_simps)
qed

lemma length_concat_blocks [simp]: "length (concat (map block_bytes bs)) = 2 * length bs"
  by (induction bs) simp_all

lemma store_all_eq:
  assumes "0 \<le> num_blocks st" "num_blocks st + int (length bs) \<le> 8" "length (v6_bytes st) = 16"
    and "v6_block st = 0" "v6_empty st"
  shows "store_all st bs = st\<lparr>v6_bytes := blit (nat (2 * num_blocks st)) (concat (map block_bytes bs)) (v6_bytes st),
      num_blocks := num_blocks st + int (length bs)\<rparr>"
  using assms
proof (induction bs arbitrary: st)
  case (Cons b bs)
  let ?st = "stored (st\<lparr>v6_block := b, v6_empty := False\<rparr>)"
  have n: "nat (2 * num_blocks st) + 2 + 2 * length bs \<le> 16" using Cons.prems by simp
  have "store_all st (b # bs) = store_all ?st bs" by (simp add: store_all_def)
  also have "\<dots> = ?st\<lparr>v6_bytes := blit (nat (2 * num_blocks ?st)) (concat (map block_bytes bs)) (v6_bytes ?st),
      num_blocks := num_blocks ?st + int (length bs)\<rparr>"
    using Cons.prems n by (intro Cons.IH) (simp_all add: stored_def)
  also have "nat (2 * num_blocks ?st) = nat (2 * num_blocks st) + length (block_bytes b)"
    using Cons.prems(1) by (simp add: stored_def nat_add_distrib)
  also have "blit \<dots> (concat (map block_bytes bs)) (v6_bytes ?st) =
      blit (nat (2 * num_blocks st)) (concat (map block_bytes (b # bs))) (v6_bytes st)"
    using Cons.prems(3) n blit_blit [of "nat (2 * num_blocks st)" "block_bytes b" "concat (map block_bytes bs)" "v6_bytes st"]
    by (simp add: stored_def)
  finally show ?case using Cons.prems(4,5) by (simp add: stored_def)
qed (simp add: store_all_def blit_def)

lemma ipv4_done_full:
  "compress_pos st = - 1 \<Longrightarrow> num_blocks st = 8 \<Longrightarrow> length (v6_bytes st) = 16 \<Longrightarrow> ipv4_done st = Some (Some (v6_bytes st))"
proof -
  assume a: "compress_pos st = - 1" "num_blocks st = 8" "length (v6_bytes st) = 16"
  have "seg 0 16 (v6_bytes st) = v6_bytes st" "blit 0 (v6_bytes st) (v6_bytes st) = v6_bytes st"
    "blit 0 [] (v6_bytes st) = v6_bytes st"
    using a(3) blit_fits [of 0 "v6_bytes st" "v6_bytes st"] blit_fits [of 0 "[]" "v6_bytes st"] by simp_all
  then show ?thesis using a unfolding ipv4_done_def Let_def by simp
qed

lemma ipv4_done_gap:
  assumes "compress_pos st = int f" "num_blocks st = int (f + r)" "v6_bytes st = fb @ rb @ junk"
    and "length fb = 2 * f" "length rb = 2 * r" "length (v6_bytes st) = 16"
  shows "ipv4_done st = Some (Some (fb @ replicate (2 * (8 - (f + r))) 0 @ rb))"
proof -
  have le: "f + r \<le> 8" using assms(3-6) by simp
  have n: "nat (2 * (8 - int r)) = 16 - 2 * r" using le by (auto simp: nat_eq_iff of_nat_diff)
  have n': "nat (16 + (- (2 * int f) - 2 * int r)) = 2 * (8 - (f + r))" using le by (auto simp: nat_eq_iff of_nat_diff)
  have seg: "seg (2 * f) (2 * r) (v6_bytes st) = rb" using assms(3-5) by (simp add: seg_def)
  have "blit (16 - 2 * r) rb (v6_bytes st) = take (16 - 2 * r) (v6_bytes st) @ rb"
    using assms(5,6) le by (subst blit_fits) simp_all
  moreover define x where "x = take (2 * (8 - (f + r))) (rb @ junk)"
  have "length x = 2 * (8 - (f + r))" using assms(3-6) le by (simp add: x_def)
  moreover have "16 - 2 * r = 2 * f + 2 * (8 - (f + r))" using le by linarith
  then have "take (16 - 2 * r) (v6_bytes st) = fb @ x" using assms(3,4) by (simp add: x_def)
  moreover have "blit (2 * f) (replicate (2 * (8 - (f + r))) 0) (fb @ x @ rb) = fb @ replicate (2 * (8 - (f + r))) 0 @ rb"
    using assms(4) calculation(2) by (subst blit_fits) simp_all
  ultimately show ?thesis using assms(1,2,6) le seg n n' by (simp add: ipv4_done_def Let_def nat_mult_distrib)
qed

definition v6_start :: "byte list \<Rightarrow> v6_state" where
  "v6_start old = \<lparr>num_blocks = 0, compress_pos = - 1, v6_block = 0, v6_empty = True, v6_bytes = old\<rparr>"

definition v6_after :: "int \<Rightarrow> u16 list \<Rightarrow> byte list \<Rightarrow> v6_state" where
  "v6_after c bs old = \<lparr>num_blocks = int (length bs), compress_pos = c, v6_block = 0, v6_empty = True,
     v6_bytes = blit 0 (concat (map block_bytes bs)) old\<rparr>"

lemma store_all_after:
  assumes "length old = 16" "length bs + length cs \<le> 8"
  shows "store_all (v6_after c bs old) cs = v6_after c (bs @ cs) old"
proof -
  have "blit (2 * length bs) (concat (map block_bytes cs)) (blit 0 (concat (map block_bytes bs)) old) =
      blit 0 (concat (map block_bytes (bs @ cs))) old"
    using blit_blit [of 0 "concat (map block_bytes bs)" "concat (map block_bytes cs)" old] assms by simp
  then show ?thesis using assms by (subst store_all_eq) (simp_all add: v6_after_def nat_mult_distrib)
qed

lemma has_room_after: "length old = 16 \<Longrightarrow> length bs \<le> 7 \<Longrightarrow> has_room (v6_after c bs old)"
  by (simp add: has_room_def v6_after_def)

lemma has_room_update [simp]: "has_room (st\<lparr>v6_block := b, v6_empty := e\<rparr>) = has_room st"
  by (simp add: has_room_def)

lemma v6_after_sel [simp]:
  "num_blocks (v6_after c bs old) = int (length bs)" "compress_pos (v6_after c bs old) = c"
  "v6_block (v6_after c bs old) = 0" "v6_empty (v6_after c bs old)"
  by (simp_all add: v6_after_def)

text \<open>Reading the blocks \<open>cs\<close> after \<open>bs\<close>, up to the last one, which is still in \<open>block\<close>.\<close>

lemma v6_read_after:
  assumes "cs \<noteq> []" "drop i name = join cs @ rest" "length bs + length cs \<le> 8" "length old = 16"
  shows "\<exists>st. v6_loop name i (v6_after c bs old) = v6_loop name (i + length (join cs)) st \<and> has_room st \<and>
    \<not> v6_empty st \<and> compress_pos st = c \<and> num_blocks st = int (length bs + length cs) - 1 \<and>
    stored st = v6_after c (bs @ cs) old"
proof -
  let ?st = "(store_all (v6_after c bs old) (butlast cs))\<lparr>v6_block := last cs, v6_empty := False\<rparr>"
  have b: "store_all (v6_after c bs old) (butlast cs) = v6_after c (bs @ butlast cs) old"
    using assms by (intro store_all_after) simp_all
  have "length cs \<ge> 1" using assms(1) by (simp add: Suc_le_eq)
  then have "length bs \<le> 7" "length (bs @ butlast cs) \<le> 7" using assms(3) by simp_all
  then have "has_room (v6_after c bs old)" "has_room ?st"
    using assms(4) by (simp_all add: b has_room_after)
  moreover have "v6_loop name i (v6_after c bs old) = v6_loop name (i + length (join cs)) ?st"
    using assms calculation(1) by (intro v6_read_join) simp_all
  moreover have "stored ?st = store_all (v6_after c bs old) (butlast cs @ [last cs])"
    by (simp add: store_all_def)
  then have "stored ?st = v6_after c (bs @ cs) old"
    using assms store_all_after [of old bs cs c] by simp
  moreover have "num_blocks ?st = int (length bs + length cs) - 1" "compress_pos ?st = c"
    using b \<open>length cs \<ge> 1\<close> by (simp_all add: of_nat_diff)
  ultimately show ?thesis by (intro exI [of _ ?st]) simp
qed

lemma parse_full:
  assumes "length bs = 8" "length old = 16"
  shows "ipaddr6_parse_ipv6_addr_bin (join bs) old = Some (Some (concat (map block_bytes bs)))"
proof -
  have "bs \<noteq> []" using assms(1) by auto
  then obtain st where st: "v6_loop (join bs) 0 (v6_after (- 1) [] old) = v6_loop (join bs) (length (join bs)) st"
    "has_room st" "\<not> v6_empty st" "compress_pos st = - 1" "stored st = v6_after (- 1) bs old"
    using v6_read_after [of bs 0 "join bs" "[]" "[]" old "- 1"] assms by auto
  let ?st = "st\<lparr>v6_bytes := v6_bytes (stored st), num_blocks := num_blocks (stored st)\<rparr>"
  have "v6_bytes (stored st) = concat (map block_bytes bs)"
    using assms st(5) by (simp add: v6_after_def blit_fits)
  moreover have "ipv4_done ?st = Some (Some (v6_bytes (stored st)))"
    using assms st(4,5) calculation by (subst ipv4_done_full) simp_all
  moreover have "v6_after (- 1) [] old = v6_start old" by (simp add: v6_after_def v6_start_def blit_def)
  ultimately show ?thesis using st(1-3)
    by (simp add: ipaddr6_parse_ipv6_addr_bin_def v6_start_def [symmetric] v6_end store_block_ok)
qed

lemma v6_read_double:
  assumes "length F \<le> 7" "length old = 16"
  shows "v6_loop (join F @ [58, 58] @ rest) 0 (v6_start old) =
    v6_loop (join F @ [58, 58] @ rest) (length (join F) + 2) (v6_after (int (length F)) F old)"
proof (cases "F = []")
  case True
  then show ?thesis
    by (subst v6_colon) (simp_all add: has_room_def v6_start_def v6_after_def assms(2) blit_def)
next
  case False
  let ?name = "join F @ [58, 58] @ rest"
  obtain st where st: "v6_loop ?name 0 (v6_after (- 1) [] old) = v6_loop ?name (length (join F)) st"
    "has_room st" "\<not> v6_empty st" "compress_pos st = - 1" "num_blocks st = int (length F) - 1"
    "stored st = v6_after (- 1) F old"
    using v6_read_after [of F 0 ?name "[58, 58] @ rest" "[]" old "- 1"] assms False by auto
  have "join F \<noteq> []" using join_hd [OF False] by auto
  then have "v6_loop ?name (length (join F)) st =
      v6_loop ?name (length (join F) + 2) ((stored st)\<lparr>compress_pos := num_blocks (stored st)\<rparr>)"
    using st(2-5) assms(1) by (subst v6_colon) (simp_all add: nth_append Let_def)
  moreover have "v6_after (- 1) [] old = v6_start old" by (simp add: v6_after_def v6_start_def blit_def)
  ultimately show ?thesis using st(1,6) by (simp add: v6_after_def)
qed

lemma parse_gap:
  assumes "length F + length R \<le> 7" "length old = 16"
  shows "ipaddr6_parse_ipv6_addr_bin (join F @ [58, 58] @ join R) old =
    Some (Some (concat (map block_bytes F) @ replicate (2 * (8 - (length F + length R))) 0 @ concat (map block_bytes R)))"
proof -
  let ?name = "join F @ [58, 58] @ join R" and ?c = "int (length F)"
  have start: "v6_loop ?name 0 (v6_start old) = v6_loop ?name (length (join F) + 2) (v6_after ?c F old)"
    using v6_read_double assms by simp
  have done_ok: "ipv4_done st = Some (Some (concat (map block_bytes F) @
      replicate (2 * (8 - (length F + length R))) 0 @ concat (map block_bytes R)))"
    if "compress_pos st = ?c" "num_blocks st = int (length (F @ R))"
      "v6_bytes st = blit 0 (concat (map block_bytes (F @ R))) old" for st
    using that assms
    by (intro ipv4_done_gap [where junk = "drop (2 * length (F @ R)) old"]) (simp_all add: blit_fits)
  show ?thesis
  proof (cases "R = []")
    case True
    then show ?thesis using start done_ok [of "v6_after ?c F old"]
      by (simp add: ipaddr6_parse_ipv6_addr_bin_def v6_start_def [symmetric] v6_end v6_after_def)
  next
    case False
    obtain st where st: "v6_loop ?name (length (join F) + 2) (v6_after ?c F old) =
        v6_loop ?name (length (join F) + 2 + length (join R)) st" "has_room st" "\<not> v6_empty st"
      "compress_pos st = ?c" "stored st = v6_after ?c (F @ R) old"
      using v6_read_after [of R "length (join F) + 2" ?name "[]" F old ?c] assms False by auto
    then show ?thesis using start
      done_ok [of "st\<lparr>v6_bytes := v6_bytes (stored st), num_blocks := num_blocks (stored st)\<rparr>"]
      by (simp add: ipaddr6_parse_ipv6_addr_bin_def v6_start_def [symmetric] v6_end store_block_ok v6_after_def)
  qed
qed

section \<open>The printed form\<close>

definition zero_block :: "byte list \<Rightarrow> nat \<Rightarrow> bool" where
  "zero_block a i \<longleftrightarrow> a ! (2 * i) = 0 \<and> a ! (2 * i + 1) = 0"

lemma zero_runs:
  assumes "foldl (zero_run_step a) (0, 0, 0, 0) [0..<n] = (ls, ll, cs, cl)"
  shows "cs + cl = n \<and> ls + ll \<le> n \<and> (\<forall>i. ls \<le> i \<and> i < ls + ll \<longrightarrow> zero_block a i) \<and>
    (\<forall>i. cs \<le> i \<and> i < n \<longrightarrow> zero_block a i)"
  using assms
proof (induction n arbitrary: ls ll cs cl)
  case (Suc n)
  obtain ls' ll' cs' cl' where r: "foldl (zero_run_step a) (0, 0, 0, 0) [0..<n] = (ls', ll', cs', cl')"
    by (metis prod_cases4)
  have ih: "cs' + cl' = n" "ls' + ll' \<le> n" "\<And>i. ls' \<le> i \<Longrightarrow> i < ls' + ll' \<Longrightarrow> zero_block a i"
    "\<And>i. cs' \<le> i \<Longrightarrow> i < n \<Longrightarrow> zero_block a i"
    using Suc.IH [OF r] by auto
  have st: "zero_run_step a (ls', ll', cs', cl') n = (ls, ll, cs, cl)" using Suc.prems r by simp
  show ?case
  proof (cases "zero_block a n")
    case True
    then have c: "cs = cs'" "cl = cl' + 1" "(ls, ll) = (if cl' + 1 > ll' then (cs', cl' + 1) else (ls', ll'))"
      using st by (auto simp: zero_run_step_def zero_block_def split: if_splits)
    have run: "zero_block a i" if "cs' \<le> i" "i < Suc n" for i
      using that ih(4) True by (cases "i = n") auto
    show ?thesis using c ih run by (auto split: if_splits)
  next
    case False
    then have "ls = ls'" "ll = ll'" "cs = n + 1" "cl = 0"
      using st by (auto simp: zero_run_step_def zero_block_def split: if_splits)
    then show ?thesis using ih by auto
  qed
qed simp

lemma concat_after:
  "concat (map (\<lambda>i. hex (unat (f i)) @ [58]) xs) = (if xs = [] then [] else join (map f xs) @ [58])"
  by (induction xs) (simp_all add: join_Cons)

lemma concat_before:
  "concat (map (\<lambda>i. 58 # hex (unat (f i))) xs) = (if xs = [] then [] else 58 # join (map f xs))"
  by (induction xs) (simp_all add: join_Cons)

lemma print_forms:
  obtains (gap) ls ll where "ls + ll \<le> 8" "1 < ll" "\<And>i. ls \<le> i \<Longrightarrow> i < ls + ll \<Longrightarrow> zero_block a i"
      "ipaddr6_print_addr a = join (map (addr_block a) [0..<ls]) @ [58, 58] @ join (map (addr_block a) [ls + ll..<8])"
  | (full) "ipaddr6_print_addr a = join (map (addr_block a) [0..<8])"
proof -
  obtain ls ll cs cl where r: "foldl (zero_run_step a) (0, 0, 0, 0) [0..<8] = (ls, ll, cs, cl)" by (metis prod_cases4)
  have z: "ls + ll \<le> 8" "\<And>i. ls \<le> i \<Longrightarrow> i < ls + ll \<Longrightarrow> zero_block a i" using zero_runs [OF r] by auto
  show ?thesis
  proof (cases "1 < ll")
    case True
    then have "ipaddr6_print_addr a = join (map (addr_block a) [0..<ls]) @ [58, 58] @ join (map (addr_block a) [ls + ll..<8])"
      using z(1) unfolding ipaddr6_print_addr_def r by (auto simp: concat_after concat_before simp del: upt_Suc)
    with True z gap show ?thesis by blast
  next
    case False
    have "[0..<8] = 0 # [1..<8]" by (simp add: upt_conv_Cons)
    moreover have "map (\<lambda>i. (if i = 0 then [] else [58]) @ hex (unat (addr_block a i))) [1..<8] =
        map (\<lambda>i. 58 # hex (unat (addr_block a i))) [1..<8]" by auto
    ultimately have "ipaddr6_print_addr a = join (map (addr_block a) [0..<8])"
      using False unfolding ipaddr6_print_addr_def r
      by (simp add: concat_before join_Cons del: upt_Suc map_eq_conv)
    with full show ?thesis .
  qed
qed

lemma block_bytes_addr: "block_bytes (addr_block a i) = [a ! (2 * i), a ! (2 * i + 1)]"
proof -
  have m: "(0xFF :: u16) = mask 8" by (simp add: mask_eq_exp_minus_1)
  show ?thesis unfolding block_bytes_def addr_block_def m
    by (intro list.inject [THEN iffD2] conjI bit_word_eqI refl) (auto simp: bit_simps)
qed

lemma concat_blocks:
  "2 * (i + n) \<le> length a \<Longrightarrow> concat (map block_bytes (map (addr_block a) [i..<i + n])) = seg (2 * i) (2 * n) a"
proof (induction n)
  case (Suc n)
  have "seg (2 * i) (2 * n) a @ seg (2 * (i + n)) 2 a = seg (2 * i) (2 * n + 2) a" by (intro seg_join) simp
  moreover have "seg (2 * (i + n)) 2 a = [a ! (2 * (i + n)), a ! (2 * (i + n) + 1)]"
    using Suc.prems by (simp add: seg_def numeral_2_eq_2 take_Suc_conv_app_nth)
  ultimately show ?case using Suc by (simp add: block_bytes_addr)
qed simp

lemma zero_blocks_bytes:
  assumes "\<And>i. ls \<le> i \<Longrightarrow> i < ls + n \<Longrightarrow> zero_block a i" "2 * (ls + n) \<le> length a"
  shows "seg (2 * ls) (2 * n) a = replicate (2 * n) 0"
proof (rule nth_equalityI)
  fix k assume "k < length (seg (2 * ls) (2 * n) a)"
  then have k: "k < 2 * n" by simp
  then have "zero_block a (ls + k div 2)" using assms(1) by simp
  moreover have "2 * ls + k = 2 * (ls + k div 2) \<or> 2 * ls + k = 2 * (ls + k div 2) + 1" by presburger
  ultimately have "a ! (2 * ls + k) = 0" unfolding zero_block_def by metis
  then show "seg (2 * ls) (2 * n) a ! k = replicate (2 * n) 0 ! k" using k assms(2) by (simp add: seg_def)
qed (use assms(2) in simp)

lemma print_addr6_parse:
  assumes "length a = 16" "length old = 16"
  shows "ipaddr6_parse_ipv6_addr_bin (ipaddr6_print_addr a) old = Some (Some a)"
proof (cases rule: print_forms [of a])
  case (gap ls ll)
  let ?F = "map (addr_block a) [0..<ls]" and ?R = "map (addr_block a) [ls + ll..<8]"
  have f: "concat (map block_bytes ?F) = seg 0 (2 * ls) a" using concat_blocks [of 0 ls a] gap(1) assms(1) by simp
  have r: "concat (map block_bytes ?R) = seg (2 * (ls + ll)) (16 - 2 * (ls + ll)) a"
    using concat_blocks [of "ls + ll" "8 - (ls + ll)" a] gap(1) assms(1) by (simp add: right_diff_distrib')
  have "8 - (length ?F + length ?R) = ll" using gap(1) by simp
  then have "ipaddr6_parse_ipv6_addr_bin (ipaddr6_print_addr a) old =
      Some (Some (seg 0 (2 * ls) a @ seg (2 * ls) (2 * ll) a @ seg (2 * (ls + ll)) (16 - 2 * (ls + ll)) a))"
    using parse_gap [of ?F ?R old] gap assms zero_blocks_bytes [of ls ll a] f r by (simp del: upt_Suc)
  also have "seg 0 (2 * ls) a @ seg (2 * ls) (2 * ll) a @ seg (2 * (ls + ll)) (16 - 2 * (ls + ll)) a = a"
    using gap(1) assms(1) seg_join [of "2 * (ls + ll)" "2 * ls" "2 * ll" a "16 - 2 * (ls + ll)"]
      seg_join [of "2 * ls" 0 "2 * ls" a "16 - 2 * ls"] by (simp add: right_diff_distrib')
  finally show ?thesis .
next
  case full
  then show ?thesis
    using parse_full [of "map (addr_block a) [0..<8]" old] concat_blocks [of 0 8 a] assms by (simp del: upt_Suc)
qed

section \<open>Masks and networks\<close>

lemma top_bits_Suc: "top_bits (Suc n) = top_bits n OR push_bit (8 - n - 1) 1"
  by (simp add: top_bits_def)

lemma bit_top_bits: "n \<le> 8 \<Longrightarrow> bit (top_bits n) k \<longleftrightarrow> 8 - n \<le> k \<and> k < 8"
proof (induction n)
  case (Suc n)
  then show ?case by (auto simp: top_bits_Suc bit_or_iff bit_exp_iff)
qed (simp add: top_bits_def)

lemma top_bits_values:
  "top_bits 0 = 0" "top_bits (Suc 0) = 128" "top_bits 2 = 192" "top_bits 3 = 224" "top_bits 4 = 240" "top_bits 5 = 248"
  "top_bits 6 = 252" "top_bits 7 = 254" "top_bits 8 = 255"
  by code_simp+

lemma top_bits_loop_iff: "top_bits_loop m 0 0 = Some j \<longleftrightarrow> j \<le> 8 \<and> m = top_bits j"
proof -
  have e: "top_bits_loop m 0 0 = (if m = 0 then Some 0 else if m = 128 then Some 1 else if m = 192 then Some 2
      else if m = 224 then Some 3 else if m = 240 then Some 4 else if m = 248 then Some 5 else if m = 252 then Some 6
      else if m = 254 then Some 7 else if m = 255 then Some 8 else None)"
    by (simp add: top_bits_loop.simps)
  show ?thesis
  proof
    assume "top_bits_loop m 0 0 = Some j"
    then show "j \<le> 8 \<and> m = top_bits j" unfolding e by (auto simp: top_bits_values split: if_splits)
  next
    assume a: "j \<le> 8 \<and> m = top_bits j"
    then have "j = 0 \<or> j = 1 \<or> j = 2 \<or> j = 3 \<or> j = 4 \<or> j = 5 \<or> j = 6 \<or> j = 7 \<or> j = 8" by auto
    then show "top_bits_loop m 0 0 = Some j" unfolding e using a by (elim disjE) (simp_all add: top_bits_values)
  qed
qed

lemma mask6_form:
  assumes "q < 16" "r < 8"
  shows "ipaddr6_ipv6_mask_from_prefix (8 * int q + int r) = Some (replicate q 0xFF @ top_bits r # replicate (15 - q) 0)"
proof -
  have d: "nat ((8 * int q + int r) div 8) = q" "nat ((8 * int q + int r) mod 8) = r" using assms(2) by simp_all
  have z: "replicate (16 - q) (0 :: byte) = 0 # replicate (15 - q) 0" using assms(1) by (cases "16 - q") auto
  show ?thesis using assms unfolding ipaddr6_ipv6_mask_from_prefix_def d Let_def z
    by (cases "r = 0") (simp_all add: top_bits_values nth_append list_update_append)
qed

lemma mask6_full: "ipaddr6_ipv6_mask_from_prefix 128 = Some (replicate 16 0xFF)"
  by (simp add: ipaddr6_ipv6_mask_from_prefix_def Let_def)

lemma takeWhile_ones:
  "x \<noteq> 0xFF \<Longrightarrow> takeWhile (\<lambda>b. b = 0xFF) (replicate q 0xFF @ x # rest) = replicate q (0xFF :: byte)"
  by (induction q) simp_all

lemma mask_split:
  fixes msk :: "byte list"
  assumes "length (takeWhile (\<lambda>b. b = 0xFF) msk) = i" "i < length msk"
  shows "msk = replicate i 0xFF @ msk ! i # drop (i + 1) msk" "msk ! i \<noteq> 0xFF"
proof -
  have t: "takeWhile (\<lambda>b. b = 0xFF) msk = replicate i 0xFF"
    using assms(1) by (intro replicate_eqI) (auto dest: set_takeWhileD)
  have "take i msk = replicate i 0xFF" using t assms(1) by (metis takeWhile_eq_take)
  then show "msk = replicate i 0xFF @ msk ! i # drop (i + 1) msk"
    using assms(2) by (metis Cons_nth_drop_Suc Suc_eq_plus1 append_take_drop_id)
  show "msk ! i \<noteq> 0xFF" using assms nth_length_takeWhile by blast
qed

lemma prefix6_split: "0 \<le> p \<Longrightarrow> p < 128 \<Longrightarrow> \<exists>q r. q < 16 \<and> r < 8 \<and> p = 8 * int q + int r"
  by (rule exI [of _ "nat (p div 8)"], rule exI [of _ "nat (p mod 8)"]) (simp add: nat_less_iff pos_imp_zdiv_nonneg_iff)

lemma prefix_from_mask6:
  assumes "q < 16" "r < 8"
  shows "ipaddr6_ipv6_prefix_from_mask (replicate q 0xFF @ top_bits r # replicate (15 - q) 0) = Some (8 * int q + int r)"
proof -
  have "r = 0 \<or> r = 1 \<or> r = 2 \<or> r = 3 \<or> r = 4 \<or> r = 5 \<or> r = 6 \<or> r = 7" using assms(2) by auto
  then have "top_bits r \<noteq> 0xFF" by (auto simp: top_bits_values)
  moreover have "top_bits_loop (top_bits r) 0 0 = Some r" using assms(2) by (simp add: top_bits_loop_iff)
  ultimately show ?thesis using assms(1)
    by (simp add: ipaddr6_ipv6_prefix_from_mask_def takeWhile_ones Let_def nth_append list_all_iff)
qed

text \<open>The prefix of a mask is found exactly for the masks that belong to a prefix.\<close>

lemma prefix6_from_mask_iff:
  assumes "length msk = 16"
  shows "ipaddr6_ipv6_prefix_from_mask msk = Some p \<longleftrightarrow> ipaddr6_ipv6_mask_from_prefix p = Some msk"
proof
  assume m: "ipaddr6_ipv6_mask_from_prefix p = Some msk"
  then have "0 \<le> p" "p \<le> 128" by (auto simp: ipaddr6_ipv6_mask_from_prefix_def)
  then consider q r where "q < 16" "r < 8" "p = 8 * int q + int r" | "p = 128" using prefix6_split [of p] by fastforce
  then show "ipaddr6_ipv6_prefix_from_mask msk = Some p"
  proof cases
    case 1
    then show ?thesis using mask6_form prefix_from_mask6 m by auto
  next
    case 2
    then have "msk = replicate 16 0xFF" using m mask6_full by simp
    then show ?thesis using 2 by (simp add: ipaddr6_ipv6_prefix_from_mask_def takeWhile_replicate)
  qed
next
  assume m: "ipaddr6_ipv6_prefix_from_mask msk = Some p"
  let ?i = "length (takeWhile (\<lambda>b. b = 0xFF) msk)"
  show "ipaddr6_ipv6_mask_from_prefix p = Some msk"
  proof (cases "?i < 16")
    case True
    obtain j where j: "top_bits_loop (msk ! ?i) 0 0 = Some j" "list_all (\<lambda>b. b = 0) (drop (?i + 1) msk)"
      "p = 8 * int ?i + int j"
      using m True by (auto simp: ipaddr6_ipv6_prefix_from_mask_def Let_def split: option.splits if_splits)
    have s: "msk = replicate ?i 0xFF @ msk ! ?i # drop (?i + 1) msk" "msk ! ?i \<noteq> 0xFF"
      using mask_split [OF refl] True assms by auto
    have t: "j \<le> 8" "msk ! ?i = top_bits j" using j(1) top_bits_loop_iff by auto
    then have "j < 8" using s(2) by (cases "j = 8") (auto simp: top_bits_values)
    moreover have "drop (?i + 1) msk = replicate (15 - ?i) 0"
      using j(2) assms by (intro replicate_eqI) (auto simp: list_all_iff)
    ultimately show ?thesis using mask6_form [OF True] j(3) s(1) t(2) by simp
  next
    case False
    then have i: "?i = 16" using assms length_takeWhile_le [of "\<lambda>b. b = 0xFF" msk] by simp
    then have "takeWhile (\<lambda>b. b = 0xFF) msk = msk" using assms takeWhile_eq_take [of "\<lambda>b. b = 0xFF" msk] by simp
    then have "msk = replicate 16 0xFF"
      using assms by (intro replicate_eqI) (auto simp: takeWhile_eq_all_conv)
    then show ?thesis using m i mask6_full by (simp add: ipaddr6_ipv6_prefix_from_mask_def)
  qed
qed

lemma and_eq_iff: "x AND m = y AND m \<longleftrightarrow> (\<forall>n. bit m n \<longrightarrow> bit x n = bit y n)" for x y m :: "'a::len word"
  by (auto simp: bit_eq_iff bit_and_iff dest: bit_imp_le_length)

lemma byte_network: "r \<le> 8 \<Longrightarrow> x AND top_bits r = y AND top_bits r \<longleftrightarrow> (\<forall>k < r. bit x (7 - k) = bit y (7 - k))"
proof -
  assume r: "r \<le> 8"
  have "(\<forall>n. 8 - r \<le> n \<and> n < 8 \<longrightarrow> bit x n = bit y n) \<longleftrightarrow> (\<forall>k < r. bit x (7 - k) = bit y (7 - k))"
  proof
    assume a: "\<forall>k < r. bit x (7 - k) = bit y (7 - k)"
    show "\<forall>n. 8 - r \<le> n \<and> n < 8 \<longrightarrow> bit x n = bit y n"
    proof (intro allI impI)
      fix n assume "8 - r \<le> n \<and> n < 8"
      then have "7 - n < r" "7 - (7 - n) = n" using r by auto
      then show "bit x n = bit y n" using a by metis
    qed
  next
    assume a: "\<forall>n. 8 - r \<le> n \<and> n < 8 \<longrightarrow> bit x n = bit y n"
    show "\<forall>k < r. bit x (7 - k) = bit y (7 - k)"
    proof (intro allI impI)
      fix k assume "k < r"
      then have "8 - r \<le> 7 - k \<and> 7 - k < 8" using r by auto
      then show "bit x (7 - k) = bit y (7 - k)" using a by metis
    qed
  qed
  then show ?thesis using r by (simp add: and_eq_iff bit_top_bits)
qed

lemma byte_eq_bits: "x = y \<longleftrightarrow> (\<forall>k < 8. bit x (7 - k) = bit y (7 - k))" for x y :: byte
proof -
  have "x = y \<longleftrightarrow> x AND top_bits 8 = y AND top_bits 8"
    by (simp add: and_eq_iff bit_top_bits) (simp add: bit_eq_iff)
  then show ?thesis using byte_network [of 8 x y] by simp
qed

lemma all_less_add: "(\<forall>k < m + n. P k) \<longleftrightarrow> (\<forall>k < m. P k) \<and> (\<forall>k < n. P (m + k))" for m n :: nat
proof (intro iffI conjI allI impI)
  fix k assume "(\<forall>k < m. P k) \<and> (\<forall>k < n. P (m + k))" "k < m + n"
  then show "P k" by (cases "k < m") (auto dest: spec [of _ "k - m"])
qed auto

lemma all_less_times:
  fixes q :: nat and P :: "nat \<Rightarrow> nat \<Rightarrow> bool"
  shows "(\<forall>k < 8 * q. P (k div 8) (k mod 8)) \<longleftrightarrow> (\<forall>i < q. \<forall>t < 8. P i t)"
proof (intro iffI allI impI)
  fix i t :: nat
  assume a: "\<forall>k < 8 * q. P (k div 8) (k mod 8)" "i < q" "t < 8"
  then have "8 * i + t < 8 * q" by linarith
  with a(1) have "P ((8 * i + t) div 8) ((8 * i + t) mod 8)" by blast
  with a(3) show "P i t" by simp
next
  fix k assume "\<forall>i < q. \<forall>t < 8. P i t" "k < 8 * q"
  moreover from this(2) have "k div 8 < q" by linarith
  ultimately show "P (k div 8) (k mod 8)" by simp
qed

lemma in_network6_iff:
  assumes "0 \<le> p" "p \<le> 128" "length a = 16" "length b = 16"
  shows "ipaddr6_ipv6_addrs_in_network a b p =
    Some (\<forall>k < nat p. bit (a ! (k div 8)) (7 - k mod 8) = bit (b ! (k div 8)) (7 - k mod 8))"
proof -
  define q where "q = nat (p div 8)"
  define r where "r = nat (p mod 8)"
  let ?same = "\<lambda>k. bit (a ! (k div 8)) (7 - k mod 8) = bit (b ! (k div 8)) (7 - k mod 8)"
  have p: "nat p = 8 * q + r" "r < 8" "q \<le> 16"
    using assms(1,2) by (auto simp: q_def r_def nat_eq_iff nat_less_iff)
  then have q: "r \<noteq> 0 \<Longrightarrow> q < 16" using assms(2) by linarith
  have "(\<forall>k < nat p. ?same k) \<longleftrightarrow> (\<forall>k < 8 * q. ?same k) \<and> (\<forall>k < r. ?same (8 * q + k))"
    unfolding p(1) by (rule all_less_add)
  also have "(\<forall>k < 8 * q. ?same k) \<longleftrightarrow> (\<forall>i < q. \<forall>t < 8. bit (a ! i) (7 - t) = bit (b ! i) (7 - t))"
    by (rule all_less_times)
  also have "\<dots> \<longleftrightarrow> take q a = take q b"
    using p(3) assms(3,4) by (auto simp: list_eq_iff_nth_eq byte_eq_bits)
  also have "(\<forall>k < r. ?same (8 * q + k)) \<longleftrightarrow> a ! q AND top_bits r = b ! q AND top_bits r"
    using p(2) by (simp add: byte_network)
  finally have e: "(\<forall>k < nat p. ?same k) \<longleftrightarrow> take q a = take q b \<and> a ! q AND top_bits r = b ! q AND top_bits r" .
  have "ipaddr6_ipv6_addrs_in_network a b p = (if take q a \<noteq> take q b then Some False else if r = 0 then Some True
      else assert_that (q < length a \<and> q < length b) \<bind> (\<lambda>_. Some (a ! q AND top_bits r = b ! q AND top_bits r)))"
    unfolding ipaddr6_ipv6_addrs_in_network_def Let_def q_def [symmetric] r_def [symmetric] using assms(1,2) by simp
  then show ?thesis unfolding e using q assms(3,4) by (cases "r = 0") (simp_all add: top_bits_values)
qed

section \<open>Interface addresses\<close>

lemma parse_prefix6_bounds: "ipaddr6_parse_ipv6_prefix_bin str = Some n \<Longrightarrow> 0 \<le> n \<and> n \<le> 128"
  by (auto simp: ipaddr6_parse_ipv6_prefix_bin_def word_less_def split: option.splits if_splits)

lemma print_addr6_no_slash: "47 \<notin> set (ipaddr6_print_addr a)"
  using hex_chars by (auto simp: ipaddr6_print_addr_def split: prod.splits)

lemma print_ifaddr6_parse:
  assumes "length (if6_addr a) = 16" "length (if6_addr old) = 16" "0 \<le> if6_prefix a" "if6_prefix a \<le> 128"
  shows "\<exists>t. ipaddr6_print_ifaddr a = Some t \<and> ipaddr6_parse_ipv6_ifaddr_bin t old = Some (Some a)"
proof -
  let ?a = "ipaddr6_print_addr (if6_addr a)" and ?p = "dec (nat (if6_prefix a))"
  have "takeWhile (\<lambda>x. x \<noteq> 47) (?a @ 47 # ?p) = ?a"
    using print_addr6_no_slash [of "if6_addr a"] by (subst takeWhile_append2) auto
  then have f: "b_find_char_bin (?a @ 47 # ?p) 47 = Some (length ?a)" by (simp add: b_find_char_bin_def Let_def)
  have u: "unat (of_nat (nat (if6_prefix a)) :: u64) = nat (if6_prefix a)"
    using assms by (simp only: unat_of_nat) (simp add: nat_less_iff)
  then have "uint (of_nat (nat (if6_prefix a)) :: u64) = if6_prefix a" using assms by (simp only: uint_nat)
  then have "ipaddr6_parse_ipv6_prefix_bin ?p = Some (if6_prefix a)"
    using assms u parse_dec [of "nat (if6_prefix a)"]
    by (simp add: ipaddr6_parse_ipv6_prefix_bin_def word_less_nat_alt nat_less_iff)
  then show ?thesis
    using f assms print_addr6_parse
    by (simp add: ipaddr6_print_ifaddr_def ipaddr6_parse_ipv6_ifaddr_bin_def)
qed

text \<open>C38. For every text, well formed or not, and every output buffer of 16 bytes, the IPv6 parser
  returns without an access outside its arrays; what it accepts is a well-typed interface address: 16
  address bytes and a prefix length from 0 to 128.\<close>

lemma ipv6_ifaddr_typed:
  assumes "length (if6_addr old) = 16"
  shows "\<exists>r. ipaddr6_parse_ipv6_ifaddr_bin str old = Some r \<and>
    (\<forall>a. r = Some a \<longrightarrow> length (if6_addr a) = 16 \<and> 0 \<le> if6_prefix a \<and> if6_prefix a \<le> 128)"
proof (cases "b_find_char_bin str 47")
  case None
  then show ?thesis by (simp add: ipaddr6_parse_ipv6_ifaddr_bin_def)
next
  case (Some i)
  obtain r where r: "ipaddr6_parse_ipv6_addr_bin (take i str) (if6_addr old) = Some r" "\<And>a. r = Some a \<Longrightarrow> length a = 16"
    using parse_ipv6_safe [OF assms, of "take i str"] by blast
  show ?thesis
    using Some r parse_prefix6_bounds [of "drop (i + 1) str"]
    by (auto simp: ipaddr6_parse_ipv6_ifaddr_bin_def split: option.splits)
qed

lemma ipv6_ifaddr_typed_witness:
  "\<exists>r. ipaddr6_parse_ipv6_ifaddr_bin [0x3a, 0x3a, 0x2f, 0x38] \<lparr>if6_addr = replicate 16 7, if6_prefix = 3\<rparr> = Some r \<and>
    (\<forall>a. r = Some a \<longrightarrow> length (if6_addr a) = 16 \<and> 0 \<le> if6_prefix a \<and> if6_prefix a \<le> 128)"
  by (rule ipv6_ifaddr_typed) simp

text \<open>C39. Printing an interface address and parsing the text gives the address back, for IPv4 and for
  IPv6, where a run of zero blocks is printed as a double colon and has to be found again.\<close>

lemma ifaddr_text_roundtrip:
  assumes "0 \<le> if4_prefix a" "if4_prefix a \<le> 32"
    and "length (if6_addr b) = 16" "0 \<le> if6_prefix b" "if6_prefix b \<le> 128" "length (if6_addr old6) = 16"
  shows "(\<exists>t. ipaddr_print_ifaddr a = Some t \<and> ipaddr_parse_ipv4_ifaddr_bin t old4 = Some a) \<and>
    (\<exists>t. ipaddr6_print_ifaddr b = Some t \<and> ipaddr6_parse_ipv6_ifaddr_bin t old6 = Some (Some b))"
  using assms by (intro conjI print_ifaddr_parse print_ifaddr6_parse) simp_all

lemma ifaddr_text_roundtrip_witness:
  "(\<exists>t. ipaddr_print_ifaddr \<lparr>if4_addr = 0x0100A8C0, if4_prefix = 24\<rparr> = Some t \<and>
      ipaddr_parse_ipv4_ifaddr_bin t \<lparr>if4_addr = 0, if4_prefix = 0\<rparr> = Some \<lparr>if4_addr = 0x0100A8C0, if4_prefix = 24\<rparr>) \<and>
   (\<exists>t. ipaddr6_print_ifaddr \<lparr>if6_addr = [0x20, 0x01] @ replicate 13 0 @ [1], if6_prefix = 64\<rparr> = Some t \<and>
      ipaddr6_parse_ipv6_ifaddr_bin t \<lparr>if6_addr = replicate 16 7, if6_prefix = 3\<rparr> =
        Some (Some \<lparr>if6_addr = [0x20, 0x01] @ replicate 13 0 @ [1], if6_prefix = 64\<rparr>))"
  by (rule ifaddr_text_roundtrip) simp_all

text \<open>C40. The prefix of a mask is found exactly for the masks that belong to a prefix, and two
  addresses are in the same network exactly when their first \<open>p\<close> bits agree, for IPv4 and IPv6.\<close>

lemma netmask_exact:
  assumes "0 \<le> p" "p \<le> 32" "0 \<le> q" "q \<le> 128" "length msk6 = 16" "length a6 = 16" "length b6 = 16"
  shows "(ipaddr_ipv4_prefix_from_mask msk = Some n \<longleftrightarrow> ipaddr_ipv4_mask_from_prefix n = Some msk) \<and>
    ipaddr_ipv4_addrs_in_network a b p = Some (\<forall>k < nat p. bit (ntoh32 a) (31 - k) = bit (ntoh32 b) (31 - k)) \<and>
    (ipaddr6_ipv6_prefix_from_mask msk6 = Some n6 \<longleftrightarrow> ipaddr6_ipv6_mask_from_prefix n6 = Some msk6) \<and>
    ipaddr6_ipv6_addrs_in_network a6 b6 q =
      Some (\<forall>k < nat q. bit (a6 ! (k div 8)) (7 - k mod 8) = bit (b6 ! (k div 8)) (7 - k mod 8))"
  using assms by (intro conjI prefix_from_mask_iff in_network_iff prefix6_from_mask_iff in_network6_iff)

lemma netmask_exact_witness:
  "(ipaddr_ipv4_prefix_from_mask 0xFFFF = Some 16 \<longleftrightarrow> ipaddr_ipv4_mask_from_prefix 16 = Some 0xFFFF) \<and>
    ipaddr_ipv4_addrs_in_network 0x0100A8C0 0x0200A8C0 24 =
      Some (\<forall>k < nat 24. bit (ntoh32 0x0100A8C0) (31 - k) = bit (ntoh32 0x0200A8C0) (31 - k)) \<and>
    (ipaddr6_ipv6_prefix_from_mask (0xFF # 0xE0 # replicate 14 0) = Some 11 \<longleftrightarrow>
      ipaddr6_ipv6_mask_from_prefix 11 = Some (0xFF # 0xE0 # replicate 14 0)) \<and>
    ipaddr6_ipv6_addrs_in_network (replicate 16 1) (1 # replicate 15 2) 14 =
      Some (\<forall>k < nat 14. bit (replicate 16 1 ! (k div 8) :: byte) (7 - k mod 8) =
        bit ((1 # replicate 15 2) ! (k div 8) :: byte) (7 - k mod 8))"
  by (rule netmask_exact) simp_all

end
