(* ===== verification/Spec2Isabelle.thy ===== *)
theory Spec2Isabelle
  imports Inet_Proto Flow_Iface Packet_Buffer Packet_Proto Udpgw_Table Fair_Queue Socks_Udpgw Tun_Udp Tcp_Relay Ip6_Text
begin

text \<open>
  Verification of the packet path of the tun2socks program under
  src/app/src/main/cpp/badvpn.
\<close>

end
